(* ===== verification/Prelude.thy ===== *)
theory Prelude
  imports Main "HOL-Library.AList" "HOL-Library.Char_ord" "HOL-Library.List_Lexorder"
    "HOL-Library.Product_Lexorder" "HOL-Library.Code_Target_Nat"
begin

text \<open>
  What the components share: results of fallible code (an exception is \<open>Inl\<close>, a returned
  value is \<open>Inr\<close>), tables as lists of rows with lookup and in-place update, sums over
  tables, and the transition-system locale under which invariants are lifted to every
  reachable state.
\<close>

named_theorems result_simps \<open>evaluation and inversion of fallible code\<close>
named_theorems table_simps \<open>lookup and update in tables\<close>

section \<open>Results\<close>

text \<open>Sequencing of fallible steps: the first exception ends the run.\<close>

definition bind_result :: "'e + 'a \<Rightarrow> ('a \<Rightarrow> 'e + 'b) \<Rightarrow> 'e + 'b" where
  "bind_result m f = (case m of Inl e \<Rightarrow> Inl e | Inr a \<Rightarrow> f a)"

lemma bind_result_Inl [simp, result_simps]: "bind_result (Inl e) f = Inl e"
  by (simp add: bind_result_def)

lemma bind_result_Inr [simp, result_simps]: "bind_result (Inr a) f = f a"
  by (simp add: bind_result_def)

lemma bind_result_eq_Inr [result_simps]:
  "bind_result m f = Inr b \<longleftrightarrow> (\<exists>a. m = Inr a \<and> f a = Inr b)"
  by (cases m) (auto simp: bind_result_def)

lemma bind_result_eq_Inl [result_simps]:
  "bind_result m f = Inl e \<longleftrightarrow> m = Inl e \<or> (\<exists>a. m = Inr a \<and> f a = Inl e)"
  by (cases m) (auto simp: bind_result_def)

definition guard_result :: "bool \<Rightarrow> 'e \<Rightarrow> 'e + unit" where
  "guard_result b e = (if b then Inr () else Inl e)"

lemma guard_result_True [simp]: "guard_result True e = Inr ()"
  by (simp add: guard_result_def)

lemma guard_result_False [simp]: "guard_result False e = Inl e"
  by (simp add: guard_result_def)

lemma guard_result_eq_Inr [result_simps]: "guard_result b e = Inr u \<longleftrightarrow> b"
  by (simp add: guard_result_def)

lemma guard_result_eq_Inl [result_simps]: "guard_result b e = Inl e' \<longleftrightarrow> \<not> b \<and> e' = e"
  by (auto simp: guard_result_def)

lemma sum_cases_Inr [result_simps]:
  "(case m of Inl e \<Rightarrow> Inl (f e) | Inr a \<Rightarrow> g a) = Inr b \<longleftrightarrow> (\<exists>a. m = Inr a \<and> g a = Inr b)"
  by (cases m) auto

lemma option_ext: "(\<And>a. x = Some a \<longleftrightarrow> y = Some a) \<Longrightarrow> x = y"
  by (metis option.exhaust)

section \<open>Tables\<close>

text \<open>A table is the list of its rows; \<open>upd_rows P f t\<close> is \<open>UPDATE t SET f WHERE P\<close>.\<close>

definition upd_rows :: "('r \<Rightarrow> bool) \<Rightarrow> ('r \<Rightarrow> 'r) \<Rightarrow> 'r list \<Rightarrow> 'r list" where
  "upd_rows P f = map (\<lambda>r. if P r then f r else r)"

lemma upd_rows_Nil [simp]: "upd_rows P f [] = []"
  by (simp add: upd_rows_def)

lemma upd_rows_Cons [simp]:
  "upd_rows P f (r # t) = (if P r then f r else r) # upd_rows P f t"
  by (simp add: upd_rows_def)

lemma length_upd_rows [simp]: "length (upd_rows P f t) = length t"
  by (simp add: upd_rows_def)

lemma set_upd_rows: "set (upd_rows P f t) = (\<lambda>r. if P r then f r else r) ` set t"
  by (simp add: upd_rows_def)

lemma upd_rows_none [table_simps]: "(\<And>r. r \<in> set t \<Longrightarrow> \<not> P r) \<Longrightarrow> upd_rows P f t = t"
  by (induction t) auto

lemma map_upd_rows [table_simps]:
  assumes "\<And>r. k (f r) = k r"
  shows "map k (upd_rows P f t) = map k t"
  by (induction t) (auto simp: assms)

lemma image_upd_rows [table_simps]:
  assumes "\<And>r. k (f r) = k r"
  shows "k ` set (upd_rows P f t) = k ` set t"
  using map_upd_rows [of k f P t] assms by (metis set_map)

lemma ball_upd_rows [table_simps]:
  "(\<forall>r \<in> set (upd_rows P f t). Q r) \<longleftrightarrow> (\<forall>r \<in> set t. Q (if P r then f r else r))"
  by (auto simp: set_upd_rows)

lemma filter_upd_rows [table_simps]:
  assumes "\<And>r. r \<in> set t \<Longrightarrow> P r \<Longrightarrow> Q (f r) = Q r"
  shows "filter Q (upd_rows P f t) = upd_rows P f (filter Q t)"
  using assms by (induction t) auto

lemma find_Some_set: "List.find P xs = Some x \<Longrightarrow> x \<in> set xs \<and> P x"
  by (induction xs) (auto split: if_splits)

lemma find_upd_rows [table_simps]:
  assumes "\<And>r. r \<in> set t \<Longrightarrow> P r \<Longrightarrow> Q (f r) = Q r"
  shows "List.find Q (upd_rows P f t) = map_option (\<lambda>r. if P r then f r else r) (List.find Q t)"
  using assms by (induction t) auto

lemma find_append [table_simps]:
  "List.find P (xs @ ys) = (case List.find P xs of None \<Rightarrow> List.find P ys | Some x \<Rightarrow> Some x)"
  by (induction xs) auto

text \<open>Rows with a key: with distinct keys the row of a key is unique.\<close>

lemma find_key_unique:
  assumes "distinct (map k xs)" and "x \<in> set xs" and "k x = a"
  shows "List.find (\<lambda>r. k r = a) xs = Some x"
  using assms by (induction xs) (auto simp: rev_image_eqI)

lemma distinct_key_eq:
  assumes "distinct (map k xs)" and "x \<in> set xs" and "y \<in> set xs" and "k x = k y"
  shows "x = y"
  using assms by (metis inj_onD distinct_map)

lemma sum_upd_rows_key:
  fixes g :: "'r \<Rightarrow> int"
  assumes "distinct (map k xs)" and "x \<in> set xs"
  shows "sum_list (map g (upd_rows (\<lambda>r. k r = k x) f xs)) = sum_list (map g xs) - g x + g (f x)"
  using assms
proof (induction xs)
  case Nil
  then show ?case by simp
next
  case (Cons y ys)
  show ?case
  proof (cases "y = x")
    case True
    with Cons.prems have "k x \<notin> k ` set ys" by simp
    then have "\<And>r. r \<in> set ys \<Longrightarrow> k r \<noteq> k x" by (metis imageI)
    then have "upd_rows (\<lambda>r. k r = k x) f ys = ys" by (rule upd_rows_none)
    with True show ?thesis by simp
  next
    case False
    with Cons.prems have "x \<in> set ys" by simp
    moreover from this Cons.prems have "k y \<noteq> k x" by (auto simp: rev_image_eqI)
    ultimately show ?thesis using Cons by simp
  qed
qed

text \<open>Dictionaries in insertion order.\<close>

lemma dict_get_put [simp]:
  "map_of (AList.update k v d) k' = (if k' = k then Some v else map_of d k')"
  by (simp add: update_conv')

lemma dict_put_distinct: "distinct (map fst d) \<Longrightarrow> distinct (map fst (AList.update k v d))"
  by (rule distinct_update)

lemma dict_put_values: "snd ` set (AList.update k v d) \<subseteq> insert v (snd ` set d)"
  by (induction d) auto

lemma dict_get_iff: "distinct (map fst d) \<Longrightarrow> map_of d k = Some v \<longleftrightarrow> (k, v) \<in> set d"
  by (rule map_of_eq_Some_iff)

text \<open>A measure summed over a list, after one element got smaller.\<close>

lemma sum_list_update_less:
  "k < length xs \<Longrightarrow> f x < f (xs ! k) \<Longrightarrow> sum_list (map f (xs[k := x])) < (sum_list (map f xs) :: nat)"
  by (induction xs arbitrary: k) (auto simp: less_Suc_eq_0_disj split: nat.splits)

section \<open>Transition systems\<close>

text \<open>
  The contract between a step relation and its invariants: the invariant holds at the start
  and every step keeps it. A client gets it in every reachable state and along every run.
\<close>

inductive reachable :: "('s \<Rightarrow> bool) \<Rightarrow> ('s \<Rightarrow> 's \<Rightarrow> bool) \<Rightarrow> 's \<Rightarrow> bool"
  for init :: "'s \<Rightarrow> bool" and step :: "'s \<Rightarrow> 's \<Rightarrow> bool" where
  reach_init: "init s \<Longrightarrow> reachable init step s"
| reach_step: "reachable init step s \<Longrightarrow> step s t \<Longrightarrow> reachable init step t"

locale invariant_system =
  fixes init :: "'s \<Rightarrow> bool" and step :: "'s \<Rightarrow> 's \<Rightarrow> bool" and inv :: "'s \<Rightarrow> bool"
  assumes inv_init: "init s \<Longrightarrow> inv s"
    and inv_step: "inv s \<Longrightarrow> step s t \<Longrightarrow> inv t"
begin

lemma inv_reachable: "reachable init step s \<Longrightarrow> inv s"
  by (induction rule: reachable.induct) (auto intro: inv_init inv_step)

lemma inv_rtranclp: "step\<^sup>*\<^sup>* s t \<Longrightarrow> inv s \<Longrightarrow> inv t"
  by (induction rule: rtranclp_induct) (auto intro: inv_step)

end

end
