(* ===== verification/Decimal_Rounding.thy ===== *)
theory Decimal_Rounding
  imports Decimal_Policy
begin

text \<open>
  The numerical meaning of decimals (\<open>dval\<close>, a rational) and what rounding does to it: the
  result depends on the value only, is monotone in it, and is off by at most half a unit in
  the last of the context's digits.  The locale \<open>monotone_context\<close> states the contract that
  routing needs of a context's multiplication; it is interpreted on the routing context and on
  the default context.
\<close>

section \<open>Values\<close>

fun dval :: "decimal \<Rightarrow> rat" where
  "dval (DFin m e) = of_int m * 10 powi e"
| "dval _ = 0"

fun dec_pos :: "decimal \<Rightarrow> bool" where
  "dec_pos (DFin m e) = (0 < m)"
| "dec_pos _ = False"

lemma dec_pos_finite [simp]: "dec_pos d \<Longrightarrow> is_finite d"
  by (cases d) auto

lemma dec_pos_dval [simp]: "dec_pos d \<Longrightarrow> 0 < dval d"
  by (cases d) auto

lemma ten_powi_not_neg [simp]: "\<not> (10::rat) powi x < 0"
  by (simp add: not_less)

lemma dec_pos_iff: "is_finite d \<Longrightarrow> dec_pos d \<longleftrightarrow> 0 < dval d"
  by (cases d) (auto simp: zero_less_mult_iff)

lemma powi_shift: "(10::rat) ^ nat (e - x) * 10 powi x = 10 powi e" if "x \<le> e"
proof -
  have "(10::rat) powi (e - x) * 10 powi x = 10 powi (e - x + x)"
    by (rule power_int_add [symmetric]) simp
  moreover have "(10::rat) ^ nat (e - x) = 10 powi (e - x)"
    using that by (simp add: power_int_def)
  ultimately show ?thesis by simp
qed

lemma align_dval: "x \<le> e \<Longrightarrow> of_int (m * 10 ^ nat (e - x)) * 10 powi x = dval (DFin m e)"
  using powi_shift [of x e] by (simp add: mult.assoc)

lemma dec_less_iff [decimal_simps]:
  assumes "is_finite a" and "is_finite b"
  shows "dec_less a b \<longleftrightarrow> dval a < dval b"
proof -
  obtain m e n f where ab: "a = DFin m e" "b = DFin n f"
    using assms by (cases a; cases b) auto
  let ?x = "min e f"
  have "dval a = of_int (m * 10 ^ nat (e - ?x)) * 10 powi ?x"
    and "dval b = of_int (n * 10 ^ nat (f - ?x)) * 10 powi ?x"
    unfolding ab by (simp_all only: align_dval min.cobounded1 min.cobounded2)
  moreover have "(0::rat) < 10 powi ?x" by simp
  ultimately have "dval a < dval b \<longleftrightarrow>
      (of_int (m * 10 ^ nat (e - ?x)) :: rat) < of_int (n * 10 ^ nat (f - ?x))"
    by (simp only: mult_less_cancel_right_pos)
  then show ?thesis unfolding ab by (simp only: dec_less.simps of_int_less_iff)
qed

lemma dec_eq_iff [decimal_simps]:
  assumes "is_finite a" and "is_finite b"
  shows "dec_eq a b \<longleftrightarrow> dval a = dval b"
proof -
  obtain m e n f where ab: "a = DFin m e" "b = DFin n f"
    using assms by (cases a; cases b) auto
  let ?x = "min e f"
  have "dval a = of_int (m * 10 ^ nat (e - ?x)) * 10 powi ?x"
    and "dval b = of_int (n * 10 ^ nat (f - ?x)) * 10 powi ?x"
    unfolding ab by (simp_all only: align_dval min.cobounded1 min.cobounded2)
  moreover have "(10::rat) powi ?x \<noteq> 0" by simp
  ultimately have "dval a = dval b \<longleftrightarrow>
      (of_int (m * 10 ^ nat (e - ?x)) :: rat) = of_int (n * 10 ^ nat (f - ?x))"
    by (simp only: mult_cancel_right) blast
  then show ?thesis unfolding ab by (simp only: dec_eq.simps of_int_eq_iff)
qed

section \<open>Digits\<close>

lemma ndigits_pos [simp]: "0 < ndigits n"
  by (subst ndigits.simps) simp

lemma ndigits_upper: "n < 10 ^ ndigits n"
proof (induction n rule: ndigits.induct)
  case (1 n)
  show ?case
  proof (cases "n < 10")
    case True
    then show ?thesis by (simp add: ndigits.simps)
  next
    case False
    with "1.IH" have "n div 10 < 10 ^ ndigits (n div 10)" by simp
    then have "n < 10 * 10 ^ ndigits (n div 10)" by (simp add: div_less_iff_less_mult)
    with False show ?thesis by (simp add: ndigits.simps [of n])
  qed
qed

lemma ndigits_lower: "0 < n \<Longrightarrow> 10 ^ (ndigits n - 1) \<le> n"
proof (induction n rule: ndigits.induct)
  case (1 n)
  show ?case
  proof (cases "n < 10")
    case True
    with "1.prems" show ?thesis by (simp add: ndigits.simps)
  next
    case False
    with "1.IH" have "10 ^ (ndigits (n div 10) - 1) \<le> n div 10" by simp
    then have "10 ^ (ndigits (n div 10) - 1) * 10 \<le> n" by (simp add: less_eq_div_iff_mult_less_eq)
    moreover have "(10::nat) ^ ndigits (n div 10) = 10 ^ (ndigits (n div 10) - 1) * 10"
      by (metis Suc_diff_1 ndigits_pos power_Suc2)
    ultimately show ?thesis using False by (simp add: ndigits.simps [of n])
  qed
qed

lemma ndigits_le_iff: "ndigits n \<le> k \<longleftrightarrow> n < 10 ^ k" if "0 < k"
proof
  assume "ndigits n \<le> k"
  then have "(10::nat) ^ ndigits n \<le> 10 ^ k" by (simp add: power_increasing)
  with ndigits_upper [of n] show "n < 10 ^ k" by linarith
next
  assume a: "n < 10 ^ k"
  show "ndigits n \<le> k"
  proof (cases "n = 0")
    case True
    with that show ?thesis by (simp add: ndigits.simps)
  next
    case False
    with ndigits_lower [of n] a have "(10::nat) ^ (ndigits n - 1) < 10 ^ k" by linarith
    then have "ndigits n - 1 < k" by (simp add: power_strict_increasing_iff)
    then show ?thesis by linarith
  qed
qed

section \<open>Half-even rounding to an integer\<close>

definition half_even :: "rat \<Rightarrow> int" where
  "half_even x =
     (let q = \<lfloor>x\<rfloor>; r = x - of_int q
      in if 1 / 2 < r \<or> (r = 1 / 2 \<and> odd q) then q + 1 else q)"

lemma half_even_of_int [simp]: "half_even (of_int n) = n"
  by (simp add: half_even_def)

lemma half_even_floor: "\<lfloor>x\<rfloor> \<le> half_even x \<and> half_even x \<le> \<lfloor>x\<rfloor> + 1"
  by (simp add: half_even_def Let_def)

lemma half_even_mono: "x \<le> y \<Longrightarrow> half_even x \<le> half_even y"
proof (cases "\<lfloor>x\<rfloor> = \<lfloor>y\<rfloor>")
  case True
  assume "x \<le> y"
  with True show ?thesis by (auto simp: half_even_def Let_def)
next
  case False
  assume "x \<le> y"
  with False have "\<lfloor>x\<rfloor> + 1 \<le> \<lfloor>y\<rfloor>" using floor_mono [of x y] by linarith
  with half_even_floor [of x] half_even_floor [of y] show ?thesis by linarith
qed

lemma half_even_error: "\<bar>of_int (half_even x) - x\<bar> \<le> 1 / 2"
proof -
  have "of_int \<lfloor>x\<rfloor> \<le> x" and "x < of_int \<lfloor>x\<rfloor> + 1" by linarith+
  then show ?thesis by (auto simp: half_even_def Let_def abs_le_iff)
qed

lemma div_half_even_eq:
  assumes "0 < d"
  shows "int (div_half_even n d) = half_even (of_nat n / of_nat d)"
proof -
  have q: "\<lfloor>(of_nat n / of_nat d :: rat)\<rfloor> = int (n div d)"
    by (rule floor_divide_of_nat_eq)
  have "(of_nat n :: rat) = of_nat (n div d) * of_nat d + of_nat (n mod d)"
    by (metis div_mult_mod_eq of_nat_add of_nat_mult)
  with assms have r: "(of_nat n / of_nat d - of_int (int (n div d)) :: rat) = of_nat (n mod d) / of_nat d"
    by (simp add: field_simps)
  have "(1 / 2 < (of_nat (n mod d) / of_nat d :: rat)) \<longleftrightarrow> d < 2 * (n mod d)"
  proof -
    have "(1 / 2 < (of_nat (n mod d) / of_nat d :: rat)) \<longleftrightarrow> (of_nat d :: rat) < of_nat (2 * (n mod d))"
      using assms by (simp add: field_simps)
    then show ?thesis by (simp only: of_nat_less_iff)
  qed
  moreover have "((of_nat (n mod d) / of_nat d :: rat) = 1 / 2) \<longleftrightarrow> 2 * (n mod d) = d"
  proof -
    have "((of_nat (n mod d) / of_nat d :: rat) = 1 / 2) \<longleftrightarrow> (of_nat (2 * (n mod d)) :: rat) = of_nat d"
      using assms by (auto simp: field_simps)
    then show ?thesis by (simp only: of_nat_eq_iff)
  qed
  ultimately show ?thesis
    unfolding half_even_def div_half_even_def Let_def q r by simp
qed

section \<open>Rounding to a precision\<close>

text \<open>\<open>rounded p j x v\<close>: \<open>x\<close> lies in the range whose \<open>p\<close>-digit numbers are the multiples of
  \<open>10 ^ j\<close>, and \<open>v\<close> is the half-even choice among them.\<close>

definition rounded :: "nat \<Rightarrow> int \<Rightarrow> rat \<Rightarrow> rat \<Rightarrow> bool" where
  "rounded p j x v \<longleftrightarrow>
     10 powi (int p - 1 + j) \<le> x \<and> x < 10 powi (int p + j) \<and>
     v = of_int (half_even (x / 10 powi j)) * 10 powi j"

lemma powi_add10: "(10::rat) powi (a + b) = 10 powi a * 10 powi b"
  by (rule power_int_add) simp

lemma powi_nat10: "(10::rat) powi (int n) = 10 ^ n"
  by simp

lemma rounded_units:
  assumes "rounded p j x v" and "0 < p"
  shows "10 ^ (p - 1) \<le> half_even (x / 10 powi j)" and "half_even (x / 10 powi j) \<le> 10 ^ p"
proof -
  have pos: "(0::rat) < 10 powi j" by simp
  have "10 powi (int p - 1) * 10 powi j \<le> x" and "x < 10 powi int p * 10 powi j"
    using assms(1) by (simp_all only: rounded_def powi_add10 [symmetric])
  moreover have "(10::rat) powi (int p - 1) = 10 ^ (p - 1)"
    using assms(2) by (metis One_nat_def Suc_leI int_ops(2) of_nat_diff powi_nat10)
  ultimately have "of_int (10 ^ (p - 1)) \<le> x / 10 powi j" and "x / 10 powi j \<le> of_int (10 ^ p)"
    using pos by (simp_all add: field_simps)
  from this [THEN half_even_mono]
  show "10 ^ (p - 1) \<le> half_even (x / 10 powi j)" and "half_even (x / 10 powi j) \<le> 10 ^ p"
    by (simp_all only: half_even_of_int)
qed

lemma rounded_bounds:
  assumes "rounded p j x v" and "0 < p"
  shows "10 powi (int p - 1 + j) \<le> v" and "v \<le> 10 powi (int p + j)"
proof -
  have pos: "(0::rat) < 10 powi j" by simp
  have p1: "(10::rat) powi (int p - 1) = 10 ^ (p - 1)"
    using assms(2) by (metis One_nat_def Suc_leI int_ops(2) of_nat_diff powi_nat10)
  have v: "v = of_int (half_even (x / 10 powi j)) * 10 powi j"
    using assms(1) by (simp add: rounded_def)
  have lo: "of_int (10 ^ (p - 1)) \<le> (of_int (half_even (x / 10 powi j)) :: rat)"
    and hi: "(of_int (half_even (x / 10 powi j)) :: rat) \<le> of_int (10 ^ p)"
    using rounded_units [OF assms] by (simp_all only: of_int_le_iff)
  show "10 powi (int p - 1 + j) \<le> v"
    using lo pos unfolding v powi_add10 p1 by (simp add: mult_right_mono)
  show "v \<le> 10 powi (int p + j)"
    using hi pos unfolding v powi_add10 powi_nat10 by (simp add: mult_right_mono)
qed

lemma powi_less_imp: "(10::rat) powi a < 10 powi b \<Longrightarrow> a < b"
  by (metis less_le_not_le linorder_le_less_linear numeral_One numeral_le_iff
      power_int_increasing semiring_norm(68))

lemma rounded_mono:
  assumes v: "rounded p j x v" and w: "rounded p k y w" and "0 < p" and "x \<le> y"
  shows "v \<le> w"
proof -
  have "10 powi (int p - 1 + j) < (10::rat) powi (int p + k)"
    using v w \<open>x \<le> y\<close> unfolding rounded_def by linarith
  then have "j \<le> k" by (drule_tac powi_less_imp) simp
  show ?thesis
  proof (cases "j = k")
    case True
    have "x / 10 powi j \<le> y / 10 powi j" using \<open>x \<le> y\<close> by (simp add: divide_right_mono)
    from half_even_mono [OF this]
    have "of_int (half_even (x / 10 powi j)) * (10::rat) powi j
        \<le> of_int (half_even (y / 10 powi j)) * 10 powi j"
      by (intro mult_right_mono) simp_all
    with v w True show ?thesis by (simp add: rounded_def)
  next
    case False
    with \<open>j \<le> k\<close> have "int p + j \<le> int p - 1 + k" by simp
    then have "(10::rat) powi (int p + j) \<le> 10 powi (int p - 1 + k)"
      by (intro power_int_increasing) simp_all
    with rounded_bounds(2) [OF v \<open>0 < p\<close>] rounded_bounds(1) [OF w \<open>0 < p\<close>]
    show ?thesis by linarith
  qed
qed

lemma rounded_error:
  assumes "rounded p j x v"
  shows "\<bar>v - x\<bar> \<le> x * (10 powi (1 - int p) / 2)"
proof -
  let ?u = "(10::rat) powi j"
  have u: "0 < ?u" by simp
  have v: "v = of_int (half_even (x / ?u)) * ?u" using assms by (simp add: rounded_def)
  have "v - x = (of_int (half_even (x / ?u)) - x / ?u) * ?u"
    unfolding v by (simp add: left_diff_distrib)
  then have "\<bar>v - x\<bar> = \<bar>of_int (half_even (x / ?u)) - x / ?u\<bar> * ?u"
    by (simp add: abs_mult)
  also have "\<dots> \<le> 1 / 2 * ?u"
    by (intro mult_right_mono half_even_error) simp
  also have "\<dots> = 10 powi (int p - 1 + j) * (10 powi (1 - int p) / 2)"
  proof -
    have "?u = 10 powi ((int p - 1 + j) + (1 - int p))" by simp
    then have "?u = 10 powi (int p - 1 + j) * 10 powi (1 - int p)" by (simp only: powi_add10)
    then show ?thesis by simp
  qed
  also have "\<dots> \<le> x * (10 powi (1 - int p) / 2)"
    using assms by (intro mult_right_mono) (simp_all add: rounded_def)
  finally show ?thesis .
qed

text \<open>\<open>rounds_to ctx x d\<close>: the finite positive decimal \<open>d\<close> is the rounding of the value \<open>x\<close>.\<close>

definition rounds_to :: "dec_context \<Rightarrow> rat \<Rightarrow> decimal \<Rightarrow> bool" where
  "rounds_to ctx x d \<longleftrightarrow> dec_pos d \<and> (\<exists>j. rounded (prec ctx) j x (dval d))"

lemma coeff_range:
  assumes "0 < m" and "n = ndigits (nat m)"
  shows "10 powi (int n - 1 + e) \<le> dval (DFin m e)" and "dval (DFin m e) < 10 powi (int n + e)"
proof -
  have n: "0 < n" using assms by simp
  have "10 ^ (n - 1) \<le> nat m" and "nat m < 10 ^ n"
    using assms ndigits_lower [of "nat m"] ndigits_upper [of "nat m"] by simp_all
  then have "(of_nat (10 ^ (n - 1)) :: rat) \<le> of_nat (nat m)"
    and "(of_nat (nat m) :: rat) < of_nat (10 ^ n)"
    by (simp_all only: of_nat_le_iff of_nat_less_iff)
  then have "(10::rat) ^ (n - 1) \<le> of_int m" and "(of_int m :: rat) < 10 ^ n"
    using assms(1) by simp_all
  moreover have "(10::rat) powi (int n - 1) = 10 ^ (n - 1)"
    using n by (metis One_nat_def Suc_leI int_ops(2) of_nat_diff powi_nat10)
  ultimately have a: "(10::rat) powi (int n - 1) \<le> of_int m" and b: "(of_int m :: rat) < 10 powi int n"
    by simp_all
  show "10 powi (int n - 1 + e) \<le> dval (DFin m e)"
    using a unfolding powi_add10 dval.simps by (rule mult_right_mono) simp
  show "dval (DFin m e) < 10 powi (int n + e)"
    using b unfolding powi_add10 dval.simps by (rule mult_strict_right_mono) simp
qed

lemma dec_fix_small: "nat \<bar>m\<bar> < 10 ^ prec ctx \<Longrightarrow> 0 < prec ctx \<Longrightarrow> dec_fix ctx m e = DFin m e"
  by (simp add: dec_fix_def ndigits_le_iff)

lemma dec_fix_exact:
  assumes "0 < m" and "0 < prec ctx" and "ndigits (nat m) \<le> prec ctx"
  shows "dec_fix ctx m e = DFin m e"
    and "rounded (prec ctx) (e + int (ndigits (nat m)) - int (prec ctx))
           (dval (DFin m e)) (dval (DFin m e))"
proof -
  define n where "n = ndigits (nat m)"
  define j where "j = e + int n - int (prec ctx)"
  have np: "n \<le> prec ctx" using assms n_def by simp
  show "dec_fix ctx m e = DFin m e"
    using assms by (simp add: dec_fix_def)
  have "j \<le> e" using np by (simp add: j_def)
  then have d: "dval (DFin m e) = of_int (m * 10 ^ nat (e - j)) * 10 powi j"
    by (rule align_dval [symmetric])
  then have "dval (DFin m e) / 10 powi j = of_int (m * 10 ^ nat (e - j))"
    by (metis nonzero_mult_div_cancel_right power_int_not_zero zero_neq_numeral)
  then have "half_even (dval (DFin m e) / 10 powi j) = m * 10 ^ nat (e - j)"
    by (simp only: half_even_of_int)
  with d have "dval (DFin m e) = of_int (half_even (dval (DFin m e) / 10 powi j)) * 10 powi j"
    by simp
  moreover have "int (prec ctx) - 1 + j = int n - 1 + e" and "int (prec ctx) + j = int n + e"
    by (simp_all add: j_def)
  ultimately have "rounded (prec ctx) j (dval (DFin m e)) (dval (DFin m e))"
    using coeff_range [OF assms(1) n_def, of e] unfolding rounded_def by presburger
  then show "rounded (prec ctx) (e + int (ndigits (nat m)) - int (prec ctx))
      (dval (DFin m e)) (dval (DFin m e))"
    by (simp only: j_def n_def)
qed

lemma dec_fix_cut:
  assumes "0 < m" and p: "0 < prec ctx" and "prec ctx < ndigits (nat m)"
  shows "dec_pos (dec_fix ctx m e)"
    and "rounded (prec ctx) (e + int (ndigits (nat m)) - int (prec ctx))
           (dval (DFin m e)) (dval (dec_fix ctx m e))"
proof -
  define p where "p = prec ctx"
  define k where "k = ndigits (nat m) - p"
  define j where "j = e + int k"
  define q where "q = div_half_even (nat m) (10 ^ k)"
  have k: "0 < k" "int k = int (ndigits (nat m)) - int p" and p0: "0 < p"
    using assms by (simp_all add: k_def p_def)
  have j: "j = e + int (ndigits (nat m)) - int p" using k by (simp add: j_def)
  have x: "dval (DFin m e) / 10 powi j = of_nat (nat m) / of_nat (10 ^ k)"
    using assms(1) by (simp add: j_def powi_add10 field_simps)
  have qv: "int q = half_even (dval (DFin m e) / 10 powi j)"
    unfolding x q_def by (rule div_half_even_eq) simp
  have "int p - 1 + j = int (ndigits (nat m)) - 1 + e" and "int p + j = int (ndigits (nat m)) + e"
    by (simp_all add: j)
  moreover have "(of_nat q :: rat) = of_int (half_even (dval (DFin m e) / 10 powi j))"
    unfolding qv [symmetric] by simp
  ultimately have r: "rounded p j (dval (DFin m e)) (of_nat q * 10 powi j)"
    using coeff_range [OF assms(1) refl, of e] unfolding rounded_def by presburger
  have "int (10 ^ (p - 1)) \<le> int q" and "int q \<le> int (10 ^ p)"
    using rounded_units [OF r p0] unfolding qv by simp_all
  then have qlo: "10 ^ (p - 1) \<le> q" and qhi: "q \<le> 10 ^ p"
    by (simp_all only: of_nat_le_iff)
  have "(1::nat) \<le> 10 ^ (p - 1)" by simp
  with qlo have q0: "0 < q" by linarith
  have "dec_pos (dec_fix ctx m e) \<and> dval (dec_fix ctx m e) = of_nat q * 10 powi j"
  proof (cases "p < ndigits q")
    case False
    then have "dec_fix ctx m e = DFin (int q) j"
      using assms k by (simp add: dec_fix_def Let_def p_def [symmetric] k_def [symmetric] q_def j_def)
    with q0 show ?thesis by simp
  next
    case True
    then have "q = 10 ^ p" using qhi ndigits_le_iff [OF p0, of q] by simp
    moreover have "(10::nat) ^ p = 10 ^ (p - 1) * 10"
      using p0 by (metis Suc_diff_1 power_Suc2)
    ultimately have "q div 10 = 10 ^ (p - 1)" and qq: "q = 10 ^ (p - 1) * 10" by simp_all
    moreover from True have "dec_fix ctx m e = DFin (int (q div 10)) (j + 1)"
      using assms k by (simp add: dec_fix_def Let_def p_def [symmetric] k_def [symmetric] q_def j_def)
    ultimately show ?thesis by (simp add: powi_add10)
  qed
  with r show "dec_pos (dec_fix ctx m e)"
    and "rounded (prec ctx) (e + int (ndigits (nat m)) - int (prec ctx))
           (dval (DFin m e)) (dval (dec_fix ctx m e))"
    by (simp_all add: j p_def)
qed

lemma dec_fix_rounds:
  assumes "0 < m" and "0 < prec ctx"
  shows "rounds_to ctx (of_int m * 10 powi e) (dec_fix ctx m e)"
proof (cases "ndigits (nat m) \<le> prec ctx")
  case True
  with dec_fix_exact [OF assms True, of e] assms show ?thesis
    by (auto simp: rounds_to_def)
next
  case False
  with dec_fix_cut [OF assms, of e] show ?thesis
    by (auto simp: rounds_to_def)
qed

lemma dec_mul_rounds:
  assumes "dec_pos a" and "dec_pos b" and "0 < prec ctx"
  shows "rounds_to ctx (dval a * dval b) (dec_mul ctx a b)"
proof -
  obtain m e n f where ab: "a = DFin m e" "b = DFin n f" and mn: "0 < m" "0 < n"
    using assms by (cases a; cases b) auto
  have "rounds_to ctx (of_int (m * n) * 10 powi (e + f)) (dec_fix ctx (m * n) (e + f))"
    using mn assms(3) by (intro dec_fix_rounds) simp_all
  moreover have "of_int (m * n) * 10 powi (e + f) = dval a * dval b"
    unfolding ab powi_add10 by simp
  ultimately have "rounds_to ctx (dval a * dval b) (dec_fix ctx (m * n) (e + f))"
    by (simp only:)
  then show ?thesis unfolding ab by (simp only: dec_mul.simps)
qed

section \<open>The contract of a context\<close>

text \<open>
  What a client of decimal multiplication relies on: products of positive numbers are positive,
  a factor keeps the order of the other factor, and the result is within a relative error of
  the exact product.
\<close>

locale monotone_context =
  fixes ctx :: dec_context and eps :: rat
  assumes mul_pos: "dec_pos a \<Longrightarrow> dec_pos b \<Longrightarrow> dec_pos (dec_mul ctx a b)"
    and mul_mono: "dec_pos a \<Longrightarrow> dec_pos b \<Longrightarrow> dec_pos r \<Longrightarrow> dval a \<le> dval b \<Longrightarrow>
           dval (dec_mul ctx a r) \<le> dval (dec_mul ctx b r)"
    and mul_error: "dec_pos a \<Longrightarrow> dec_pos b \<Longrightarrow>
           \<bar>dval (dec_mul ctx a b) - dval a * dval b\<bar> \<le> dval a * dval b * eps"
    and eps_nonneg: "0 \<le> eps"

definition unit_error :: "dec_context \<Rightarrow> rat" where
  "unit_error ctx = 10 powi (1 - int (prec ctx)) / 2"

lemma monotone_contextI:
  assumes p: "0 < prec ctx"
  shows "monotone_context ctx (unit_error ctx)"
proof
  show "dec_pos (dec_mul ctx a b)" if "dec_pos a" "dec_pos b" for a b
    using dec_mul_rounds [OF that p] by (simp add: rounds_to_def)
  show "dval (dec_mul ctx a r) \<le> dval (dec_mul ctx b r)"
    if "dec_pos a" "dec_pos b" "dec_pos r" "dval a \<le> dval b" for a b r
  proof -
    have "dval a * dval r \<le> dval b * dval r" using that by (simp add: mult_right_mono)
    moreover have "rounds_to ctx (dval a * dval r) (dec_mul ctx a r)"
      and "rounds_to ctx (dval b * dval r) (dec_mul ctx b r)"
      using that p by (simp_all add: dec_mul_rounds)
    ultimately show ?thesis
      using p unfolding rounds_to_def by (blast intro: rounded_mono)
  qed
  show "\<bar>dval (dec_mul ctx a b) - dval a * dval b\<bar> \<le> dval a * dval b * unit_error ctx"
    if "dec_pos a" "dec_pos b" for a b
    using dec_mul_rounds [OF that p] unfolding rounds_to_def unit_error_def
    by (blast intro: rounded_error)
  show "0 \<le> unit_error ctx" by (simp add: unit_error_def)
qed

interpretation routing_context: monotone_context ROUTING_CONTEXT "unit_error ROUTING_CONTEXT"
  by (rule monotone_contextI) (simp add: ROUTING_CONTEXT_def)

interpretation default_context: monotone_context DEFAULT_CONTEXT "unit_error DEFAULT_CONTEXT"
  by (rule monotone_contextI) (simp add: DEFAULT_CONTEXT_def)

end
