(* ===== verification/Decimal_Division.thy ===== *)
theory Decimal_Division
  imports Decimal_Rounding
begin

text \<open>
  Division of positive decimals: the guard digit and the sticky adjustment of the quotient leave
  a value within one part in \<open>10 ^ prec\<close> of the exact quotient, which is then rounded once.
\<close>

lemma toward_ideal_value:
  "toward_ideal c x ideal = (c', x') \<Longrightarrow> of_nat c' * (10::rat) powi x' = of_nat c * 10 powi x"
proof (induction c x ideal rule: toward_ideal.induct)
  case (1 c x ideal)
  show ?case
  proof (cases "x < ideal \<and> c mod 10 = 0")
    case True
    with "1.prems" have "toward_ideal (c div 10) (x + 1) ideal = (c', x')"
      by (simp add: toward_ideal.simps [of c])
    with "1.IH" True have "of_nat c' * (10::rat) powi x' = of_nat (c div 10) * 10 powi (x + 1)"
      by blast
    also have "\<dots> = of_nat (c div 10 * 10) * 10 powi x" by (simp add: powi_add10)
    also have "c div 10 * 10 = c" using True by (simp add: dvd_div_mult_self mod_0_imp_dvd)
    finally show ?thesis .
  next
    case False
    with "1.prems" show ?thesis by (simp add: toward_ideal.simps [of c])
  qed
qed

text \<open>The scaled operands of the integer division: their quotient has at least \<open>prec + 1\<close> digits.\<close>

lemma scaled_quotient_large:
  assumes "0 < a" and "0 < b" and s: "shift = int (ndigits b) - int (ndigits a) + int p + 1"
  shows "scaled b (- shift) * 10 ^ p \<le> scaled a shift"
proof -
  have b: "b \<le> 10 ^ ndigits b" using ndigits_upper [of b] by simp
  have a: "10 ^ (ndigits a - 1) \<le> a" using ndigits_lower [OF assms(1)] .
  show ?thesis
  proof (cases "0 \<le> shift")
    case True
    with s have "ndigits a - 1 + nat shift = ndigits b + p"
      using ndigits_pos [of a] by linarith
    then have "(10::nat) ^ ndigits b * 10 ^ p = 10 ^ (ndigits a - 1) * 10 ^ nat shift"
      by (metis power_add)
    moreover have "b * 10 ^ p \<le> 10 ^ ndigits b * 10 ^ p" using b by (rule mult_le_mono1)
    moreover have "10 ^ (ndigits a - 1) * 10 ^ nat shift \<le> a * 10 ^ nat shift"
      using a by (rule mult_le_mono1)
    ultimately have "b * 10 ^ p \<le> a * 10 ^ nat shift" by linarith
    with True show ?thesis by (cases "shift = 0") (simp_all add: scaled_def)
  next
    case False
    with s have "ndigits a - 1 = ndigits b + nat (- shift) + p"
      using ndigits_pos [of a] by linarith
    then have "(10::nat) ^ ndigits b * 10 ^ nat (- shift) * 10 ^ p = 10 ^ (ndigits a - 1)"
      by (metis power_add)
    moreover have "b * 10 ^ nat (- shift) * 10 ^ p \<le> 10 ^ ndigits b * 10 ^ nat (- shift) * 10 ^ p"
      using b by (intro mult_le_mono1)
    ultimately have "b * 10 ^ nat (- shift) * 10 ^ p \<le> a" using a by linarith
    with False show ?thesis by (simp add: scaled_def)
  qed
qed

lemma scaled_quotient_value:
  assumes "0 < b"
  shows "of_nat (scaled a shift) / of_nat (scaled b (- shift)) * (10::rat) powi (e - f - shift)
       = (of_nat a * 10 powi e) / (of_nat b * 10 powi f)"
proof -
  have p: "(10::rat) powi (e - f - shift) = 10 powi e / 10 powi f / 10 powi shift"
    by (simp add: power_int_diff)
  show ?thesis
  proof (cases "0 \<le> shift")
    case True
    then have "(10::rat) powi shift = 10 ^ nat shift" by (simp add: power_int_def)
    with True assms show ?thesis unfolding p by (cases "shift = 0") (simp_all add: scaled_def)
  next
    case False
    then have "(10::rat) powi shift = inverse (10 ^ nat (- shift))"
      by (simp add: power_int_def power_one_over inverse_eq_divide)
    with False assms show ?thesis unfolding p by (simp add: scaled_def field_simps)
  qed
qed

lemma sticky_quotient:
  assumes "0 < d" and "d * k \<le> (n::nat)" and "0 < k"
    and "c = (if (n div d) mod 5 = 0 then n div d + 1 else n div d)"
  shows "\<bar>of_nat c - of_nat n / of_nat d\<bar> \<le> (of_nat n / of_nat d) / (of_nat k :: rat)"
proof -
  let ?q = "of_nat n / of_nat d :: rat"
  have fl: "\<lfloor>?q\<rfloor> = int (n div d)" by (rule floor_divide_of_nat_eq)
  have lo: "of_nat (n div d) \<le> ?q" and hi: "?q \<le> of_nat (n div d) + 1"
    using floor_correct [of ?q, unfolded fl] by simp_all
  have "\<bar>of_nat c - ?q\<bar> \<le> 1"
    using lo hi assms(4) by (auto simp: abs_le_iff)
  also have "1 \<le> ?q / of_nat k"
  proof -
    have "(of_nat (d * k) :: rat) \<le> of_nat n" using assms(2) by (simp only: of_nat_le_iff)
    with assms(1,3) show ?thesis by (simp add: field_simps)
  qed
  finally show ?thesis .
qed

lemma dec_div_rounds:
  assumes "dec_pos a" and "dec_pos b" and p: "0 < prec ctx"
  obtains x where "rounds_to ctx x (dec_div ctx a b)"
    and "\<bar>x - dval a / dval b\<bar> \<le> dval a / dval b / 10 ^ prec ctx"
proof -
  obtain m e n f where ab: "a = DFin m e" "b = DFin n f" and mn: "0 < m" "0 < n"
    using assms by (cases a; cases b) auto
  define u v where "u = nat m" and "v = nat n"
  have uv: "0 < u" "0 < v" "nat \<bar>m\<bar> = u" "nat \<bar>n\<bar> = v" "m = int u" "n = int v"
    using mn by (simp_all add: u_def v_def)
  define shift where "shift = int (ndigits v) - int (ndigits u) + int (prec ctx) + 1"
  define num where "num = scaled u shift"
  define den where "den = scaled v (- shift)"
  define c where "c = num div den"
  define x where "x = e - f - shift"
  obtain c' x' where digits: "div_digits num den x (e - f) = (c', x')"
    by (metis surj_pair)
  then have cx: "(if num mod den \<noteq> 0
      then (if c mod 5 = 0 then c + 1 else c, x) else toward_ideal c x (e - f)) = (c', x')"
    by (simp only: div_digits_def c_def)
  have den0: "0 < den" using uv(2) by (simp add: den_def scaled_def)
  have large: "den * 10 ^ prec ctx \<le> num"
    using scaled_quotient_large [OF uv(1,2) shift_def] by (simp only: num_def den_def)
  have exact: "of_nat num / of_nat den * 10 powi x = dval a / dval b"
    using scaled_quotient_value [OF uv(2), of u shift e f]
    by (simp add: ab uv(5,6) num_def den_def x_def)
  have pow: "(0::rat) < 10 powi x" by simp
  have close: "\<bar>of_nat c' * 10 powi x' - dval a / dval b\<bar> \<le> dval a / dval b / 10 ^ prec ctx"
  proof (cases "num mod den = 0")
    case True
    then have "num = c * den" unfolding c_def using div_mult_mod_eq [of num den] by simp
    then have "of_nat c = (of_nat num / of_nat den :: rat)"
      using den0 by simp
    moreover have "of_nat c' * (10::rat) powi x' = of_nat c * 10 powi x"
      using toward_ideal_value cx True by simp
    ultimately have "of_nat c' * 10 powi x' = dval a / dval b" using exact by simp
    then show ?thesis using assms by (simp add: less_imp_le)
  next
    case False
    then have c': "c' = (if num div den mod 5 = 0 then num div den + 1 else num div den)" "x' = x"
      using cx by (auto simp: c_def split: if_splits)
    have "\<bar>of_nat c' - of_nat num / of_nat den\<bar> \<le> (of_nat num / of_nat den :: rat) / of_nat (10 ^ prec ctx)"
      by (rule sticky_quotient [OF den0 large _ c'(1)]) simp
    then have "\<bar>of_nat c' - of_nat num / of_nat den\<bar> * 10 powi x
        \<le> (of_nat num / of_nat den :: rat) / of_nat (10 ^ prec ctx) * 10 powi x"
      using pow by (intro mult_right_mono) simp_all
    moreover have "\<bar>of_nat c' - of_nat num / of_nat den\<bar> * 10 powi x
        = \<bar>of_nat c' * 10 powi x - of_nat num / of_nat den * (10::rat) powi x\<bar>"
      using pow by (metis abs_mult abs_of_pos left_diff_distrib)
    moreover have "(of_nat num / of_nat den :: rat) / of_nat (10 ^ prec ctx) * 10 powi x
        = dval a / dval b / 10 ^ prec ctx"
      unfolding exact [symmetric] by simp
    ultimately show ?thesis using c'(2) exact by simp
  qed
  have "dval a / dval b / 10 ^ prec ctx \<le> dval a / dval b / 1"
    using assms by (intro divide_left_mono) (simp_all add: less_imp_le)
  have "0 < c'"
  proof (rule ccontr)
    assume "\<not> 0 < c'"
    then have "dval a / dval b \<le> dval a / dval b / 10 ^ prec ctx"
      using close assms by (simp add: abs_of_pos)
    moreover have "0 < dval a / dval b" using assms by simp
    moreover have "(1::rat) < 10 ^ prec ctx" using p by (simp add: one_less_power)
    ultimately show False using divide_strict_left_mono [of 1 "10 ^ prec ctx" "dval a / dval b"] by simp
  qed
  then have "rounds_to ctx (of_int (int c') * 10 powi x') (dec_fix ctx (int c') x')"
    using p by (intro dec_fix_rounds) simp_all
  moreover have "dec_div ctx a b = dec_fix ctx (int c') x'"
    using mn digits by (simp add: ab u_def [symmetric] v_def [symmetric] div_shift_def shift_def num_def den_def x_def)
  ultimately show ?thesis using that close by simp
qed

end
