(* ===== verification/Routing.thy ===== *)
theory Routing
  imports Decimal_Policy
begin

text \<open>
  The router of \<open>app/routing.py\<close>: currencies, edges, hops, quotes and snapshots, the collapse of
  parallel edges to the best liquidity provider, Bellman-Ford-style relaxation with a
  deterministic tie-break, the rejection of invalid rates and of profitable cycles, and the
  quote table.  Python dictionaries are association lists in insertion order, read with
  \<open>map_of\<close> and written with \<open>AList.update\<close>, which keeps the place of a key it overwrites and
  appends a new one, as \<open>dict\<close> does.  Strings are lists of UTF-8 bytes, whose order is the
  order of the code points.
\<close>

section \<open>Data\<close>

datatype currency = USD | USDC | EUR | PHP | AED

definition Currency_members :: "currency list" where
  "Currency_members = [USD, USDC, EUR, PHP, AED]"

fun currency_value :: "currency \<Rightarrow> string" where
  "currency_value USD = ''USD''"
| "currency_value USDC = ''USDC''"
| "currency_value EUR = ''EUR''"
| "currency_value PHP = ''PHP''"
| "currency_value AED = ''AED''"

record edge =
  e_source :: currency
  e_target :: currency
  e_lp :: string
  e_rate :: decimal

record route_hop =
  h_source :: currency
  h_target :: currency
  h_lp :: string
  h_rate :: decimal

record route_quote =
  q_version :: int
  q_target :: currency
  q_rate :: decimal
  q_hops :: "route_hop list"

record rate_snapshot =
  s_version :: int
  s_routes :: "(currency \<times> route_quote) list"

datatype rate_error = InvalidRateGraph | RouteNotFound currency

type_synonym candidate = "decimal \<times> route_hop list"
type_synonym best_routes = "(currency \<times> candidate) list"

lemma currency_UNIV: "(UNIV :: currency set) = set Currency_members"
proof -
  have "c \<in> set Currency_members" for c :: currency
    by (cases c) (simp_all add: Currency_members_def)
  then show ?thesis by blast
qed

section \<open>Comparing candidates\<close>

definition hop_key :: "route_hop list \<Rightarrow> (string \<times> string \<times> string) list" where
  "hop_key hops =
     map (\<lambda>hop. (currency_value (h_source hop), currency_value (h_target hop), h_lp hop)) hops"

definition is_better :: "candidate \<Rightarrow> candidate option \<Rightarrow> bool" where
  "is_better candidate current =
     (case current of
        None \<Rightarrow> True
      | Some c \<Rightarrow>
          if dec_less (fst c) (fst candidate) then True
          else dec_eq (fst candidate) (fst c) \<and> hop_key (snd candidate) < hop_key (snd c))"

text \<open>Dataclass, tuple and dictionary equality: componentwise, decimals by value.\<close>

definition hop_eq :: "route_hop \<Rightarrow> route_hop \<Rightarrow> bool" where
  "hop_eq a b \<longleftrightarrow> h_source a = h_source b \<and> h_target a = h_target b \<and> h_lp a = h_lp b \<and>
     dec_eq (h_rate a) (h_rate b)"

definition candidate_eq :: "candidate \<Rightarrow> candidate \<Rightarrow> bool" where
  "candidate_eq a b \<longleftrightarrow> dec_eq (fst a) (fst b) \<and> list_all2 hop_eq (snd a) (snd b)"

definition best_eq :: "best_routes \<Rightarrow> best_routes \<Rightarrow> bool" where
  "best_eq a b \<longleftrightarrow> length a = length b \<and>
     list_all (\<lambda>(target, c).
       case map_of b target of None \<Rightarrow> False | Some d \<Rightarrow> candidate_eq c d) a"

section \<open>Collapsing parallel edges\<close>

definition edge_sort_key :: "edge \<Rightarrow> string \<times> string \<times> string" where
  "edge_sort_key e = (currency_value (e_source e), currency_value (e_target e), e_lp e)"

definition rate_rejected :: "decimal \<Rightarrow> bool" where
  "rate_rejected r \<longleftrightarrow>
     \<not> is_finite r \<or> dec_less r (dec_of_int 0) \<or> dec_eq r (dec_of_int 0)"

type_synonym selected_edges = "((currency \<times> currency) \<times> edge) list"

definition select_edge :: "selected_edges \<Rightarrow> edge \<Rightarrow> selected_edges" where
  "select_edge selected e =
     (case map_of selected (e_source e, e_target e) of
        None \<Rightarrow> AList.update (e_source e, e_target e) e selected
      | Some current \<Rightarrow>
          if dec_less (e_rate current) (e_rate e)
          then AList.update (e_source e, e_target e) e selected
          else selected)"

fun collapse_loop :: "selected_edges \<Rightarrow> edge list \<Rightarrow> rate_error + selected_edges" where
  "collapse_loop selected [] = Inr selected"
| "collapse_loop selected (e # es) =
     (if rate_rejected (e_rate e) then Inl InvalidRateGraph
      else collapse_loop (select_edge selected e) es)"

definition collapsed_edges :: "edge list \<Rightarrow> rate_error + edge list" where
  "collapsed_edges edges =
     (case collapse_loop [] (sort_key edge_sort_key edges) of
        Inl e \<Rightarrow> Inl e
      | Inr selected \<Rightarrow> Inr (map snd selected))"

section \<open>Relaxation\<close>

definition edge_hop :: "edge \<Rightarrow> route_hop" where
  "edge_hop e = \<lparr>h_source = e_source e, h_target = e_target e, h_lp = e_lp e, h_rate = e_rate e\<rparr>"

definition offer :: "best_routes \<Rightarrow> currency \<Rightarrow> candidate \<Rightarrow> best_routes" where
  "offer next_best target candidate =
     (if is_better candidate (map_of next_best target)
      then AList.update target candidate next_best else next_best)"

text \<open>The loop body reads \<open>best\<close>, the table of the previous round, and writes \<open>next_best\<close>.\<close>

definition relax_edge ::
  "dec_context \<Rightarrow> best_routes \<Rightarrow> best_routes \<Rightarrow> edge \<Rightarrow> best_routes" where
  "relax_edge ctx best next_best e =
     (case map_of best (e_source e) of
        None \<Rightarrow> next_best
      | Some src \<Rightarrow>
          offer next_best (e_target e) (dec_mul ctx (fst src) (e_rate e), snd src @ [edge_hop e]))"

fun relax_loop ::
  "dec_context \<Rightarrow> best_routes \<Rightarrow> best_routes \<Rightarrow> edge list \<Rightarrow> best_routes" where
  "relax_loop ctx best next_best [] = next_best"
| "relax_loop ctx best next_best (e # es) =
     relax_loop ctx best (relax_edge ctx best next_best e) es"

definition relax :: "dec_context \<Rightarrow> best_routes \<Rightarrow> edge list \<Rightarrow> best_routes" where
  "relax ctx best edges = relax_loop ctx best best edges"

fun relax_rounds :: "dec_context \<Rightarrow> edge list \<Rightarrow> nat \<Rightarrow> best_routes \<Rightarrow> best_routes" where
  "relax_rounds ctx edges 0 best = best"
| "relax_rounds ctx edges (Suc n) best =
     (if best_eq (relax ctx best edges) best then best
      else relax_rounds ctx edges n (relax ctx best edges))"

section \<open>Quotes\<close>

definition initial_best :: "currency \<Rightarrow> best_routes" where
  "initial_best source = [(source, (dec_of_int 1, []))]"

definition improves :: "best_routes \<Rightarrow> currency \<times> candidate \<Rightarrow> bool" where
  "improves best = (\<lambda>(target, candidate).
     case map_of best target of
       None \<Rightarrow> True
     | Some current \<Rightarrow> dec_less (fst current) (fst candidate))"

definition route_table :: "int \<Rightarrow> currency \<Rightarrow> best_routes \<Rightarrow> (currency \<times> route_quote) list" where
  "route_table version source best =
     map (\<lambda>(target, rate, hops).
           (target, \<lparr>q_version = version, q_target = target, q_rate = rate, q_hops = hops\<rparr>))
       (filter (\<lambda>(target, _). target \<noteq> source) best)"

text \<open>The extra round and the table, from the candidates the rounds end with.\<close>

definition finish_routes ::
  "dec_context \<Rightarrow> edge list \<Rightarrow> int \<Rightarrow> currency \<Rightarrow> best_routes \<Rightarrow>
     rate_error + (currency \<times> route_quote) list" where
  "finish_routes ctx collapsed version source best =
     (if list_ex (improves best) (relax ctx best collapsed) then Inl InvalidRateGraph
      else Inr (route_table version source best))"

definition compute_routes_in ::
  "edge list \<Rightarrow> int \<Rightarrow> currency \<Rightarrow> dec_context \<Rightarrow> rate_error + (currency \<times> route_quote) list" where
  "compute_routes_in edges version source ctx =
     (case collapsed_edges edges of
        Inl e \<Rightarrow> Inl e
      | Inr collapsed \<Rightarrow>
          finish_routes ctx collapsed version source
            (relax_rounds ctx collapsed (length Currency_members - 1) (initial_best source)))"

definition compute_routes ::
  "edge list \<Rightarrow> int \<Rightarrow> currency \<Rightarrow> rate_error + (currency \<times> route_quote) list" where
  "compute_routes edges version source =
     isolated_decimal (compute_routes_in edges version source)"

end
