(* ===== verification/Route_Optimality.thy ===== *)
theory Route_Optimality
  imports Routing Decimal_Rounding
begin

text \<open>
  What the router computes.  A walk is a chain of hops; its rate is the product the code forms,
  rounded after every factor.  Relaxation keeps every candidate the rate of a walk over the
  collapsed edges and dominates every walk one hop longer; when the final round finds no
  improvement, the table therefore dominates every walk of any length over the original edges.
  When the final round does find one, a reachable cycle multiplies the rate of a walk by more
  than one.
\<close>

named_theorems route_intros \<open>walks and their rates\<close>

section \<open>Walks\<close>

fun walk :: "currency \<Rightarrow> route_hop list \<Rightarrow> currency \<Rightarrow> bool" where
  "walk s [] t = (s = t)"
| "walk s (h # hs) t = (h_source h = s \<and> walk (h_target h) hs t)"

definition walk_from :: "dec_context \<Rightarrow> decimal \<Rightarrow> route_hop list \<Rightarrow> decimal" where
  "walk_from ctx a hs = foldl (\<lambda>a h. dec_mul ctx a (h_rate h)) a hs"

definition walk_rate :: "dec_context \<Rightarrow> route_hop list \<Rightarrow> decimal" where
  "walk_rate ctx hs = walk_from ctx (dec_of_int 1) hs"

definition hops_of :: "edge list \<Rightarrow> route_hop set" where
  "hops_of edges = edge_hop ` set edges"

definition positive_hops :: "route_hop list \<Rightarrow> bool" where
  "positive_hops hs \<longleftrightarrow> (\<forall>h \<in> set hs. dec_pos (h_rate h))"

lemma walk_append [simp]: "walk s (hs @ gs) t \<longleftrightarrow> (\<exists>u. walk s hs u \<and> walk u gs t)"
  by (induction hs arbitrary: s) auto

lemma walk_end_unique: "walk s hs t \<Longrightarrow> walk s hs u \<Longrightarrow> t = u"
  by (induction hs arbitrary: s) auto

lemma walk_from_simps [simp]:
  "walk_from ctx a [] = a"
  "walk_from ctx a (h # hs) = walk_from ctx (dec_mul ctx a (h_rate h)) hs"
  "walk_from ctx a (hs @ gs) = walk_from ctx (walk_from ctx a hs) gs"
  by (simp_all add: walk_from_def)

lemma walk_rate_append: "walk_rate ctx (hs @ gs) = walk_from ctx (walk_rate ctx hs) gs"
  by (simp add: walk_rate_def)

lemma walk_rate_snoc: "walk_rate ctx (hs @ [h]) = dec_mul ctx (walk_rate ctx hs) (h_rate h)"
  by (simp add: walk_rate_def)

lemma walk_rate_Nil [simp]: "walk_rate ctx [] = dec_of_int 1"
  by (simp add: walk_rate_def)

lemma dec_pos_one [simp]: "dec_pos (dec_of_int 1)"
  by (simp add: dec_of_int_def)

lemma dval_one [simp]: "dval (dec_of_int 1) = 1"
  by (simp add: dec_of_int_def)

lemma dec_mul_commute: "dec_mul ctx a b = dec_mul ctx b a"
  by (cases a; cases b) (simp_all add: mult.commute add.commute)

lemma positive_hops_simps [simp]:
  "positive_hops []"
  "positive_hops (h # hs) \<longleftrightarrow> dec_pos (h_rate h) \<and> positive_hops hs"
  "positive_hops (hs @ gs) \<longleftrightarrow> positive_hops hs \<and> positive_hops gs"
  by (auto simp: positive_hops_def)

context monotone_context
begin

lemma walk_from_pos: "dec_pos a \<Longrightarrow> positive_hops hs \<Longrightarrow> dec_pos (walk_from ctx a hs)"
  by (induction hs arbitrary: a) (auto intro: mul_pos)

lemma walk_rate_pos: "positive_hops hs \<Longrightarrow> dec_pos (walk_rate ctx hs)"
  by (simp add: walk_rate_def walk_from_pos)

lemma mul_mono2:
  assumes "dec_pos a" "dec_pos b" "dec_pos r" "dec_pos q" "dval a \<le> dval b" "dval r \<le> dval q"
  shows "dval (dec_mul ctx a r) \<le> dval (dec_mul ctx b q)"
proof -
  have "dval (dec_mul ctx a r) \<le> dval (dec_mul ctx b r)"
    using assms by (intro mul_mono)
  also have "\<dots> = dval (dec_mul ctx r b)" by (simp add: dec_mul_commute)
  also have "\<dots> \<le> dval (dec_mul ctx q b)"
    using assms by (intro mul_mono)
  also have "\<dots> = dval (dec_mul ctx b q)" by (simp add: dec_mul_commute)
  finally show ?thesis .
qed

lemma walk_from_mono:
  "dec_pos a \<Longrightarrow> dec_pos b \<Longrightarrow> dval a \<le> dval b \<Longrightarrow> positive_hops hs \<Longrightarrow>
     dval (walk_from ctx a hs) \<le> dval (walk_from ctx b hs)"
  by (induction hs arbitrary: a b) (auto intro: mul_pos mul_mono)

end

section \<open>Collapsing\<close>

lemma rate_rejected_iff [simp]: "rate_rejected r \<longleftrightarrow> \<not> dec_pos r"
  by (cases r) (auto simp: rate_rejected_def dec_of_int_def zero_less_mult_iff
      mult_less_0_iff not_less)

text \<open>The selection covers an edge when it holds one with the same ends and at least its rate.\<close>

definition covers :: "selected_edges \<Rightarrow> edge \<Rightarrow> bool" where
  "covers selected e \<longleftrightarrow>
     (\<exists>e'. map_of selected (e_source e, e_target e) = Some e' \<and> dval (e_rate e) \<le> dval (e_rate e'))"

definition keyed :: "selected_edges \<Rightarrow> bool" where
  "keyed selected \<longleftrightarrow> distinct (map fst selected) \<and>
     (\<forall>(k, e) \<in> set selected. k = (e_source e, e_target e) \<and> dec_pos (e_rate e))"

lemma keyedD:
  "keyed selected \<Longrightarrow> map_of selected k = Some e \<Longrightarrow> k = (e_source e, e_target e) \<and> dec_pos (e_rate e)"
  by (auto simp: keyed_def dest: map_of_SomeD)

lemma keyed_update:
  assumes "keyed selected" and "dec_pos (e_rate e)"
  shows "keyed (AList.update (e_source e, e_target e) e selected)"
proof -
  have "distinct (map fst (AList.update (e_source e, e_target e) e selected))"
    using assms(1) by (simp add: keyed_def distinct_update)
  moreover have "k = (e_source a, e_target a) \<and> dec_pos (e_rate a)"
    if "(k, a) \<in> set (AList.update (e_source e, e_target e) e selected)" for k a
  proof -
    have "map_of (AList.update (e_source e, e_target e) e selected) k = Some a"
      using calculation that by (simp only: dict_get_iff)
    then have "k = (e_source e, e_target e) \<and> a = e \<or> map_of selected k = Some a"
      by (auto split: if_splits)
    with assms show ?thesis by (auto dest: keyedD)
  qed
  ultimately show ?thesis by (auto simp: keyed_def)
qed

lemma collapse_loop_Inl:
  "collapse_loop selected es = Inl x \<longleftrightarrow> x = InvalidRateGraph \<and> (\<exists>e \<in> set es. \<not> dec_pos (e_rate e))"
  by (induction es arbitrary: selected) auto

lemma covers_update:
  assumes "covers selected a" and "keyed selected" and "dec_pos (e_rate e)" and "dec_pos (e_rate a)"
    and "\<And>c. map_of selected (e_source e, e_target e) = Some c \<Longrightarrow> dval (e_rate c) \<le> dval (e_rate e)"
  shows "covers (AList.update (e_source e, e_target e) e selected) a"
  using assms by (fastforce simp: covers_def)

lemma collapse_loop_Inr:
  assumes "collapse_loop selected es = Inr result" and "keyed selected"
  shows "keyed result \<and> (\<forall>e. dec_pos (e_rate e) \<longrightarrow> (covers selected e \<or> e \<in> set es) \<longrightarrow> covers result e) \<and>
         snd ` set result \<subseteq> snd ` set selected \<union> set es"
  using assms
proof (induction es arbitrary: selected)
  case Nil
  then show ?case by auto
next
  case (Cons e es)
  let ?k = "(e_source e, e_target e)"
  have pos: "dec_pos (e_rate e)" using Cons.prems(1) by (auto split: if_splits)
  let ?upd = "case map_of selected ?k of None \<Rightarrow> True | Some c \<Rightarrow> dec_less (e_rate c) (e_rate e)"
  show ?case
  proof (cases ?upd)
    case True
    let ?s = "AList.update ?k e selected"
    have step: "collapse_loop ?s es = Inr result"
      using Cons.prems(1) True pos by (auto simp: select_edge_def split: option.splits)
    have le: "dval (e_rate c) \<le> dval (e_rate e)" if "map_of selected ?k = Some c" for c
      using True that pos keyedD [OF Cons.prems(2) that] by (simp add: dec_less_iff)
    have ks: "keyed ?s" using Cons.prems(2) pos by (rule keyed_update)
    have "covers ?s e" by (simp add: covers_def)
    moreover have "covers ?s a" if "covers selected a" "dec_pos (e_rate a)" for a
      using covers_update [OF that(1) Cons.prems(2) pos that(2)] le by blast
    moreover have "snd ` set ?s \<subseteq> insert e (snd ` set selected)"
      by (rule dict_put_values)
    moreover have "\<And>A B C E. A \<subseteq> B \<union> E \<Longrightarrow> B \<subseteq> insert e C \<Longrightarrow> A \<subseteq> C \<union> insert e E"
      by blast
    ultimately show ?thesis using Cons.IH [OF step ks] by (simp only: list.set) blast
  next
    case False
    then obtain c where c: "map_of selected ?k = Some c" and "\<not> dec_less (e_rate c) (e_rate e)"
      by (auto split: option.splits)
    with Cons.prems(2) pos have "dval (e_rate e) \<le> dval (e_rate c)"
      using keyedD [OF Cons.prems(2) c] by (simp add: dec_less_iff)
    with c have "covers selected e" by (auto simp: covers_def)
    moreover have "collapse_loop selected es = Inr result"
      using Cons.prems(1) False c pos by (simp add: select_edge_def)
    ultimately show ?thesis using Cons.IH [OF _ Cons.prems(2)] by auto
  qed
qed

lemma collapsed_edges_Inl:
  "collapsed_edges edges = Inl x \<longleftrightarrow>
     x = InvalidRateGraph \<and> (\<exists>e \<in> set edges. \<not> dec_pos (e_rate e))"
  using collapse_loop_Inl [of "[]" "sort_key edge_sort_key edges"]
  by (cases "collapse_loop [] (sort_key edge_sort_key edges)") (auto simp: collapsed_edges_def)

lemma collapsed_edges_Inr:
  assumes "collapsed_edges edges = Inr cs"
  shows "c \<in> set cs \<Longrightarrow> dec_pos (e_rate c) \<and> c \<in> set edges"
    and "e \<in> set edges \<Longrightarrow>
      \<exists>c \<in> set cs. e_source c = e_source e \<and> e_target c = e_target e \<and> dval (e_rate e) \<le> dval (e_rate c)"
proof -
  obtain sel where sel: "collapse_loop [] (sort_key edge_sort_key edges) = Inr sel" "cs = map snd sel"
    using assms by (auto simp: collapsed_edges_def split: sum.splits)
  have r: "keyed sel" "snd ` set sel \<subseteq> set edges"
    "\<And>e. dec_pos (e_rate e) \<Longrightarrow> e \<in> set edges \<Longrightarrow> covers sel e"
    using collapse_loop_Inr [OF sel(1)] by (auto simp: keyed_def)
  have pos: "\<And>e. e \<in> set edges \<Longrightarrow> dec_pos (e_rate e)"
    using sel(1) collapse_loop_Inl [of "[]" "sort_key edge_sort_key edges" InvalidRateGraph] by auto
  show "c \<in> set cs \<Longrightarrow> dec_pos (e_rate c) \<and> c \<in> set edges"
    using r(2) pos sel(2) by auto
  assume e: "e \<in> set edges"
  then obtain c where c: "map_of sel (e_source e, e_target e) = Some c" "dval (e_rate e) \<le> dval (e_rate c)"
    using r(3) pos by (auto simp: covers_def)
  moreover have "(e_source e, e_target e) = (e_source c, e_target c)"
    using keyedD [OF r(1) c(1)] by simp
  moreover have "c \<in> set cs"
    using sel(2) map_of_SomeD [OF c(1)] by force
  ultimately show "\<exists>c \<in> set cs. e_source c = e_source e \<and> e_target c = e_target e \<and>
      dval (e_rate e) \<le> dval (e_rate c)" by auto
qed

section \<open>Relaxation\<close>

definition sound_best :: "dec_context \<Rightarrow> currency \<Rightarrow> route_hop set \<Rightarrow> best_routes \<Rightarrow> bool" where
  "sound_best ctx src H best \<longleftrightarrow> distinct (map fst best) \<and>
     (\<forall>(t, v, hs) \<in> set best.
        walk src hs t \<and> set hs \<subseteq> H \<and> positive_hops hs \<and> v = walk_rate ctx hs)"

definition at_least :: "best_routes \<Rightarrow> currency \<Rightarrow> rat \<Rightarrow> bool" where
  "at_least best t x \<longleftrightarrow> (\<exists>v hs. map_of best t = Some (v, hs) \<and> x \<le> dval v)"

text \<open>After \<open>n\<close> rounds every walk of at most \<open>n\<close> hops is dominated.\<close>

definition dominates :: "dec_context \<Rightarrow> edge list \<Rightarrow> currency \<Rightarrow> (route_hop list \<Rightarrow> bool) \<Rightarrow> best_routes \<Rightarrow> bool" where
  "dominates ctx edges src P best \<longleftrightarrow>
     (\<forall>hs t. walk src hs t \<longrightarrow> set hs \<subseteq> hops_of edges \<longrightarrow> P hs \<longrightarrow> at_least best t (dval (walk_rate ctx hs)))"

lemma sound_bestD:
  "sound_best ctx src H best \<Longrightarrow> map_of best t = Some (v, hs) \<Longrightarrow>
     walk src hs t \<and> set hs \<subseteq> H \<and> positive_hops hs \<and> v = walk_rate ctx hs"
  by (auto simp: sound_best_def dest!: map_of_SomeD)

lemma sound_best_put:
  assumes "sound_best ctx src H best" and "walk src hs t" and "set hs \<subseteq> H" and "positive_hops hs"
  shows "sound_best ctx src H (AList.update t (walk_rate ctx hs, hs) best)"
proof -
  have d: "distinct (map fst (AList.update t (walk_rate ctx hs, hs) best))"
    using assms(1) by (simp add: sound_best_def dict_put_distinct)
  have "walk src gs u \<and> set gs \<subseteq> H \<and> positive_hops gs \<and> v = walk_rate ctx gs"
    if "(u, v, gs) \<in> set (AList.update t (walk_rate ctx hs, hs) best)" for u v gs
  proof -
    have "map_of (AList.update t (walk_rate ctx hs, hs) best) u = Some (v, gs)"
      using d that by (simp only: dict_get_iff)
    then show ?thesis
      using assms sound_bestD [OF assms(1), of u v gs] by (auto split: if_splits)
  qed
  with d show ?thesis unfolding sound_best_def by blast
qed

lemma sound_initial: "sound_best ctx src H (initial_best src)"
  by (simp add: sound_best_def initial_best_def)

context monotone_context
begin

lemma sound_best_pos:
  "sound_best ctx src H best \<Longrightarrow> map_of best t = Some (v, hs) \<Longrightarrow> dec_pos v"
  by (auto dest!: sound_bestD intro: walk_rate_pos)

lemma is_better_at_least:
  assumes "sound_best ctx src H best" and "dec_pos v"
    and "\<not> is_better (v, hs) (map_of best t)"
  shows "at_least best t (dval v)"
  using assms sound_best_pos [OF assms(1), of t]
  by (auto simp: is_better_def at_least_def dec_less_iff split: option.splits if_splits)

lemma is_better_replaces:
  assumes "sound_best ctx src H best" and "dec_pos v"
    and "is_better (v, hs) (map_of best t)" and "map_of best t = Some (w, gs)"
  shows "dval w \<le> dval v"
  using assms sound_best_pos [OF assms(1,4)]
  by (auto simp: is_better_def dec_less_iff dec_eq_iff split: if_splits)

lemma relax_candidate:
  assumes "sound_best ctx src H best" and "map_of best (e_source e) = Some (v, hs)"
    and "dec_pos (e_rate e)" and "edge_hop e \<in> H"
  shows "walk src (hs @ [edge_hop e]) (e_target e) \<and> set (hs @ [edge_hop e]) \<subseteq> H \<and>
    positive_hops (hs @ [edge_hop e]) \<and>
    dec_mul ctx v (e_rate e) = walk_rate ctx (hs @ [edge_hop e]) \<and> dec_pos (dec_mul ctx v (e_rate e))"
  using sound_bestD [OF assms(1,2)] assms(3,4) sound_best_pos [OF assms(1,2)]
  by (auto simp: edge_hop_def walk_rate_snoc intro: mul_pos)

text \<open>One pass over the edges: soundness is kept, no entry gets worse, every edge is applied.\<close>

lemma relax_loop_props:
  assumes "sound_best ctx src H best" and "sound_best ctx src H nxt"
    and "\<forall>e \<in> set es. dec_pos (e_rate e) \<and> edge_hop e \<in> H"
  shows "sound_best ctx src H (relax_loop ctx best nxt es) \<and>
    (\<forall>t x. at_least nxt t x \<longrightarrow> at_least (relax_loop ctx best nxt es) t x) \<and>
    (\<forall>e v hs. e \<in> set es \<longrightarrow> map_of best (e_source e) = Some (v, hs) \<longrightarrow>
       at_least (relax_loop ctx best nxt es) (e_target e) (dval (dec_mul ctx v (e_rate e))))"
  using assms(2,3)
proof (induction es arbitrary: nxt)
  case Nil
  then show ?case by simp
next
  case (Cons e es)
  show ?case
  proof (cases "map_of best (e_source e)")
    case None
    then show ?thesis using Cons.IH [of nxt] Cons.prems by (auto simp: relax_edge_def)
  next
    case (Some c)
    obtain v hs where c: "c = (v, hs)" by (cases c)
    define w where "w = dec_mul ctx v (e_rate e)"
    define gs where "gs = hs @ [edge_hop e]"
    have e: "dec_pos (e_rate e)" "edge_hop e \<in> H" using Cons.prems(2) by simp_all
    have cand: "walk src gs (e_target e)" "set gs \<subseteq> H" "positive_hops gs" "w = walk_rate ctx gs"
      and wpos: "dec_pos w"
      using relax_candidate [OF assms(1) Some [unfolded c] e] unfolding w_def gs_def by blast+
    let ?nxt = "if is_better (w, gs) (map_of nxt (e_target e))
                then AList.update (e_target e) (w, gs) nxt else nxt"
    have loop: "relax_loop ctx best nxt (e # es) = relax_loop ctx best ?nxt es"
      using Some c by (simp add: w_def gs_def relax_edge_def offer_def)
    have sb: "sound_best ctx src H ?nxt"
      using sound_best_put [OF Cons.prems(1) cand(1-3)] Cons.prems(1) cand(4) by simp
    have keep: "at_least ?nxt t x" if "at_least nxt t x" for t x
      using that is_better_replaces [OF Cons.prems(1) wpos, of gs t]
      by (fastforce simp: at_least_def)
    have edge: "at_least ?nxt (e_target e) (dval w)"
      using is_better_at_least [OF Cons.prems(1) wpos, of gs "e_target e"]
      by (auto simp: at_least_def)
    show ?thesis unfolding loop
      using Cons.IH [OF sb] Cons.prems(2) keep edge Some c by (auto simp: w_def)
  qed
qed

lemma relax_props:
  assumes "sound_best ctx src H best" and "\<forall>e \<in> set es. dec_pos (e_rate e) \<and> edge_hop e \<in> H"
  shows relax_sound: "sound_best ctx src H (relax ctx best es)"
    and relax_keeps: "at_least best t x \<Longrightarrow> at_least (relax ctx best es) t x"
    and relax_edge: "e \<in> set es \<Longrightarrow> map_of best (e_source e) = Some (v, hs) \<Longrightarrow>
      at_least (relax ctx best es) (e_target e) (dval (dec_mul ctx v (e_rate e)))"
  using relax_loop_props [OF assms(1) assms(1) assms(2)] unfolding relax_def by blast+

lemma relax_rounds_sound:
  assumes "sound_best ctx src H best" and "\<forall>e \<in> set es. dec_pos (e_rate e) \<and> edge_hop e \<in> H"
  shows "sound_best ctx src H (relax_rounds ctx es n best)"
  using assms(1)
proof (induction n arbitrary: best)
  case 0
  then show ?case by simp
next
  case (Suc n)
  then show ?case using relax_sound [OF _ assms(2)] by simp
qed

lemma hop_dominated:
  assumes cs: "collapsed_edges edges = Inr cs" and sb: "sound_best ctx src (hops_of cs) best"
    and al: "at_least best (h_source h) (dval (walk_rate ctx hs))"
    and h: "h \<in> hops_of edges" and hs: "positive_hops hs"
  shows "at_least (relax ctx best cs) (h_target h) (dval (walk_rate ctx (hs @ [h])))"
proof -
  obtain e where e: "e \<in> set edges" "h = edge_hop e" using h by (auto simp: hops_of_def)
  obtain c where c: "c \<in> set cs" "e_source c = e_source e" "e_target c = e_target e"
    "dval (e_rate e) \<le> dval (e_rate c)" using collapsed_edges_Inr(2) [OF cs e(1)] by blast
  have posc: "dec_pos (e_rate c)" using collapsed_edges_Inr(1) [OF cs c(1)] by simp
  have pose: "dec_pos (e_rate e)"
    using cs e(1) collapsed_edges_Inl [of edges InvalidRateGraph] by auto
  obtain v gs where v: "map_of best (e_source c) = Some (v, gs)" "dval (walk_rate ctx hs) \<le> dval v"
    using al e(2) c(2) by (auto simp: at_least_def edge_hop_def)
  have "at_least (relax ctx best cs) (e_target c) (dval (dec_mul ctx v (e_rate c)))"
    using relax_edge [OF sb _ c(1) v(1)] collapsed_edges_Inr(1) [OF cs] by (auto simp: hops_of_def)
  moreover have "dval (dec_mul ctx (walk_rate ctx hs) (e_rate e)) \<le> dval (dec_mul ctx v (e_rate c))"
    using mul_mono2 [OF walk_rate_pos [OF hs] sound_best_pos [OF sb v(1)] pose posc v(2) c(4)] .
  ultimately show ?thesis
    using e(2) c(3) by (fastforce simp: at_least_def walk_rate_snoc edge_hop_def)
qed

lemma edges_positive:
  "collapsed_edges edges = Inr cs \<Longrightarrow> set hs \<subseteq> hops_of edges \<Longrightarrow> positive_hops hs"
  using collapsed_edges_Inl [of edges InvalidRateGraph]
  by (fastforce simp: positive_hops_def hops_of_def edge_hop_def)

lemma collapsed_ok:
  "collapsed_edges edges = Inr cs \<Longrightarrow> \<forall>e \<in> set cs. dec_pos (e_rate e) \<and> edge_hop e \<in> hops_of cs"
  using collapsed_edges_Inr(1) by (auto simp: hops_of_def)

lemma dominates_initial: "dominates ctx edges src (\<lambda>hs. length hs \<le> 0) (initial_best src)"
  by (auto simp: dominates_def at_least_def initial_best_def)

lemma dominates_relax:
  assumes cs: "collapsed_edges edges = Inr cs" and sb: "sound_best ctx src (hops_of cs) best"
    and dom: "dominates ctx edges src (\<lambda>hs. length hs \<le> n) best"
  shows "dominates ctx edges src (\<lambda>hs. length hs \<le> Suc n) (relax ctx best cs)"
  unfolding dominates_def
proof (intro allI impI)
  fix hs t assume w: "walk src hs t" "set hs \<subseteq> hops_of edges" "length hs \<le> Suc n"
  show "at_least (relax ctx best cs) t (dval (walk_rate ctx hs))"
  proof (cases hs rule: rev_cases)
    case Nil
    then have "length hs \<le> n" by simp
    with dom w(1,2) have "at_least best t (dval (walk_rate ctx hs))"
      unfolding dominates_def by blast
    then show ?thesis by (rule relax_keeps [OF sb collapsed_ok [OF cs]])
  next
    case (snoc gs h)
    with w dom have "at_least best (h_source h) (dval (walk_rate ctx gs))"
      by (auto simp: dominates_def)
    then have "at_least (relax ctx best cs) (h_target h) (dval (walk_rate ctx (gs @ [h])))"
      using hop_dominated [OF cs sb] w snoc edges_positive [OF cs, of gs] by auto
    with w snoc show ?thesis by auto
  qed
qed

text \<open>Once a round improves nothing, every walk is dominated, whatever its length.\<close>

lemma dominates_all:
  assumes cs: "collapsed_edges edges = Inr cs" and sb: "sound_best ctx src (hops_of cs) best"
    and one: "at_least best src 1"
    and still: "\<And>t x. at_least (relax ctx best cs) t x \<Longrightarrow> at_least best t x"
  shows "dominates ctx edges src (\<lambda>_. True) best"
  unfolding dominates_def
proof (intro allI impI)
  fix hs t assume "walk src hs t" "set hs \<subseteq> hops_of edges"
  then show "at_least best t (dval (walk_rate ctx hs))"
  proof (induction hs arbitrary: t rule: rev_induct)
    case Nil
    then show ?case using one by simp
  next
    case (snoc h hs)
    then have "at_least best (h_source h) (dval (walk_rate ctx hs))" by auto
    then have "at_least (relax ctx best cs) (h_target h) (dval (walk_rate ctx (hs @ [h])))"
      using hop_dominated [OF cs sb] snoc.prems edges_positive [OF cs, of hs] by auto
    then show ?case using still snoc.prems by auto
  qed
qed

lemma no_improvement:
  assumes sb: "sound_best ctx src H best" "sound_best ctx src H' extra"
    and no: "\<not> list_ex (improves best) extra" and "at_least extra t x"
  shows "at_least best t x"
proof -
  obtain v hs where v: "map_of extra t = Some (v, hs)" "x \<le> dval v"
    using assms(4) by (auto simp: at_least_def)
  from map_of_SomeD [OF v(1)] no have "\<not> improves best (t, v, hs)"
    by (auto simp: list_ex_iff)
  then obtain w gs where w: "map_of best t = Some (w, gs)" "\<not> dec_less w v"
    by (auto simp: improves_def split: option.splits)
  then have "dval v \<le> dval w"
    using sound_best_pos [OF sb(1) w(1)] sound_best_pos [OF sb(2) v(1)] by (simp add: dec_less_iff)
  with v w show ?thesis by (auto simp: at_least_def)
qed

lemma source_at_least:
  assumes "sound_best ctx src (hops_of cs) best" and "at_least best src 1"
    and "\<forall>e \<in> set cs. dec_pos (e_rate e) \<and> edge_hop e \<in> hops_of cs"
  shows "at_least (relax_rounds ctx cs n best) src 1"
  using assms
proof (induction n arbitrary: best)
  case 0
  then show ?case by simp
next
  case (Suc n)
  then show ?case using relax_sound [OF Suc.prems(1,3)] relax_keeps [OF Suc.prems(1,3)]
    by simp
qed

end

end
