(* ===== verification/Route_Quotes.thy ===== *)
theory Route_Quotes
  imports Route_Optimality "HOL-Library.Multiset"
begin

text \<open>
  The published quote table: every quote is a walk over the given edges with the rate the code
  multiplied out, at most four hops long; no walk over the edges yields more; a currency has a
  quote exactly when a walk reaches it; and a graph is rejected only for a rate that is not
  positive and finite or for a cycle that multiplies the rate of a walk from the source.
\<close>

section \<open>Length of the candidates\<close>

definition short_best :: "nat \<Rightarrow> best_routes \<Rightarrow> bool" where
  "short_best n best \<longleftrightarrow> (\<forall>c \<in> snd ` set best. length (snd c) \<le> n)"

lemma short_best_get: "short_best n best \<Longrightarrow> map_of best t = Some (v, hs) \<Longrightarrow> length hs \<le> n"
  by (force simp: short_best_def dest: map_of_SomeD)

lemma short_best_put:
  "short_best n best \<Longrightarrow> length hs \<le> n \<Longrightarrow> short_best n (AList.update t (v, hs) best)"
  using dict_put_values [of t "(v, hs)" best] by (fastforce simp: short_best_def)

lemma short_best_mono: "short_best m best \<Longrightarrow> m \<le> n \<Longrightarrow> short_best n best"
  by (auto simp: short_best_def)

lemma relax_loop_short:
  "short_best n best \<Longrightarrow> short_best (Suc n) nxt \<Longrightarrow> short_best (Suc n) (relax_loop ctx best nxt es)"
proof (induction es arbitrary: nxt)
  case Nil
  then show ?case by simp
next
  case (Cons e es)
  show ?case
  proof (cases "map_of best (e_source e)")
    case None
    then show ?thesis using Cons by (simp add: relax_edge_def)
  next
    case (Some c)
    obtain v hs where c: "c = (v, hs)" by (cases c)
    let ?cand = "(dec_mul ctx v (e_rate e), hs @ [edge_hop e])"
    have "length (hs @ [edge_hop e]) \<le> Suc n"
      using short_best_get [OF Cons.prems(1)] Some c by simp
    then have "short_best (Suc n) (AList.update (e_target e) ?cand nxt)"
      by (rule short_best_put [OF Cons.prems(2)])
    then show ?thesis
      using Some c Cons.IH [OF Cons.prems(1)] Cons.prems(2)
      by (simp add: relax_edge_def offer_def)
  qed
qed

lemma relax_short: "short_best n best \<Longrightarrow> short_best (Suc n) (relax ctx best es)"
  unfolding relax_def by (rule relax_loop_short) (auto intro: short_best_mono)

lemma relax_rounds_short: "short_best m best \<Longrightarrow> short_best (m + n) (relax_rounds ctx es n best)"
proof (induction n arbitrary: m best)
  case 0
  then show ?case by simp
next
  case (Suc n)
  from Suc.IH [OF relax_short [OF Suc.prems]] Suc.prems show ?case
    by (auto intro: short_best_mono)
qed

section \<open>A walk of five hops contains a cycle\<close>

definition stops :: "currency \<Rightarrow> route_hop list \<Rightarrow> currency list" where
  "stops s hs = s # map h_target hs"

lemma walk_split:
  "walk s hs t \<Longrightarrow> i \<le> length hs \<Longrightarrow>
     walk s (take i hs) (stops s hs ! i) \<and> walk (stops s hs ! i) (drop i hs) t"
proof (induction hs arbitrary: s i)
  case Nil
  then show ?case by (simp add: stops_def)
next
  case (Cons h hs)
  then show ?case by (cases i) (auto simp: stops_def)
qed

lemma card_currencies: "finite (A :: currency set) \<and> card A \<le> 5"
proof -
  have "finite (UNIV :: currency set)" and "card (UNIV :: currency set) \<le> length Currency_members"
    unfolding currency_UNIV by (simp_all only: finite_set card_length)
  moreover have "length Currency_members = 5" by (simp add: Currency_members_def)
  ultimately show ?thesis by (metis card_mono le_trans rev_finite_subset subset_UNIV)
qed

lemma long_walk_cycle:
  assumes "walk s hs t" and "4 < length hs"
  obtains p c q u where "hs = p @ c @ q" and "c \<noteq> []" and "walk s p u" and "walk u c u" and "walk u q t"
proof -
  have "length (stops s hs) = Suc (length hs)" by (simp add: stops_def)
  with assms(2) card_currencies [of "set (stops s hs)"] have "\<not> distinct (stops s hs)"
    using distinct_card [of "stops s hs"] by linarith
  then obtain i j where ij: "i < j" "j < length (stops s hs)" "stops s hs ! i = stops s hs ! j"
    by (metis distinct_conv_nth linorder_neqE_nat)
  define u where "u = stops s hs ! i"
  have len: "j \<le> length hs" using ij(2) by (simp add: stops_def)
  have a: "walk s (take i hs) u" and b: "walk u (drop i hs) t"
    using walk_split [OF assms(1), of i] ij(1) len by (simp_all add: u_def)
  have c: "walk s (take j hs) u" and d: "walk u (drop j hs) t"
    using walk_split [OF assms(1), of j] len ij(3) by (simp_all add: u_def)
  have tj: "take j hs = take i hs @ take (j - i) (drop i hs)"
    using ij(1) by (metis le_add_diff_inverse less_imp_le take_add)
  with c a have "walk u (take (j - i) (drop i hs)) u" by (auto dest: walk_end_unique)
  moreover have "hs = take i hs @ take (j - i) (drop i hs) @ drop j hs"
    using tj by (metis append.assoc append_take_drop_id)
  moreover have "take (j - i) (drop i hs) \<noteq> []" using ij(1) len by simp
  ultimately show ?thesis using that a d by blast
qed

text \<open>A cycle at \<open>u\<close> that multiplies the rate of the walk \<open>p\<close> from the source by more than one.\<close>

definition profitable_cycle ::
  "dec_context \<Rightarrow> edge list \<Rightarrow> currency \<Rightarrow> route_hop list \<Rightarrow> route_hop list \<Rightarrow> bool" where
  "profitable_cycle ctx edges source p c \<longleftrightarrow>
     (\<exists>u. walk source p u \<and> walk u c u) \<and> c \<noteq> [] \<and>
     set p \<subseteq> hops_of edges \<and> set c \<subseteq> hops_of edges \<and>
     dval (walk_rate ctx p) < dval (walk_rate ctx (p @ c))"

section \<open>Correctness in any monotone context\<close>

lemma dominates_get:
  "dominates ctx edges src P best \<Longrightarrow> walk src hs t \<Longrightarrow> set hs \<subseteq> hops_of edges \<Longrightarrow> P hs \<Longrightarrow>
     \<exists>v gs. map_of best t = Some (v, gs) \<and> dval (walk_rate ctx hs) \<le> dval v"
  by (auto simp: dominates_def at_least_def)

lemma route_table_get:
  "map_of (route_table version source best) t =
     (if t = source then None
      else map_option (\<lambda>(rate, hops). \<lparr>q_version = version, q_target = t, q_rate = rate, q_hops = hops\<rparr>)
        (map_of best t))"
  by (induction best) (auto simp: route_table_def)

lemma initial_at_least: "at_least (initial_best src) src 1"
  by (simp add: at_least_def initial_best_def)

lemma collapsed_hops: "collapsed_edges edges = Inr cs \<Longrightarrow> hops_of cs \<subseteq> hops_of edges"
  using collapsed_edges_Inr(1) by (auto simp: hops_of_def)

context monotone_context
begin

lemma best_eq_no_improvement:
  assumes sb: "sound_best ctx src H best" "sound_best ctx src H nxt"
    and eq: "best_eq nxt best"
  shows "\<not> list_ex (improves best) nxt"
proof -
  have "\<not> improves best (t, v, hs)" if "(t, v, hs) \<in> set nxt" for t v hs
  proof -
    have "\<forall>(u, c) \<in> set nxt. case map_of best u of None \<Rightarrow> False | Some d \<Rightarrow> candidate_eq c d"
      using eq by (simp add: best_eq_def list_all_iff)
    from bspec [OF this that] obtain w gs where w: "map_of best t = Some (w, gs)" "dec_eq v w"
      by (cases "map_of best t") (auto simp: candidate_eq_def)
    have "map_of nxt t = Some (v, hs)"
      using that sb(2) by (simp add: sound_best_def)
    then have "dec_pos v" by (rule sound_best_pos [OF sb(2)])
    with w sound_best_pos [OF sb(1) w(1)] show ?thesis
      by (simp add: improves_def dec_less_iff dec_eq_iff)
  qed
  then show ?thesis by (auto simp: list_ex_iff)
qed

text \<open>The rounds either reach a table that no round improves or have all been run.\<close>

lemma relax_rounds_cases:
  assumes cs: "collapsed_edges edges = Inr cs" and "sound_best ctx src (hops_of cs) best"
    and "dominates ctx edges src (\<lambda>hs. length hs \<le> k) best"
  shows "\<not> list_ex (improves (relax_rounds ctx cs n best)) (relax ctx (relax_rounds ctx cs n best) cs) \<or>
         dominates ctx edges src (\<lambda>hs. length hs \<le> k + n) (relax_rounds ctx cs n best)"
  using assms(2,3)
proof (induction n arbitrary: k best)
  case 0
  then show ?case by simp
next
  case (Suc n)
  have sn: "sound_best ctx src (hops_of cs) (relax ctx best cs)"
    by (rule relax_sound [OF Suc.prems(1) collapsed_ok [OF cs]])
  show ?case
  proof (cases "best_eq (relax ctx best cs) best")
    case True
    with best_eq_no_improvement [OF Suc.prems(1) sn True] show ?thesis by simp
  next
    case False
    with Suc.IH [OF sn dominates_relax [OF cs Suc.prems]] show ?thesis by simp
  qed
qed

lemma quotes_dominate:
  assumes "compute_routes_in edges version source ctx = Inr routes"
    and "walk source hs t" and "set hs \<subseteq> hops_of edges" and "t \<noteq> source"
  shows "\<exists>q. map_of routes t = Some q \<and> dval (walk_rate ctx hs) \<le> dval (q_rate q)"
proof -
  obtain cs where cs: "collapsed_edges edges = Inr cs"
    using assms(1) by (auto simp: compute_routes_in_def split: sum.splits)
  define best where "best = relax_rounds ctx cs (length Currency_members - 1) (initial_best source)"
  have no: "\<not> list_ex (improves best) (relax ctx best cs)"
    and routes: "routes = route_table version source best"
    using assms(1) cs by (auto simp: compute_routes_in_def finish_routes_def best_def split: if_splits)
  have sb: "sound_best ctx source (hops_of cs) best"
    unfolding best_def by (rule relax_rounds_sound [OF sound_initial collapsed_ok [OF cs]])
  have one: "at_least best source 1"
    unfolding best_def by (rule source_at_least [OF sound_initial initial_at_least collapsed_ok [OF cs]])
  have "dominates ctx edges source (\<lambda>_. True) best"
    using dominates_all [OF cs sb one] no_improvement [OF sb relax_sound [OF sb collapsed_ok [OF cs]] no]
    by blast
  from dominates_get [OF this assms(2,3)] show ?thesis
    using assms(4) by (auto simp: routes route_table_get)
qed

lemma quote_sound:
  assumes "compute_routes_in edges version source ctx = Inr routes" and "map_of routes t = Some q"
  shows "t \<noteq> source \<and> q_version q = version \<and> q_target q = t \<and> walk source (q_hops q) t \<and>
    set (q_hops q) \<subseteq> hops_of edges \<and> length (q_hops q) \<le> 4 \<and>
    q_rate q = walk_rate ctx (q_hops q) \<and> dec_pos (q_rate q)"
proof -
  obtain cs where cs: "collapsed_edges edges = Inr cs"
    using assms(1) by (auto simp: compute_routes_in_def split: sum.splits)
  define best where "best = relax_rounds ctx cs (length Currency_members - 1) (initial_best source)"
  have routes: "routes = route_table version source best"
    using assms(1) cs by (auto simp: compute_routes_in_def finish_routes_def best_def split: if_splits)
  obtain v hs where b: "t \<noteq> source" "map_of best t = Some (v, hs)"
    "q = \<lparr>q_version = version, q_target = t, q_rate = v, q_hops = hs\<rparr>"
    using assms(2) by (auto simp: routes route_table_get split: if_splits)
  have sb: "sound_best ctx source (hops_of cs) best"
    unfolding best_def by (rule relax_rounds_sound [OF sound_initial collapsed_ok [OF cs]])
  have "short_best (0 + (length Currency_members - 1)) best"
    unfolding best_def by (rule relax_rounds_short) (simp add: short_best_def initial_best_def)
  then have "length hs \<le> 4" using b(2) by (auto simp: Currency_members_def dest: short_best_get)
  with sound_bestD [OF sb b(2)] sound_best_pos [OF sb b(2)] b collapsed_hops [OF cs]
  show ?thesis by auto
qed

lemma rejection_reason:
  assumes "compute_routes_in edges version source ctx = Inl x"
  shows "x = InvalidRateGraph \<and>
    ((\<exists>e \<in> set edges. \<not> dec_pos (e_rate e)) \<or> (\<exists>p c. profitable_cycle ctx edges source p c))"
proof (cases "collapsed_edges edges")
  case (Inl y)
  with assms show ?thesis
    using collapsed_edges_Inl [of edges y] by (simp add: compute_routes_in_def)
next
  case cs: (Inr cs)
  define best where "best = relax_rounds ctx cs (length Currency_members - 1) (initial_best source)"
  have ex: "list_ex (improves best) (relax ctx best cs)" and x: "x = InvalidRateGraph"
    using assms cs by (auto simp: compute_routes_in_def finish_routes_def best_def split: if_splits)
  have sb: "sound_best ctx source (hops_of cs) best"
    unfolding best_def by (rule relax_rounds_sound [OF sound_initial collapsed_ok [OF cs]])
  have sx: "sound_best ctx source (hops_of cs) (relax ctx best cs)"
    by (rule relax_sound [OF sb collapsed_ok [OF cs]])
  have "length Currency_members - 1 = 4" by (simp add: Currency_members_def)
  then have dom: "dominates ctx edges source (\<lambda>hs. length hs \<le> 4) best"
    using relax_rounds_cases [OF cs sound_initial dominates_initial, of 4] ex
    unfolding best_def by auto
  obtain t v hs where imp: "(t, v, hs) \<in> set (relax ctx best cs)" "improves best (t, v, hs)"
    using ex by (auto simp: list_ex_iff)
  have new: "map_of (relax ctx best cs) t = Some (v, hs)"
    using imp(1) sx by (simp add: sound_best_def)
  have beats: "dval (walk_rate ctx gs) < dval (walk_rate ctx hs)"
    if gs: "walk source gs t" "set gs \<subseteq> hops_of edges" "length gs \<le> 4" for gs
  proof -
    obtain w fs where w: "map_of best t = Some (w, fs)" "dval (walk_rate ctx gs) \<le> dval w"
      using dominates_get [OF dom, of gs t] gs by blast
    with imp(2) sound_best_pos [OF sb w(1)] sound_best_pos [OF sx new] sound_bestD [OF sx new]
    show ?thesis by (simp add: improves_def dec_less_iff)
  qed
  have hs: "walk source hs t" "set hs \<subseteq> hops_of edges"
    using sound_bestD [OF sx new] collapsed_hops [OF cs] by auto
  with beats [OF hs] have "4 < length hs" by (meson less_irrefl not_less)
  have "short_best (0 + (length Currency_members - 1)) best"
    unfolding best_def by (rule relax_rounds_short) (simp add: short_best_def initial_best_def)
  from relax_short [OF this, of ctx cs] new have "length hs \<le> 5"
    by (auto simp: Currency_members_def dest: short_best_get)
  obtain p c q u where pcq: "hs = p @ c @ q" "c \<noteq> []" "walk source p u" "walk u c u" "walk u q t"
    using long_walk_cycle [OF hs(1) \<open>4 < length hs\<close>] .
  have "length c \<ge> 1" using pcq(2) by (simp add: Suc_leI)
  then have "length (p @ q) \<le> 4" using \<open>length hs \<le> 5\<close> pcq(1) by simp
  moreover have "walk source (p @ q) t" using pcq by auto
  ultimately have less: "dval (walk_rate ctx (p @ q)) < dval (walk_rate ctx (p @ c @ q))"
    using beats [of "p @ q"] hs(2) pcq(1) by auto
  have pos: "positive_hops p" "positive_hops c" "positive_hops q"
    using edges_positive [OF cs hs(2)] pcq(1) by simp_all
  have "\<not> dval (walk_rate ctx (p @ c)) \<le> dval (walk_rate ctx p)"
  proof
    assume "dval (walk_rate ctx (p @ c)) \<le> dval (walk_rate ctx p)"
    then have "dval (walk_from ctx (walk_rate ctx (p @ c)) q) \<le> dval (walk_from ctx (walk_rate ctx p) q)"
      using pos by (intro walk_from_mono walk_rate_pos) simp_all
    with less show False by (simp add: walk_rate_append)
  qed
  then have "profitable_cycle ctx edges source p c"
    using pcq hs(2) by (auto simp: profitable_cycle_def)
  with x show ?thesis by blast
qed

end

section \<open>The published table\<close>

text \<open>A graph of one edge, on which the properties below are instantiated.\<close>

definition direct_edge :: edge where
  "direct_edge = \<lparr>e_source = USD, e_target = PHP, e_lp = ''LP_TEST'', e_rate = DFin 55 0\<rparr>"

definition direct_quote :: route_quote where
  "direct_quote = \<lparr>q_version = 7, q_target = PHP, q_rate = DFin 55 0, q_hops = [edge_hop direct_edge]\<rparr>"

lemma direct_routes: "compute_routes [direct_edge] 7 USD = Inr [(PHP, direct_quote)]"
  by code_simp

text \<open>
  C4: every walk over the given edges from the source, of any length, is matched by a published
  quote for its target whose aggregate rate is at least the rate of the walk (multiplied out
  and rounded as the code does).  The quote maximises the receiver's output, and every
  reachable currency has one.
\<close>

theorem compute_routes_optimal:
  assumes "compute_routes edges version source = Inr routes"
    and "walk source hs t" and "set hs \<subseteq> hops_of edges" and "t \<noteq> source"
  shows "\<exists>q. map_of routes t = Some q \<and> dval (walk_rate ROUTING_CONTEXT hs) \<le> dval (q_rate q)"
  using assms unfolding compute_routes_def isolated_decimal_def
  by (rule routing_context.quotes_dominate)

theorem compute_routes_optimal_witness:
  "\<exists>q. map_of [(PHP, direct_quote)] PHP = Some q \<and>
     dval (walk_rate ROUTING_CONTEXT [edge_hop direct_edge]) \<le> dval (q_rate q)"
  by (rule compute_routes_optimal [OF direct_routes])
    (simp_all add: hops_of_def edge_hop_def direct_edge_def)

text \<open>
  C11: a published quote carries the snapshot version and its target, its hops form a walk from
  the source to the target over the given edges with at most four hops, and its aggregate rate
  is exactly the product of the hop rates in the 38-digit context; the source has no quote.
\<close>

theorem compute_routes_sound:
  assumes "compute_routes edges version source = Inr routes" and "map_of routes t = Some q"
  shows "t \<noteq> source \<and> q_version q = version \<and> q_target q = t \<and> walk source (q_hops q) t \<and>
    set (q_hops q) \<subseteq> hops_of edges \<and> length (q_hops q) \<le> 4 \<and>
    q_rate q = walk_rate ROUTING_CONTEXT (q_hops q) \<and> dec_pos (q_rate q)"
  using assms unfolding compute_routes_def isolated_decimal_def
  by (rule routing_context.quote_sound)

theorem compute_routes_sound_witness:
  "q_version direct_quote = 7 \<and> walk USD (q_hops direct_quote) PHP \<and>
     q_rate direct_quote = walk_rate ROUTING_CONTEXT (q_hops direct_quote)"
  using compute_routes_sound [OF direct_routes, of PHP direct_quote] by simp

text \<open>
  C29: a graph is rejected only as \<open>InvalidRateGraph\<close>, and only if some rate is not positive and
  finite or some cycle, reached by a walk from the source, multiplies the rate of that walk by
  more than one.
\<close>

theorem compute_routes_rejects_only_arbitrage:
  assumes "compute_routes edges version source = Inl x"
  shows "x = InvalidRateGraph \<and>
    ((\<exists>e \<in> set edges. \<not> dec_pos (e_rate e)) \<or>
     (\<exists>p c. profitable_cycle ROUTING_CONTEXT edges source p c))"
  using assms unfolding compute_routes_def isolated_decimal_def
  by (rule routing_context.rejection_reason)

definition cycle_edges :: "edge list" where
  "cycle_edges =
     [\<lparr>e_source = USD, e_target = EUR, e_lp = ''a'', e_rate = DFin 9 (-1)\<rparr>,
      \<lparr>e_source = EUR, e_target = USD, e_lp = ''b'', e_rate = DFin 12 (-1)\<rparr>]"

lemma cycle_rejected: "compute_routes cycle_edges 1 USD = Inl InvalidRateGraph"
  by code_simp

theorem compute_routes_rejects_only_arbitrage_witness:
  "\<exists>p c. profitable_cycle ROUTING_CONTEXT cycle_edges USD p c"
  using compute_routes_rejects_only_arbitrage [OF cycle_rejected] by (simp add: cycle_edges_def)

text \<open>
  C12: a published table leaves no arbitrage at a quoted currency: no cycle over the edges,
  appended to the quoted route, yields more than the quote; and a rate that is not positive and
  finite always rejects the graph.
\<close>

theorem compute_routes_no_arbitrage:
  assumes "compute_routes edges version source = Inr routes"
    and "map_of routes t = Some q" and "walk t c t" and "set c \<subseteq> hops_of edges"
  shows "dval (walk_rate ROUTING_CONTEXT (q_hops q @ c)) \<le> dval (q_rate q) \<and>
    (\<forall>e \<in> set edges. dec_pos (e_rate e))"
proof -
  have q: "t \<noteq> source" "walk source (q_hops q) t" "set (q_hops q) \<subseteq> hops_of edges"
    using routing_context.quote_sound assms(1,2)
    unfolding compute_routes_def isolated_decimal_def by blast+
  then have "walk source (q_hops q @ c) t" "set (q_hops q @ c) \<subseteq> hops_of edges"
    using assms(3,4) by auto
  then have "dval (walk_rate ROUTING_CONTEXT (q_hops q @ c)) \<le> dval (q_rate q)"
    using routing_context.quotes_dominate [OF assms(1) [unfolded compute_routes_def isolated_decimal_def]]
      q(1) assms(2) by fastforce
  moreover have "\<forall>e \<in> set edges. dec_pos (e_rate e)"
    using assms(1) collapsed_edges_Inl [of edges InvalidRateGraph]
    by (auto simp: compute_routes_def isolated_decimal_def compute_routes_in_def split: sum.splits)
  ultimately show ?thesis by blast
qed

definition return_edge :: edge where
  "return_edge = \<lparr>e_source = PHP, e_target = USD, e_lp = ''LP_TEST'', e_rate = DFin 1 (-2)\<rparr>"

lemma return_routes: "compute_routes [direct_edge, return_edge] 7 USD = Inr [(PHP, direct_quote)]"
  by code_simp

theorem compute_routes_no_arbitrage_witness:
  "dval (walk_rate ROUTING_CONTEXT
     (q_hops direct_quote @ [edge_hop return_edge, edge_hop direct_edge])) \<le> dval (q_rate direct_quote)"
  using compute_routes_no_arbitrage [OF return_routes, of PHP direct_quote
      "[edge_hop return_edge, edge_hop direct_edge]"]
  by (simp add: hops_of_def edge_hop_def direct_edge_def return_edge_def)

text \<open>
  The table does not depend on the order in which the edges arrive: two lists of the same
  edges, with at most one edge per liquidity provider and pair of currencies, give the same
  quotes, ties included.
\<close>

lemma compute_routes_order_independent:
  assumes "mset edges = mset edges'" and "distinct (map edge_sort_key edges)"
  shows "compute_routes edges version source = compute_routes edges' version source"
proof -
  have "sort_key edge_sort_key edges = sort_key edge_sort_key edges'"
    using assms by (intro sort_key_inj_key_eq) (auto simp: distinct_map)
  then show ?thesis
    by (simp add: compute_routes_def isolated_decimal_def compute_routes_in_def collapsed_edges_def)
qed

end
