(* ===== verification/Rate_Feed.thy ===== *)
theory Rate_Feed
  imports Routing
begin

text \<open>
  The simulated rate stream and the book that publishes it (\<open>generate_edges\<close> and \<open>RateBook\<close> of
  \<open>app/routing.py\<close>).  The book's background task is a state of its own: not created, publishing,
  or ended by the exception of a rejected snapshot.  One turn of the endless loop of \<open>_run\<close>, after
  its sleep, is one step; cancellation happens in \<open>stop\<close>.
\<close>

section \<open>The generated rates\<close>

definition base_anchors :: "(currency \<times> decimal) list" where
  "base_anchors =
     [(USD, DFin 1 0), (USDC, DFin 1 0), (EUR, DFin 92 (-2)), (PHP, DFin 55 0), (AED, DFin 367 (-2))]"

definition coefficients :: "(currency \<times> int) list" where
  "coefficients = [(USD, 1), (USDC, 2), (EUR, 3), (PHP, 4), (AED, 5)]"

definition lp_factors :: "(string \<times> decimal) list" where
  "lp_factors =
     [(''LP_A'', DFin 999 (-3)), (''LP_B'', DFin 998 (-3)), (''LP_C'', DFin 997 (-3))]"

definition drift :: "dec_context \<Rightarrow> int \<Rightarrow> int \<Rightarrow> decimal" where
  "drift ctx version coefficient =
     dec_add ctx (DFin 1 0)
       (dec_div ctx (dec_of_int ((version * coefficient) mod 7 - 3)) (DFin 10000 0))"

text \<open>Both tables have an entry for every currency, so the two lookups never fail.\<close>

definition anchor :: "dec_context \<Rightarrow> int \<Rightarrow> currency \<Rightarrow> decimal" where
  "anchor ctx version c =
     dec_mul ctx (the (map_of base_anchors c)) (drift ctx version (the (map_of coefficients c)))"

definition generated_edge ::
  "dec_context \<Rightarrow> int \<Rightarrow> currency \<Rightarrow> currency \<Rightarrow> string \<times> decimal \<Rightarrow> edge" where
  "generated_edge ctx version source target lp =
     \<lparr>e_source = source, e_target = target, e_lp = fst lp,
      e_rate = dec_mul ctx (dec_div ctx (anchor ctx version target) (anchor ctx version source)) (snd lp)\<rparr>"

definition generate_edges_in :: "int \<Rightarrow> dec_context \<Rightarrow> edge list" where
  "generate_edges_in version ctx =
     [generated_edge ctx version source target lp.
        source \<leftarrow> Currency_members, target \<leftarrow> Currency_members, source \<noteq> target, lp \<leftarrow> lp_factors]"

definition generate_edges :: "int \<Rightarrow> edge list" where
  "generate_edges version = isolated_decimal (generate_edges_in version)"

section \<open>The book\<close>

datatype publisher = NoTask | Publishing | Ended rate_error

record rate_book =
  rb_snapshot :: "rate_snapshot option"
  rb_task :: publisher

definition new_rate_book :: rate_book where
  "new_rate_book = \<lparr>rb_snapshot = None, rb_task = NoTask\<rparr>"

definition publish ::
  "edge list \<Rightarrow> int \<Rightarrow> rate_book \<Rightarrow> (rate_error + rate_snapshot) \<times> rate_book" where
  "publish edges version book =
     (case compute_routes edges version USD of
        Inl e \<Rightarrow> (Inl e, book)
      | Inr routes \<Rightarrow>
          let snapshot = \<lparr>s_version = version, s_routes = routes\<rparr>
          in (Inr snapshot, book\<lparr>rb_snapshot := Some snapshot\<rparr>))"

definition quote :: "rate_book \<Rightarrow> currency \<Rightarrow> rate_error + route_quote" where
  "quote book target =
     (case rb_snapshot book of
        None \<Rightarrow> Inl (RouteNotFound target)
      | Some snapshot \<Rightarrow>
          (case map_of (s_routes snapshot) target of
             None \<Rightarrow> Inl (RouteNotFound target)
           | Some q \<Rightarrow> Inr q))"

definition start :: "(int \<Rightarrow> edge list) \<Rightarrow> rate_book \<Rightarrow> (rate_error + unit) \<times> rate_book" where
  "start edge_factory book =
     (if rb_task book = Publishing then (Inr (), book)
      else if rb_snapshot book = None then
        (case publish (edge_factory 1) 1 book of
           (Inl e, book') \<Rightarrow> (Inl e, book')
         | (Inr _, book') \<Rightarrow> (Inr (), book'\<lparr>rb_task := Publishing\<rparr>))
      else (Inr (), book\<lparr>rb_task := Publishing\<rparr>))"

text \<open>One turn of \<open>_run\<close>; the task exists only with a snapshot, so its assertion holds.\<close>

definition run_once :: "(int \<Rightarrow> edge list) \<Rightarrow> rate_book \<Rightarrow> rate_book" where
  "run_once edge_factory book =
     (case (rb_task book, rb_snapshot book) of
        (Publishing, Some snapshot) \<Rightarrow>
          (case publish (edge_factory (s_version snapshot + 1)) (s_version snapshot + 1) book of
             (Inl e, book') \<Rightarrow> book'\<lparr>rb_task := Ended e\<rparr>
           | (Inr _, book') \<Rightarrow> book')
      | _ \<Rightarrow> book)"

definition stop :: "rate_book \<Rightarrow> (rate_error + unit) \<times> rate_book" where
  "stop book =
     (case rb_task book of
        NoTask \<Rightarrow> (Inr (), book)
      | Publishing \<Rightarrow> (Inr (), book\<lparr>rb_task := NoTask\<rparr>)
      | Ended e \<Rightarrow> (Inl e, book))"

end
