(* ===== verification/Rate_Feed_Safety.thy ===== *)
theory Rate_Feed_Safety
  imports Rate_Feed Route_Quotes Decimal_Division
begin

text \<open>
  The simulated stream can always be published.  Every generated rate is a ratio of two positive
  anchors times a provider factor below one; anchors are a potential along which every hop
  loses, so no cycle of the generated graph is profitable even after rounding, for any version.
  The book's invariant follows: its snapshot is the route table of its version and the
  publishing task never ends by a rejected snapshot.
\<close>

section \<open>Potentials\<close>

text \<open>Along the hops the rate loses the factor \<open>q\<close> against the ratio of the potentials.\<close>

definition loses :: "rat \<Rightarrow> rat \<Rightarrow> (currency \<Rightarrow> rat) \<Rightarrow> route_hop \<Rightarrow> bool" where
  "loses eps q A h \<longleftrightarrow> dec_pos (h_rate h) \<and>
     dval (h_rate h) * (1 + eps) * A (h_source h) \<le> q * A (h_target h)"

context monotone_context
begin

lemma mul_upper:
  assumes "dec_pos a" and "dec_pos b"
  shows "dval (dec_mul ctx a b) \<le> dval a * dval b * (1 + eps)"
proof -
  have "dval (dec_mul ctx a b) - dval a * dval b \<le> dval a * dval b * eps"
    using mul_error [OF assms] by (simp add: abs_le_iff)
  then show ?thesis by (simp add: algebra_simps)
qed

lemma walk_loses:
  assumes "walk s hs t" and "dec_pos a" and "\<forall>h \<in> set hs. loses eps q A h"
    and q: "0 \<le> q" and A: "\<And>c. 0 < A c"
  shows "dval (walk_from ctx a hs) * A s \<le> dval a * q ^ length hs * A t"
  using assms(1-3)
proof (induction hs arbitrary: s a)
  case Nil
  then show ?case by simp
next
  case (Cons h hs)
  let ?b = "dec_mul ctx a (h_rate h)"
  have h: "dec_pos (h_rate h)" "dval (h_rate h) * (1 + eps) * A s \<le> q * A (h_target h)"
    using Cons.prems by (auto simp: loses_def)
  have a0: "0 \<le> dval a" using Cons.prems(2) by (simp add: less_imp_le)
  have "dval (walk_from ctx ?b hs) * A (h_target h) \<le> dval ?b * q ^ length hs * A t"
    using Cons mul_pos h(1) by simp
  moreover have "dval ?b * A s \<le> dval a * (q * A (h_target h))"
  proof -
    have "dval ?b * A s \<le> dval a * dval (h_rate h) * (1 + eps) * A s"
      using mul_upper [OF Cons.prems(2) h(1)] A [of s] by (intro mult_right_mono) simp_all
    also have "\<dots> = dval a * (dval (h_rate h) * (1 + eps) * A s)" by (simp add: mult.assoc)
    also have "\<dots> \<le> dval a * (q * A (h_target h))" using h(2) a0 by (rule mult_left_mono)
    finally show ?thesis .
  qed
  then have "dval ?b * A s * (q ^ length hs * A t) \<le> dval a * (q * A (h_target h)) * (q ^ length hs * A t)"
    using q A [of t] by (intro mult_right_mono) simp_all
  moreover have "dval (walk_from ctx ?b hs) * A (h_target h) * A s \<le> dval ?b * q ^ length hs * A t * A s"
    using calculation(1) A [of s] by (intro mult_right_mono) (simp_all add: less_imp_le)
  ultimately have "dval (walk_from ctx ?b hs) * A (h_target h) * A s
      \<le> dval a * (q * A (h_target h)) * (q ^ length hs * A t)"
    by (simp add: mult.assoc mult.commute mult.left_commute)
  then have "dval (walk_from ctx ?b hs) * A s * A (h_target h)
      \<le> dval a * q ^ length (h # hs) * A t * A (h_target h)"
    by (simp add: mult.assoc mult.commute mult.left_commute)
  then show ?case using A [of "h_target h"] by simp
qed

lemma no_profitable_cycle:
  assumes "\<forall>h \<in> hops_of edges. loses eps q A h" and "0 \<le> q" and "q < 1" and A: "\<And>c. 0 < A c"
  shows "\<not> profitable_cycle ctx edges source p c"
proof
  assume "profitable_cycle ctx edges source p c"
  then obtain u where c: "walk u c u" "c \<noteq> []" "set p \<subseteq> hops_of edges" "set c \<subseteq> hops_of edges"
    and less: "dval (walk_rate ctx p) < dval (walk_rate ctx (p @ c))"
    by (auto simp: profitable_cycle_def)
  have pos: "dec_pos (walk_rate ctx p)"
    using c(3) assms(1) by (intro walk_rate_pos) (auto simp: positive_hops_def loses_def)
  have "dval (walk_from ctx (walk_rate ctx p) c) * A u \<le> dval (walk_rate ctx p) * q ^ length c * A u"
    using walk_loses [where A = A, OF c(1) pos _ assms(2) A]
      c(4) assms(1) by blast
  then have "dval (walk_rate ctx (p @ c)) \<le> dval (walk_rate ctx p) * q ^ length c"
    using A [of u] by (simp add: walk_rate_append)
  also have "\<dots> \<le> dval (walk_rate ctx p) * 1"
    using pos assms(2,3) by (intro mult_left_mono power_le_one) (simp_all add: less_imp_le)
  finally show False using less by simp
qed

end

section \<open>The anchors\<close>

lemma drift_digits:
  "ndigits 1 = 1" "ndigits (Suc 0) = 1" "ndigits 2 = 1" "ndigits 3 = 1" "ndigits 10000 = 5"
  by code_simp+

lemma div_10000: "i \<in> {1, 2, 3} \<Longrightarrow> div_digits (scaled i 43) (scaled 10000 (- 43)) (- 43) 0 = (i, - 4)"
  by (auto simp: div_digits_def scaled_def toward_ideal.simps)

lemma drift_term:
  assumes "i \<in> {-3, -2, -1, 1, 2, 3}"
  shows "dec_div ROUTING_CONTEXT (dec_of_int i) (DFin 10000 0) = DFin i (- 4)"
proof -
  have "dec_div ROUTING_CONTEXT (dec_of_int i) (DFin 10000 0) = dec_fix ROUTING_CONTEXT i (- 4)"
    using assms div_10000 [of "nat \<bar>i\<bar>"]
    by (auto simp: dec_of_int_def div_shift_def ROUTING_CONTEXT_def drift_digits)
  moreover have "nat \<bar>i\<bar> \<le> 3" using assms by auto
  ultimately show ?thesis by (simp add: dec_fix_small ROUTING_CONTEXT_def)
qed

text \<open>The seven drifts, in units of a basis point around one.\<close>

lemma drift_eq:
  "drift ROUTING_CONTEXT version coefficient =
     (let i = (version * coefficient) mod 7 - 3
      in if i = 0 then DFin 1 0 else DFin (10000 + i) (- 4))"
proof -
  define i where "i = (version * coefficient) mod 7 - 3"
  have "- 3 \<le> i \<and> i < 4" unfolding i_def by simp
  then have "i = 0 \<or> i \<in> {-3, -2, -1, 1, 2, 3}" by auto
  then show ?thesis
  proof
    assume "i = 0"
    then show ?thesis
      unfolding drift_def i_def [symmetric]
      by (simp add: dec_of_int_def dec_fix_small ROUTING_CONTEXT_def)
  next
    assume i: "i \<in> {-3, -2, -1, 1, 2, 3}"
    then have "nat \<bar>10000 + i\<bar> \<le> 10003" by auto
    with i show ?thesis
      unfolding drift_def i_def [symmetric] drift_term [OF i]
      by (auto simp: dec_fix_small ROUTING_CONTEXT_def)
  qed
qed

lemma drift_pos: "dec_pos (drift ROUTING_CONTEXT version coefficient)"
proof -
  have "0 \<le> (version * coefficient) mod 7" by simp
  then have "0 < 9997 + (version * coefficient) mod 7" by linarith
  then show ?thesis by (simp add: drift_eq Let_def)
qed

lemma base_anchor_pos: "dec_pos (the (map_of base_anchors c))"
  by (cases c) (simp_all add: base_anchors_def)

lemma anchor_pos: "dec_pos (anchor ROUTING_CONTEXT version c)"
  unfolding anchor_def by (intro routing_context.mul_pos base_anchor_pos drift_pos)

lemma lp_factor_bounds: "lp \<in> set lp_factors \<Longrightarrow> dec_pos (snd lp) \<and> dval (snd lp) \<le> 999 / 1000"
  by (auto simp: lp_factors_def power_int_def power_one_over)

lemma routing_errors:
  "1 + unit_error ROUTING_CONTEXT \<le> 1000001 / 1000000"
  "1 + 1 / 10 ^ prec ROUTING_CONTEXT \<le> (1000001 / 1000000 :: rat)"
  by (simp_all add: unit_error_def ROUTING_CONTEXT_def power_int_def power_one_over)

section \<open>The generated rates lose\<close>

definition anchor_value :: "int \<Rightarrow> currency \<Rightarrow> rat" where
  "anchor_value version c = dval (anchor ROUTING_CONTEXT version c)"

lemma anchor_value_pos [simp]: "0 < anchor_value version c"
  using anchor_pos by (simp add: anchor_value_def)

lemma anchor_ratio:
  defines "ctx \<equiv> ROUTING_CONTEXT"
  shows "dec_pos (dec_div ctx (anchor ctx version t) (anchor ctx version s)) \<and>
    dval (dec_div ctx (anchor ctx version t) (anchor ctx version s))
      \<le> anchor_value version t / anchor_value version s * (1000001 / 1000000) * (1000001 / 1000000)"
proof -
  let ?r = "anchor_value version t / anchor_value version s"
  let ?d = "dec_div ctx (anchor ctx version t) (anchor ctx version s)"
  have "0 < prec ctx" by (simp add: ctx_def ROUTING_CONTEXT_def)
  then obtain x where x: "rounds_to ctx x ?d" "\<bar>x - ?r\<bar> \<le> ?r / 10 ^ prec ctx"
    using dec_div_rounds [OF anchor_pos anchor_pos] unfolding ctx_def anchor_value_def by blast
  have r: "0 \<le> ?r" by (simp add: less_imp_le)
  have "x \<le> ?r * (1 + 1 / 10 ^ prec ctx)" using x(2) by (simp add: abs_le_iff algebra_simps)
  also have "\<dots> \<le> ?r * (1000001 / 1000000)"
    using routing_errors(2) r unfolding ctx_def by (rule mult_left_mono)
  finally have up: "x \<le> ?r * (1000001 / 1000000)" .
  obtain j where j: "rounded (prec ctx) j x (dval ?d)" using x(1) by (auto simp: rounds_to_def)
  then have "10 powi (int (prec ctx) - 1 + j) \<le> x" by (simp add: rounded_def)
  moreover have "(0::rat) < 10 powi (int (prec ctx) - 1 + j)" by simp
  ultimately have x0: "0 \<le> x" by linarith
  have "\<bar>dval ?d - x\<bar> \<le> x * unit_error ctx"
    using rounded_error [OF j] by (simp add: unit_error_def)
  then have "dval ?d \<le> x * (1 + unit_error ctx)" by (simp add: abs_le_iff algebra_simps)
  also have "\<dots> \<le> x * (1000001 / 1000000)"
    using routing_errors(1) x0 unfolding ctx_def by (rule mult_left_mono)
  also have "\<dots> \<le> ?r * (1000001 / 1000000) * (1000001 / 1000000)"
    using up by (rule mult_right_mono) simp
  finally show ?thesis using x(1) by (simp add: rounds_to_def)
qed

lemma generated_edge_loses:
  assumes "lp \<in> set lp_factors"
  shows "loses (unit_error ROUTING_CONTEXT) (9995 / 10000) (anchor_value version)
           (edge_hop (generated_edge ROUTING_CONTEXT version s t lp))"
proof -
  let ?ctx = ROUTING_CONTEXT and ?k = "1000001 / 1000000 :: rat"
  let ?d = "dec_div ?ctx (anchor ?ctx version t) (anchor ?ctx version s)"
  let ?s = "anchor_value version s" and ?t = "anchor_value version t"
  have s0: "?s \<noteq> 0" using anchor_value_pos [of version s] by (metis less_irrefl)
  have f: "dec_pos (snd lp)" "dval (snd lp) \<le> 999 / 1000" using lp_factor_bounds [OF assms] by auto
  have d: "dec_pos ?d" "dval ?d \<le> ?t / ?s * ?k * ?k" using anchor_ratio by blast+
  have pos: "dec_pos (dec_mul ?ctx ?d (snd lp))" using d(1) f(1) by (rule routing_context.mul_pos)
  have "dval (dec_mul ?ctx ?d (snd lp)) \<le> dval ?d * dval (snd lp) * (1 + unit_error ?ctx)"
    by (rule routing_context.mul_upper [OF d(1) f(1)])
  also have "\<dots> \<le> ?t / ?s * ?k * ?k * (999 / 1000) * ?k"
    using d f routing_errors(1) routing_context.eps_nonneg
    by (intro mult_mono) (simp_all add: less_imp_le)
  finally have "dval (dec_mul ?ctx ?d (snd lp)) * (1 + unit_error ?ctx)
      \<le> ?t / ?s * ?k * ?k * (999 / 1000) * ?k * ?k"
    using routing_errors(1) routing_context.eps_nonneg pos
    by (intro mult_mono) (simp_all add: less_imp_le)
  then have "dval (dec_mul ?ctx ?d (snd lp)) * (1 + unit_error ?ctx) * ?s
      \<le> ?t / ?s * ?k * ?k * (999 / 1000) * ?k * ?k * ?s"
    by (rule mult_right_mono) (simp add: less_imp_le)
  also have "\<dots> = ?t * (?k * ?k * (999 / 1000) * ?k * ?k)"
    using s0 by simp
  also have "\<dots> \<le> ?t * (9995 / 10000)"
    by (intro mult_left_mono) (simp_all add: less_imp_le)
  finally show ?thesis
    using pos by (simp add: loses_def edge_hop_def generated_edge_def mult.commute)
qed

lemma generated_hops_lose:
  "\<forall>h \<in> hops_of (generate_edges version).
     loses (unit_error ROUTING_CONTEXT) (9995 / 10000) (anchor_value version) h"
  using generated_edge_loses
  by (auto simp: hops_of_def generate_edges_def generate_edges_in_def isolated_decimal_def)

lemma generated_edge_pos: "e \<in> set (generate_edges version) \<Longrightarrow> dec_pos (e_rate e)"
  using generated_hops_lose [of version]
  by (auto simp: hops_of_def loses_def edge_hop_def)

text \<open>The simulated stream is never rejected.\<close>

lemma generated_routes: "\<exists>routes. compute_routes (generate_edges version) v USD = Inr routes"
proof (cases "compute_routes (generate_edges version) v USD")
  case (Inl x)
  then have "(\<exists>e \<in> set (generate_edges version). \<not> dec_pos (e_rate e)) \<or>
      (\<exists>p c. profitable_cycle ROUTING_CONTEXT (generate_edges version) USD p c)"
    using routing_context.rejection_reason unfolding compute_routes_def isolated_decimal_def by blast
  moreover have "\<not> profitable_cycle ROUTING_CONTEXT (generate_edges version) USD p c" for p c
    by (rule routing_context.no_profitable_cycle [OF generated_hops_lose]) simp_all
  ultimately show ?thesis using generated_edge_pos by blast
qed simp

lemma generated_direct_edge:
  assumes "t \<noteq> s"
  shows "\<exists>e \<in> set (generate_edges version). e_source e = s \<and> e_target e = t"
proof -
  have "s \<in> set Currency_members" "t \<in> set Currency_members" using currency_UNIV by auto
  moreover have "(''LP_A'', DFin 999 (-3)) \<in> set lp_factors" by (simp add: lp_factors_def)
  ultimately have "generated_edge ROUTING_CONTEXT version s t (''LP_A'', DFin 999 (-3))
      \<in> set (generate_edges version)"
    using assms by (auto simp: generate_edges_def isolated_decimal_def generate_edges_in_def)
  then show ?thesis by (rule bexI [rotated]) (simp add: generated_edge_def)
qed

lemma generated_quotes:
  assumes "compute_routes (generate_edges version) v USD = Inr routes" and "t \<noteq> USD"
  obtains q where "map_of routes t = Some q" and "q_version q = v" and "dec_pos (q_rate q)"
proof -
  obtain e where e: "e \<in> set (generate_edges version)" "e_source e = USD" "e_target e = t"
    using generated_direct_edge [OF assms(2)] by blast
  then have "walk USD [edge_hop e] t" and "set [edge_hop e] \<subseteq> hops_of (generate_edges version)"
    by (simp_all add: hops_of_def) (simp add: edge_hop_def)
  then obtain q where q: "map_of routes t = Some q"
    using routing_context.quotes_dominate assms
    unfolding compute_routes_def isolated_decimal_def by blast
  moreover have "q_version q = v \<and> dec_pos (q_rate q)"
    using routing_context.quote_sound assms(1) q
    unfolding compute_routes_def isolated_decimal_def by blast
  ultimately show ?thesis using that by blast
qed

section \<open>The book\<close>

text \<open>The calls of the application on its book, in any order.\<close>

inductive book_step :: "rate_book \<Rightarrow> rate_book \<Rightarrow> bool" where
  book_start: "book_step book (snd (start generate_edges book))"
| book_run: "book_step book (run_once generate_edges book)"
| book_stop: "book_step book (snd (stop book))"

definition snapshot_ok :: "rate_snapshot \<Rightarrow> bool" where
  "snapshot_ok snapshot \<longleftrightarrow> 1 \<le> s_version snapshot \<and>
     compute_routes (generate_edges (s_version snapshot)) (s_version snapshot) USD
       = Inr (s_routes snapshot)"

definition book_ok :: "rate_book \<Rightarrow> bool" where
  "book_ok book \<longleftrightarrow>
     (\<forall>x. rb_task book \<noteq> Ended x) \<and>
     (rb_task book = Publishing \<longrightarrow> rb_snapshot book \<noteq> None) \<and>
     (\<forall>snapshot. rb_snapshot book = Some snapshot \<longrightarrow> snapshot_ok snapshot)"

lemma publish_generated:
  assumes "1 \<le> version"
  obtains snapshot where "publish (generate_edges version) version book
      = (Inr snapshot, book\<lparr>rb_snapshot := Some snapshot\<rparr>)"
    and "snapshot_ok snapshot" and "s_version snapshot = version"
proof -
  obtain routes where r: "compute_routes (generate_edges version) version USD = Inr routes"
    using generated_routes by blast
  with that [of "\<lparr>s_version = version, s_routes = routes\<rparr>"] assms show ?thesis
    by (simp add: publish_def snapshot_ok_def Let_def)
qed

lemma start_ok:
  assumes b: "book_ok book"
  shows "book_ok (snd (start generate_edges book))"
proof (cases "rb_task book = Publishing \<or> rb_snapshot book \<noteq> None")
  case True
  with b show ?thesis by (auto simp: start_def book_ok_def)
next
  case False
  obtain s where "publish (generate_edges 1) 1 book = (Inr s, book\<lparr>rb_snapshot := Some s\<rparr>)"
    and "snapshot_ok s"
    using publish_generated [of 1 book] by auto
  with False b show ?thesis by (simp add: start_def book_ok_def)
qed

lemma run_once_ok: "book_ok book \<Longrightarrow> book_ok (run_once generate_edges book)"
proof (cases "rb_snapshot book")
  case (Some snapshot)
  assume b: "book_ok book"
  with Some have "1 \<le> s_version snapshot + 1" by (auto simp: book_ok_def snapshot_ok_def)
  from publish_generated [OF this, of book] obtain s where
    "publish (generate_edges (s_version snapshot + 1)) (s_version snapshot + 1) book
      = (Inr s, book\<lparr>rb_snapshot := Some s\<rparr>)" "snapshot_ok s" .
  with b Some show ?thesis by (cases "rb_task book") (simp_all add: run_once_def book_ok_def)
qed (simp add: run_once_def split: publisher.splits)

lemma stop_ok: "book_ok book \<Longrightarrow> book_ok (snd (stop book))"
  by (auto simp: stop_def book_ok_def split: publisher.splits)

interpretation book: invariant_system "\<lambda>b. b = new_rate_book" book_step book_ok
proof
  show "book_ok b" if "b = new_rate_book" for b
    using that by (simp add: new_rate_book_def book_ok_def)
  show "book_ok t" if "book_ok s" and "book_step s t" for s t
    using that(2,1) by cases (auto intro: start_ok run_once_ok stop_ok)
qed

section \<open>Properties\<close>

text \<open>
  The simulated stream is publishable at every version: its graph is never rejected, and the
  table quotes every currency but the source, with the version and a positive rate.
\<close>

lemma generate_edges_publishable:
  "\<exists>routes. compute_routes (generate_edges version) version USD = Inr routes \<and>
     (\<forall>t. t \<noteq> USD \<longrightarrow>
        (\<exists>q. map_of routes t = Some q \<and> q_version q = version \<and> dec_pos (q_rate q)))"
proof -
  obtain routes where r: "compute_routes (generate_edges version) version USD = Inr routes"
    using generated_routes by blast
  moreover have "\<exists>q. map_of routes t = Some q \<and> q_version q = version \<and> dec_pos (q_rate q)"
    if "t \<noteq> USD" for t
    using generated_quotes [OF r that] by blast
  ultimately show ?thesis by blast
qed

text \<open>
  C28: in every state the application can bring its book to by \<open>start\<close>, turns of the publisher
  and \<open>stop\<close>, the publisher has not failed; while it publishes, every currency but the source
  has a quote, which carries the version of the one snapshot it was read from.
\<close>

theorem rate_book_quotes_one_snapshot:
  assumes "reachable (\<lambda>b. b = new_rate_book) book_step book"
    and "rb_task book = Publishing" and "t \<noteq> USD"
  shows "\<exists>snapshot q. rb_snapshot book = Some snapshot \<and> 1 \<le> s_version snapshot \<and>
    quote book t = Inr q \<and> q_version q = s_version snapshot"
proof -
  have ok: "book_ok book" using assms(1) by (rule book.inv_reachable)
  with assms(2) obtain snapshot where s: "rb_snapshot book = Some snapshot" "snapshot_ok snapshot"
    by (auto simp: book_ok_def)
  then obtain q where "map_of (s_routes snapshot) t = Some q" "q_version q = s_version snapshot"
    using generated_quotes assms(3) unfolding snapshot_ok_def by blast
  with s show ?thesis by (simp add: quote_def snapshot_ok_def)
qed

lemma started_book: "rb_task (snd (start generate_edges new_rate_book)) = Publishing"
proof -
  obtain s where "publish (generate_edges 1) 1 new_rate_book = (Inr s, new_rate_book\<lparr>rb_snapshot := Some s\<rparr>)"
    using publish_generated [of 1 new_rate_book] by auto
  then show ?thesis by (simp add: start_def new_rate_book_def)
qed

theorem rate_book_quotes_one_snapshot_witness:
  "\<exists>q. quote (snd (start generate_edges new_rate_book)) PHP = Inr q"
proof -
  have "reachable (\<lambda>b. b = new_rate_book) book_step (snd (start generate_edges new_rate_book))"
    by (rule reach_step [where s = new_rate_book]) (auto intro: reach_init book_start)
  from rate_book_quotes_one_snapshot [OF this started_book, of PHP] show ?thesis by auto
qed

text \<open>
  C36: a snapshot that is rejected is never published: the book keeps its last snapshot and every
  quote of it.  But the exception ends the publisher: no later turn publishes anything and
  \<open>stop\<close> raises it instead of stopping.
\<close>

theorem rejected_snapshot_ends_publisher:
  assumes "rb_task book = Publishing" and "rb_snapshot book = Some snapshot"
    and "compute_routes (factory (s_version snapshot + 1)) (s_version snapshot + 1) USD = Inl x"
  shows "rb_snapshot (run_once factory book) = Some snapshot \<and>
    quote (run_once factory book) = quote book \<and>
    run_once later (run_once factory book) = run_once factory book \<and>
    stop (run_once factory book) = (Inl x, run_once factory book)"
  using assms by (simp add: run_once_def publish_def stop_def quote_def fun_eq_iff)

definition stale_book :: rate_book where
  "stale_book = \<lparr>rb_snapshot = Some \<lparr>s_version = 0, s_routes = [(PHP, direct_quote)]\<rparr>,
     rb_task = Publishing\<rparr>"

theorem rejected_snapshot_ends_publisher_witness:
  "quote (run_once (\<lambda>_. cycle_edges) stale_book) PHP = Inr direct_quote \<and>
   fst (stop (run_once (\<lambda>_. cycle_edges) stale_book)) = Inl InvalidRateGraph"
  using rejected_snapshot_ends_publisher [of stale_book "\<lparr>s_version = 0, s_routes = [(PHP, direct_quote)]\<rparr>"
      "\<lambda>_. cycle_edges" InvalidRateGraph] cycle_rejected
  by (simp add: stale_book_def quote_def)

end
