(* ===== verification/Models.thy ===== *)
theory Models
  imports Routing
begin

text \<open>
  The tables of \<open>app/models.py\<close> with the constraints of \<open>alembic/versions/0001_initial.py\<close> and
  the triggers of \<open>0002_durable_payout_and_ledger_guards.py\<close>.  Columns \<open>Numeric(24, 8)\<close> and
  \<open>Numeric(32, 8)\<close> are integers in units of \<open>10 ^ -8\<close>; UUIDs are natural numbers that the
  environment supplies; timestamps are integers (microseconds).  The columns \<open>created_at\<close> and
  \<open>updated_at\<close>, which no code reads, are left out.  A statement either returns the new database
  or the error PostgreSQL raises; \<open>transact\<close> runs the statements of a transaction, checks the
  deferred trigger at the commit, and rolls back on any exception.
\<close>

section \<open>Enumerations and rows\<close>

datatype account_class = ASSET | LIABILITY
datatype account_purpose = AVAILABLE | RESERVED | OMNIBUS
datatype posting_side = DEBIT | CREDIT
datatype journal_event = OPENING | RESERVE | CONSUME | RELEASE
datatype settlement_status =
  S_RESERVED | PAYOUT_IN_PROGRESS | SUCCESS | FAILED | PENDING_RECONCILIATION

record account =
  a_id :: nat
  a_owner :: string
  a_currency :: currency
  a_class :: account_class
  a_purpose :: account_purpose
  a_balance :: int

text \<open>The entries of the JSON column \<open>route\<close>.\<close>

record route_hop_json =
  rj_source :: string
  rj_target :: string
  rj_lp :: string
  rj_rate :: string

record settlement =
  st_id :: nat
  st_owner :: string
  st_key :: string
  st_fingerprint :: string
  st_amount :: int
  st_target :: currency
  st_route :: "route_hop_json list"
  st_version :: int
  st_rate :: int
  st_quoted :: int
  st_operation :: nat
  st_status :: settlement_status

record journal =
  j_id :: nat
  j_settlement :: "nat option"
  j_event :: journal_event
  j_posted :: bool

record posting =
  p_id :: nat
  p_journal :: nat
  p_account :: nat
  p_currency :: currency
  p_side :: posting_side
  p_amount :: int

text \<open>The states and outcomes that the code writes into the string columns of an attempt.\<close>

datatype attempt_state = SUBMITTING | RECONCILING | CLAIMED | COMPLETED
datatype attempt_outcome = OutcomePaid | OutcomeUnpaid | OutcomeAmbiguous | OutcomeUnknown

record attempt =
  at_settlement :: nat
  at_operation :: nat
  at_state :: attempt_state
  at_token :: int
  at_lease :: int
  at_outcome :: "attempt_outcome option"
  at_reference :: "string option"

text \<open>\<open>db_inserted\<close>: the journals inserted by the running transaction, whose check is deferred.\<close>

record db =
  db_accounts :: "account list"
  db_settlements :: "settlement list"
  db_journals :: "journal list"
  db_postings :: "posting list"
  db_attempts :: "attempt list"
  db_inserted :: "nat list"

definition empty_db :: db where
  "empty_db = \<lparr>db_accounts = [], db_settlements = [], db_journals = [], db_postings = [],
     db_attempts = [], db_inserted = []\<rparr>"

section \<open>Errors\<close>

text \<open>Errors of the database, and the exceptions of the program (one type for all components).\<close>

datatype db_error =
    UniqueViolation string
  | CheckViolation string
  | ForeignKeyViolation string
  | NumericOverflow
  | StringTooLong

datatype app_error =
    InsufficientFunds
  | LookupError
  | IdempotencyConflict
  | SettlementNotFound
  | StaleAttemptToken
  | PayoutTimeout
  | RateError rate_error
  | AssertionError string
  | RuntimeError string
  | ProviderFailure
  | DatabaseUnavailable
  | DbError db_error

type_synonym statement = "db \<Rightarrow> app_error + db"
type_synonym 'a transaction = "db \<Rightarrow> app_error + 'a \<times> db"

definition check_row :: "bool \<Rightarrow> string \<Rightarrow> app_error + unit" where
  "check_row b name = guard_result b (DbError (CheckViolation name))"

definition unique_row :: "bool \<Rightarrow> string \<Rightarrow> app_error + unit" where
  "unique_row b name = guard_result b (DbError (UniqueViolation name))"

definition foreign_key :: "bool \<Rightarrow> string \<Rightarrow> app_error + unit" where
  "foreign_key b name = guard_result b (DbError (ForeignKeyViolation name))"

definition in_range :: "bool \<Rightarrow> app_error + unit" where
  "in_range b = guard_result b (DbError NumericOverflow)"

definition string_fits :: "nat \<Rightarrow> string \<Rightarrow> bool" where
  "string_fits n s \<longleftrightarrow> length s \<le> n"

definition fits_column :: "bool \<Rightarrow> app_error + unit" where
  "fits_column b = guard_result b (DbError StringTooLong)"

lemmas check_simps = check_row_def unique_row_def foreign_key_def in_range_def fits_column_def

text \<open>All checks of a row in order: the first that fails is raised.\<close>

fun run_checks :: "(app_error + unit) list \<Rightarrow> app_error + unit" where
  "run_checks [] = Inr ()"
| "run_checks (c # cs) = bind_result c (\<lambda>_. run_checks cs)"

section \<open>Stored numbers\<close>

text \<open>PostgreSQL rounds a value to the scale of its column half away from zero.\<close>

definition round_scale :: "int \<Rightarrow> int \<Rightarrow> int" where
  "round_scale m k =
     (if 0 \<le> k then m * 10 ^ nat k
      else sgn m * ((2 * \<bar>m\<bar> + 10 ^ nat (- k)) div (2 * 10 ^ nat (- k))))"

definition numeric_fits :: "nat \<Rightarrow> int \<Rightarrow> bool" where
  "numeric_fits precision n \<longleftrightarrow> \<bar>n\<bar> < 10 ^ precision"

fun to_numeric :: "nat \<Rightarrow> nat \<Rightarrow> decimal \<Rightarrow> app_error + int" where
  "to_numeric precision scale (DFin m e) =
     (let n = round_scale m (e + int scale)
      in if numeric_fits precision n then Inr n else Inl (DbError NumericOverflow))"
| "to_numeric precision scale _ = Inl (DbError NumericOverflow)"

text \<open>A stored number as the driver returns it.\<close>

definition of_numeric :: "int \<Rightarrow> decimal" where
  "of_numeric n = DFin n (- 8)"

definition int4_fits :: "int \<Rightarrow> bool" where
  "int4_fits n \<longleftrightarrow> - (2 ^ 31) \<le> n \<and> n < 2 ^ 31"

definition int8_fits :: "int \<Rightarrow> bool" where
  "int8_fits n \<longleftrightarrow> - (2 ^ 63) \<le> n \<and> n < 2 ^ 63"

section \<open>Statements\<close>

definition find_account :: "nat \<Rightarrow> db \<Rightarrow> account option" where
  "find_account i db = List.find (\<lambda>a. a_id a = i) (db_accounts db)"

definition find_settlement :: "nat \<Rightarrow> db \<Rightarrow> settlement option" where
  "find_settlement i db = List.find (\<lambda>s. st_id s = i) (db_settlements db)"

definition find_journal :: "nat \<Rightarrow> db \<Rightarrow> journal option" where
  "find_journal i db = List.find (\<lambda>j. j_id j = i) (db_journals db)"

definition find_attempt :: "nat \<Rightarrow> db \<Rightarrow> attempt option" where
  "find_attempt i db = List.find (\<lambda>x. at_settlement x = i) (db_attempts db)"

definition account_key :: "account \<Rightarrow> string \<times> currency \<times> account_purpose" where
  "account_key a = (a_owner a, a_currency a, a_purpose a)"

definition insert_account :: "account \<Rightarrow> statement" where
  "insert_account a db = bind_result
     (run_checks
       [in_range (numeric_fits 24 (a_balance a)),
        check_row (0 \<le> a_balance a) ''ck_accounts_balance_nonnegative'',
        unique_row (find_account (a_id a) db = None) ''accounts_pkey'',
        unique_row (account_key a \<notin> account_key ` set (db_accounts db))
          ''accounts_owner_id_currency_purpose_key''])
     (\<lambda>_. Inr (db\<lparr>db_accounts := db_accounts db @ [a]\<rparr>))"

definition update_balance :: "nat \<Rightarrow> int \<Rightarrow> statement" where
  "update_balance i balance db = bind_result
     (run_checks
       [in_range (numeric_fits 24 balance),
        check_row (0 \<le> balance) ''ck_accounts_balance_nonnegative''])
     (\<lambda>_. Inr (db\<lparr>db_accounts :=
        upd_rows (\<lambda>a. a_id a = i) (a_balance_update (\<lambda>_. balance)) (db_accounts db)\<rparr>))"

definition insert_settlement :: "settlement \<Rightarrow> statement" where
  "insert_settlement s db = bind_result
     (run_checks
       [in_range (numeric_fits 24 (st_amount s)),
        in_range (int4_fits (st_version s)),
        in_range (numeric_fits 24 (st_rate s)),
        in_range (numeric_fits 32 (st_quoted s)),
        check_row (0 < st_amount s) ''ck_settlements_amount_positive'',
        check_row (st_operation s = st_id s) ''ck_settlements_provider_operation_matches_id'',
        check_row (0 < st_quoted s) ''ck_settlements_quote_positive'',
        check_row (0 < st_rate s) ''ck_settlements_rate_positive'',
        unique_row (find_settlement (st_id s) db = None) ''settlements_pkey'',
        unique_row ((st_owner s, st_key s) \<notin> (\<lambda>t. (st_owner t, st_key t)) ` set (db_settlements db))
          ''uq_settlements_owner_idempotency_key''])
     (\<lambda>_. Inr (db\<lparr>db_settlements := db_settlements db @ [s]\<rparr>))"

definition update_status :: "nat \<Rightarrow> settlement_status \<Rightarrow> db \<Rightarrow> db" where
  "update_status i status db = db\<lparr>db_settlements :=
     upd_rows (\<lambda>s. st_id s = i) (st_status_update (\<lambda>_. status)) (db_settlements db)\<rparr>"

definition insert_journal :: "journal \<Rightarrow> statement" where
  "insert_journal j db = bind_result
     (run_checks
       [check_row (j_event j = OPENING \<longleftrightarrow> j_settlement j = None)
          ''ck_journal_transactions_event_settlement'',
        unique_row (find_journal (j_id j) db = None) ''journal_transactions_pkey'',
        unique_row (j_settlement j = None \<or>
            (j_settlement j, j_event j) \<notin> (\<lambda>k. (j_settlement k, j_event k)) ` set (db_journals db))
          ''uq_journal_transactions_settlement_event'',
        foreign_key (case j_settlement j of None \<Rightarrow> True | Some i \<Rightarrow> find_settlement i db \<noteq> None)
          ''journal_transactions_settlement_id_fkey''])
     (\<lambda>_. Inr (db\<lparr>db_journals := db_journals db @ [j], db_inserted := db_inserted db @ [j_id j]\<rparr>))"

text \<open>The state and the outcome are constants of the code, which fit their columns; a reference need not.\<close>

definition reference_fits :: "attempt \<Rightarrow> bool" where
  "reference_fits x \<longleftrightarrow> (case at_reference x of None \<Rightarrow> True | Some reference \<Rightarrow> string_fits 64 reference)"

lemma no_reference_fits [simp]: "at_reference x = None \<Longrightarrow> reference_fits x"
  by (simp add: reference_fits_def)

lemma same_reference_fits [simp]:
  "reference_fits (x\<lparr>at_state := state\<rparr>) = reference_fits x"
  "reference_fits (x\<lparr>at_token := token\<rparr>) = reference_fits x"
  "reference_fits (x\<lparr>at_lease := lease\<rparr>) = reference_fits x"
  "reference_fits (x\<lparr>at_outcome := outcome\<rparr>) = reference_fits x"
  by (simp_all add: reference_fits_def)

definition insert_attempt :: "attempt \<Rightarrow> statement" where
  "insert_attempt x db = bind_result
     (run_checks
       [in_range (int8_fits (at_token x)),
        fits_column (reference_fits x),
        check_row (0 < at_token x) ''ck_payout_attempt_token_positive'',
        unique_row (find_attempt (at_settlement x) db = None) ''payout_attempts_pkey'',
        unique_row (at_operation x \<notin> at_operation ` set (db_attempts db))
          ''payout_attempts_operation_id_key'',
        foreign_key (find_settlement (at_settlement x) db \<noteq> None)
          ''payout_attempts_settlement_id_fkey''])
     (\<lambda>_. Inr (db\<lparr>db_attempts := db_attempts db @ [x]\<rparr>))"

definition update_attempt :: "attempt \<Rightarrow> statement" where
  "update_attempt x db = bind_result
     (run_checks
       [in_range (int8_fits (at_token x)),
        fits_column (reference_fits x),
        check_row (0 < at_token x) ''ck_payout_attempt_token_positive'',
        unique_row
          (list_all (\<lambda>y. at_settlement y = at_settlement x \<or> at_operation y \<noteq> at_operation x) (db_attempts db))
          ''payout_attempts_operation_id_key''])
     (\<lambda>_. Inr (db\<lparr>db_attempts :=
        upd_rows (\<lambda>y. at_settlement y = at_settlement x) (\<lambda>_. x) (db_attempts db)\<rparr>))"

section \<open>The journal triggers\<close>

text \<open>A posting's trigger looks at the posted flag of one parent; a missing parent is not posted.\<close>

definition guard_posting_mutation :: "nat \<Rightarrow> db \<Rightarrow> app_error + unit" where
  "guard_posting_mutation parent db =
     check_row (case find_journal parent db of None \<Rightarrow> True | Some j \<Rightarrow> \<not> j_posted j)
       ''posted journal postings are immutable''"

definition insert_posting :: "posting \<Rightarrow> statement" where
  "insert_posting p db = bind_result
     (run_checks
       [in_range (numeric_fits 24 (p_amount p)),
        guard_posting_mutation (p_journal p) db,
        check_row (0 < p_amount p) ''ck_postings_amount_positive'',
        unique_row (p_id p \<notin> p_id ` set (db_postings db)) ''postings_pkey'',
        foreign_key (find_account (p_account p) db \<noteq> None) ''postings_account_id_fkey'',
        foreign_key (find_journal (p_journal p) db \<noteq> None) ''postings_journal_id_fkey''])
     (\<lambda>_. Inr (db\<lparr>db_postings := db_postings db @ [p]\<rparr>))"

text \<open>
  \<open>UPDATE postings SET ... WHERE id = i\<close>: the trigger's parent is \<open>COALESCE(NEW.journal_id,
  OLD.journal_id)\<close>, and \<open>NEW.journal_id\<close> is never null.
\<close>

definition update_posting :: "nat \<Rightarrow> posting \<Rightarrow> statement" where
  "update_posting i new db =
     (if i \<notin> p_id ` set (db_postings db) then Inr db
      else bind_result
        (run_checks
          [in_range (numeric_fits 24 (p_amount new)),
           guard_posting_mutation (p_journal new) db,
           check_row (0 < p_amount new) ''ck_postings_amount_positive'',
           unique_row (p_id new = i \<or> p_id new \<notin> p_id ` set (db_postings db)) ''postings_pkey'',
           foreign_key (find_account (p_account new) db \<noteq> None) ''postings_account_id_fkey'',
           foreign_key (find_journal (p_journal new) db \<noteq> None) ''postings_journal_id_fkey''])
        (\<lambda>_. Inr (db\<lparr>db_postings := upd_rows (\<lambda>p. p_id p = i) (\<lambda>_. new) (db_postings db)\<rparr>)))"

definition delete_posting :: "nat \<Rightarrow> statement" where
  "delete_posting i db =
     (case List.find (\<lambda>p. p_id p = i) (db_postings db) of
        None \<Rightarrow> Inr db
      | Some p \<Rightarrow> bind_result (guard_posting_mutation (p_journal p) db)
          (\<lambda>_. Inr (db\<lparr>db_postings := filter (\<lambda>p. p_id p \<noteq> i) (db_postings db)\<rparr>)))"

text \<open>The only update of a journal that its trigger allows is the transition to posted.\<close>

definition guard_journal_mutation :: "journal \<Rightarrow> journal option \<Rightarrow> app_error + unit" where
  "guard_journal_mutation old new =
     (case new of
        None \<Rightarrow> check_row (\<not> j_posted old) ''posted journals are immutable''
      | Some n \<Rightarrow> run_checks
          [check_row (\<not> j_posted old) ''posted journals are immutable'',
           check_row (j_id n = j_id old \<and> j_settlement n = j_settlement old \<and>
               j_event n = j_event old \<and> j_posted n)
             ''only journal posting transition is allowed''])"

definition update_journal :: "nat \<Rightarrow> journal \<Rightarrow> statement" where
  "update_journal i new db =
     (case find_journal i db of
        None \<Rightarrow> Inr db
      | Some old \<Rightarrow> bind_result (guard_journal_mutation old (Some new))
          (\<lambda>_. Inr (db\<lparr>db_journals := upd_rows (\<lambda>j. j_id j = i) (\<lambda>_. new) (db_journals db)\<rparr>)))"

definition delete_journal :: "nat \<Rightarrow> statement" where
  "delete_journal i db =
     (case find_journal i db of
        None \<Rightarrow> Inr db
      | Some old \<Rightarrow> bind_result
          (run_checks
            [guard_journal_mutation old None,
             foreign_key (i \<notin> p_journal ` set (db_postings db)) ''postings_journal_id_fkey''])
          (\<lambda>_. Inr (db\<lparr>db_journals := filter (\<lambda>j. j_id j \<noteq> i) (db_journals db)\<rparr>)))"

text \<open>Sums of one side of a journal in one currency.\<close>

definition side_total :: "posting_side \<Rightarrow> currency \<Rightarrow> posting list \<Rightarrow> int" where
  "side_total side c ps =
     sum_list (map p_amount (filter (\<lambda>p. p_side p = side \<and> p_currency p = c) ps))"

definition journal_postings :: "nat \<Rightarrow> db \<Rightarrow> posting list" where
  "journal_postings i db = filter (\<lambda>p. p_journal p = i) (db_postings db)"

definition balanced :: "posting list \<Rightarrow> bool" where
  "balanced ps \<longleftrightarrow> list_all (\<lambda>c. side_total DEBIT c ps = side_total CREDIT c ps) Currency_members"

text \<open>
  The deferred check of an inserted journal.  If the row is gone again, \<open>current_posted\<close> is null:
  \<open>IF NOT NULL\<close> does not raise, and the count of its postings decides.
\<close>

definition check_posted_journal :: "nat \<Rightarrow> db \<Rightarrow> app_error + unit" where
  "check_posted_journal i db = run_checks
     [check_row (case find_journal i db of None \<Rightarrow> True | Some j \<Rightarrow> j_posted j)
        ''journal must be posted before commit'',
      check_row (2 \<le> length (journal_postings i db)) ''journal requires at least two postings'',
      check_row (balanced (journal_postings i db)) ''journal is unbalanced'']"

section \<open>Transactions\<close>

definition commit :: statement where
  "commit db = bind_result (run_checks (map (\<lambda>i. check_posted_journal i db) (db_inserted db)))
     (\<lambda>_. Inr (db\<lparr>db_inserted := []\<rparr>))"

text \<open>\<open>async with session.begin()\<close>: commit at the end of the block, roll back on any exception.\<close>

definition transact :: "'a transaction \<Rightarrow> db \<Rightarrow> (app_error + 'a) \<times> db" where
  "transact body db =
     (case body db of
        Inl e \<Rightarrow> (Inl e, db)
      | Inr (a, db') \<Rightarrow>
          (case commit db' of
             Inl e \<Rightarrow> (Inl e, db)
           | Inr db'' \<Rightarrow> (Inr a, db'')))"

end
