(* ===== verification/Schema.thy ===== *)
theory Schema
  imports Models
begin

text \<open>
  What the database promises: when each statement succeeds and what it changes, and the
  declared constraints as one predicate \<open>schema_ok\<close> that every statement keeps.
\<close>

section \<open>Inversion of the statements\<close>

lemma run_checks_Inr [result_simps]: "run_checks cs = Inr u \<longleftrightarrow> list_all (\<lambda>c. c = Inr ()) cs"
  by (induction cs) (auto simp: bind_result_eq_Inr)

lemma find_none_key [table_simps]: "List.find (\<lambda>r. k r = i) t = None \<longleftrightarrow> i \<notin> k ` set t"
  by (induction t) auto

lemma find_some_key [table_simps]: "List.find (\<lambda>r. k r = i) t \<noteq> None \<longleftrightarrow> i \<in> k ` set t"
  by (simp only: find_none_key not_not)

lemma upd_rows_append: "upd_rows P f (t @ u) = upd_rows P f t @ upd_rows P f u"
  by (simp add: upd_rows_def)

lemmas find_row_simps = find_account_def find_settlement_def find_journal_def find_attempt_def

lemma insert_account_Inr [result_simps]:
  "insert_account a db = Inr db' \<longleftrightarrow>
     numeric_fits 24 (a_balance a) \<and> 0 \<le> a_balance a \<and> find_account (a_id a) db = None \<and>
     account_key a \<notin> account_key ` set (db_accounts db) \<and>
     db' = db\<lparr>db_accounts := db_accounts db @ [a]\<rparr>"
  by (auto simp: insert_account_def check_simps result_simps)

lemma update_balance_Inr [result_simps]:
  "update_balance i b db = Inr db' \<longleftrightarrow> numeric_fits 24 b \<and> 0 \<le> b \<and>
     db' = db\<lparr>db_accounts := upd_rows (\<lambda>a. a_id a = i) (a_balance_update (\<lambda>_. b)) (db_accounts db)\<rparr>"
  by (auto simp: update_balance_def check_simps result_simps)

lemma insert_settlement_Inr [result_simps]:
  "insert_settlement s db = Inr db' \<longleftrightarrow>
     numeric_fits 24 (st_amount s) \<and> int4_fits (st_version s) \<and> numeric_fits 24 (st_rate s) \<and>
     numeric_fits 32 (st_quoted s) \<and> 0 < st_amount s \<and> st_operation s = st_id s \<and>
     0 < st_quoted s \<and> 0 < st_rate s \<and> find_settlement (st_id s) db = None \<and>
     (st_owner s, st_key s) \<notin> (\<lambda>t. (st_owner t, st_key t)) ` set (db_settlements db) \<and>
     db' = db\<lparr>db_settlements := db_settlements db @ [s]\<rparr>"
  by (auto simp: insert_settlement_def check_simps result_simps)

lemma insert_journal_Inr [result_simps]:
  "insert_journal j db = Inr db' \<longleftrightarrow>
     (j_event j = OPENING \<longleftrightarrow> j_settlement j = None) \<and> find_journal (j_id j) db = None \<and>
     (j_settlement j = None \<or>
        (j_settlement j, j_event j) \<notin> (\<lambda>k. (j_settlement k, j_event k)) ` set (db_journals db)) \<and>
     (case j_settlement j of None \<Rightarrow> True | Some i \<Rightarrow> find_settlement i db \<noteq> None) \<and>
     db' = db\<lparr>db_journals := db_journals db @ [j], db_inserted := db_inserted db @ [j_id j]\<rparr>"
  by (auto simp: insert_journal_def check_simps result_simps)

lemma insert_attempt_Inr [result_simps]:
  "insert_attempt x db = Inr db' \<longleftrightarrow>
     int8_fits (at_token x) \<and> reference_fits x \<and> 0 < at_token x \<and> find_attempt (at_settlement x) db = None \<and>
     at_operation x \<notin> at_operation ` set (db_attempts db) \<and>
     find_settlement (at_settlement x) db \<noteq> None \<and>
     db' = db\<lparr>db_attempts := db_attempts db @ [x]\<rparr>"
  by (auto simp: insert_attempt_def check_simps result_simps)

lemma update_attempt_Inr [result_simps]:
  "update_attempt x db = Inr db' \<longleftrightarrow> int8_fits (at_token x) \<and> reference_fits x \<and> 0 < at_token x \<and>
     (\<forall>y \<in> set (db_attempts db). at_settlement y = at_settlement x \<or> at_operation y \<noteq> at_operation x) \<and>
     db' = db\<lparr>db_attempts :=
       upd_rows (\<lambda>y. at_settlement y = at_settlement x) (\<lambda>_. x) (db_attempts db)\<rparr>"
  by (auto simp: update_attempt_def check_simps result_simps list_all_iff)

lemma guard_posting_Inr [result_simps]:
  "guard_posting_mutation i db = Inr u \<longleftrightarrow>
     (case find_journal i db of None \<Rightarrow> True | Some j \<Rightarrow> \<not> j_posted j)"
  by (auto simp: guard_posting_mutation_def check_simps result_simps)

lemma insert_posting_Inr [result_simps]:
  "insert_posting p db = Inr db' \<longleftrightarrow>
     numeric_fits 24 (p_amount p) \<and> 0 < p_amount p \<and> p_id p \<notin> p_id ` set (db_postings db) \<and>
     find_account (p_account p) db \<noteq> None \<and>
     (\<exists>j. find_journal (p_journal p) db = Some j \<and> \<not> j_posted j) \<and>
     db' = db\<lparr>db_postings := db_postings db @ [p]\<rparr>"
  by (auto simp: insert_posting_def check_simps result_simps split: option.splits)

lemma update_posting_Inr [result_simps]:
  "update_posting i new db = Inr db' \<longleftrightarrow>
     (if i \<notin> p_id ` set (db_postings db) then db' = db
      else numeric_fits 24 (p_amount new) \<and> 0 < p_amount new \<and>
        (p_id new = i \<or> p_id new \<notin> p_id ` set (db_postings db)) \<and>
        find_account (p_account new) db \<noteq> None \<and>
        (\<exists>j. find_journal (p_journal new) db = Some j \<and> \<not> j_posted j) \<and>
        db' = db\<lparr>db_postings := upd_rows (\<lambda>p. p_id p = i) (\<lambda>_. new) (db_postings db)\<rparr>)"
  by (auto simp: update_posting_def check_simps result_simps split: option.splits)

lemma delete_posting_Inr [result_simps]:
  "delete_posting i db = Inr db' \<longleftrightarrow>
     (case List.find (\<lambda>p. p_id p = i) (db_postings db) of
        None \<Rightarrow> db' = db
      | Some p \<Rightarrow> (case find_journal (p_journal p) db of None \<Rightarrow> True | Some j \<Rightarrow> \<not> j_posted j) \<and>
          db' = db\<lparr>db_postings := filter (\<lambda>p. p_id p \<noteq> i) (db_postings db)\<rparr>)"
  by (auto simp: delete_posting_def result_simps split: option.split)

lemma update_journal_Inr [result_simps]:
  "update_journal i new db = Inr db' \<longleftrightarrow>
     (case find_journal i db of
        None \<Rightarrow> db' = db
      | Some old \<Rightarrow> \<not> j_posted old \<and> new = old\<lparr>j_posted := True\<rparr> \<and>
          db' = db\<lparr>db_journals := upd_rows (\<lambda>j. j_id j = i) (\<lambda>_. new) (db_journals db)\<rparr>)"
  by (auto simp: update_journal_def guard_journal_mutation_def check_simps result_simps
      split: option.split)

lemma delete_journal_Inr [result_simps]:
  "delete_journal i db = Inr db' \<longleftrightarrow>
     (case find_journal i db of
        None \<Rightarrow> db' = db
      | Some old \<Rightarrow> \<not> j_posted old \<and> i \<notin> p_journal ` set (db_postings db) \<and>
          db' = db\<lparr>db_journals := filter (\<lambda>j. j_id j \<noteq> i) (db_journals db)\<rparr>)"
  by (auto simp: delete_journal_def guard_journal_mutation_def check_simps result_simps
      split: option.split)

lemma check_posted_journal_Inr [result_simps]:
  "check_posted_journal i db = Inr u \<longleftrightarrow>
     (case find_journal i db of None \<Rightarrow> True | Some j \<Rightarrow> j_posted j) \<and>
     2 \<le> length (journal_postings i db) \<and> balanced (journal_postings i db)"
  by (auto simp: check_posted_journal_def check_simps result_simps)

lemma commit_Inr [result_simps]:
  "commit db = Inr db' \<longleftrightarrow>
     (\<forall>i \<in> set (db_inserted db). check_posted_journal i db = Inr ()) \<and> db' = db\<lparr>db_inserted := []\<rparr>"
  by (auto simp: commit_def result_simps list_all_iff)

lemma transact_Inr [result_simps]:
  "transact body db = (Inr a, db') \<longleftrightarrow>
     (\<exists>mid. body db = Inr (a, mid) \<and> commit mid = Inr db')"
  by (auto simp: transact_def split: sum.splits prod.splits)

lemma transact_Inl: "fst (transact body db) = Inl e \<Longrightarrow> snd (transact body db) = db"
  by (auto simp: transact_def split: sum.splits prod.splits)

section \<open>The constraints\<close>

definition accounts_ok :: "db \<Rightarrow> bool" where
  "accounts_ok db \<longleftrightarrow> distinct (map a_id (db_accounts db)) \<and>
     distinct (map account_key (db_accounts db)) \<and>
     (\<forall>a \<in> set (db_accounts db). numeric_fits 24 (a_balance a) \<and> 0 \<le> a_balance a)"

definition settlements_ok :: "db \<Rightarrow> bool" where
  "settlements_ok db \<longleftrightarrow> distinct (map st_id (db_settlements db)) \<and>
     distinct (map (\<lambda>s. (st_owner s, st_key s)) (db_settlements db)) \<and>
     (\<forall>s \<in> set (db_settlements db). 0 < st_amount s \<and> 0 < st_rate s \<and> 0 < st_quoted s \<and>
        st_operation s = st_id s \<and> numeric_fits 24 (st_amount s) \<and> numeric_fits 24 (st_rate s) \<and>
        numeric_fits 32 (st_quoted s) \<and> int4_fits (st_version s))"

definition journals_ok :: "db \<Rightarrow> bool" where
  "journals_ok db \<longleftrightarrow> distinct (map j_id (db_journals db)) \<and>
     distinct (map (\<lambda>j. (j_settlement j, j_event j)) (filter (\<lambda>j. j_settlement j \<noteq> None) (db_journals db))) \<and>
     (\<forall>j \<in> set (db_journals db). (j_event j = OPENING \<longleftrightarrow> j_settlement j = None) \<and>
        (\<forall>i. j_settlement j = Some i \<longrightarrow> i \<in> st_id ` set (db_settlements db)))"

definition postings_ok :: "db \<Rightarrow> bool" where
  "postings_ok db \<longleftrightarrow> distinct (map p_id (db_postings db)) \<and>
     (\<forall>p \<in> set (db_postings db). numeric_fits 24 (p_amount p) \<and> 0 < p_amount p \<and>
        p_account p \<in> a_id ` set (db_accounts db) \<and> p_journal p \<in> j_id ` set (db_journals db))"

definition attempts_ok :: "db \<Rightarrow> bool" where
  "attempts_ok db \<longleftrightarrow> distinct (map at_settlement (db_attempts db)) \<and>
     distinct (map at_operation (db_attempts db)) \<and>
     (\<forall>x \<in> set (db_attempts db). int8_fits (at_token x) \<and> reference_fits x \<and> 0 < at_token x \<and>
        at_settlement x \<in> st_id ` set (db_settlements db))"

definition schema_ok :: "db \<Rightarrow> bool" where
  "schema_ok db \<longleftrightarrow> accounts_ok db \<and> settlements_ok db \<and> journals_ok db \<and> postings_ok db \<and> attempts_ok db"

lemmas schema_defs = schema_ok_def accounts_ok_def settlements_ok_def journals_ok_def
  postings_ok_def attempts_ok_def

lemma empty_schema: "schema_ok empty_db"
  by (simp add: schema_defs empty_db_def)

section \<open>Every statement keeps the constraints\<close>

lemma upd_accounts_keys [table_simps]:
  "map a_id (upd_rows P (a_balance_update f) t) = map a_id t"
  "map account_key (upd_rows P (a_balance_update f) t) = map account_key t"
  "a_id ` set (upd_rows P (a_balance_update f) t) = a_id ` set t"
  by (simp_all add: map_upd_rows image_upd_rows account_key_def)

lemma upd_status_keys [table_simps]:
  "map st_id (upd_rows P (st_status_update f) t) = map st_id t"
  "map (\<lambda>s. (st_owner s, st_key s)) (upd_rows P (st_status_update f) t) = map (\<lambda>s. (st_owner s, st_key s)) t"
  "st_id ` set (upd_rows P (st_status_update f) t) = st_id ` set t"
  by (simp_all add: map_upd_rows image_upd_rows)

lemma schema_insert_account:
  "schema_ok db \<Longrightarrow> insert_account a db = Inr db' \<Longrightarrow> schema_ok db'"
  by (auto simp: result_simps schema_defs find_row_simps table_simps)

lemma schema_update_balance:
  "schema_ok db \<Longrightarrow> update_balance i b db = Inr db' \<Longrightarrow> schema_ok db'"
  by (auto simp: result_simps schema_defs table_simps)

lemma schema_insert_settlement:
  "schema_ok db \<Longrightarrow> insert_settlement s db = Inr db' \<Longrightarrow> schema_ok db'"
  by (auto simp: result_simps schema_defs find_row_simps table_simps)

lemma schema_update_status: "schema_ok db \<Longrightarrow> schema_ok (update_status i status db)"
  by (auto simp: schema_defs update_status_def table_simps)

lemma schema_insert_journal:
  "schema_ok db \<Longrightarrow> insert_journal j db = Inr db' \<Longrightarrow> schema_ok db'"
  by (auto simp: result_simps schema_defs find_row_simps table_simps split: option.splits)

lemma schema_insert_attempt:
  "schema_ok db \<Longrightarrow> insert_attempt x db = Inr db' \<Longrightarrow> schema_ok db'"
  by (auto simp: result_simps schema_defs find_row_simps table_simps)

lemma find_journal_row: "find_journal i db = Some j \<Longrightarrow> j \<in> set (db_journals db) \<and> j_id j = i"
  by (auto simp: find_journal_def dest: find_Some_set)

lemma find_journal_id: "find_journal i db = Some j \<Longrightarrow> i \<in> j_id ` set (db_journals db)"
  by (auto dest: find_journal_row)

lemma schema_insert_posting:
  "schema_ok db \<Longrightarrow> insert_posting p db = Inr db' \<Longrightarrow> schema_ok db'"
  by (auto simp: result_simps schema_defs find_account_def table_simps dest!: find_journal_id)

lemma upd_rows_replace_distinct:
  assumes "distinct (map k t)" and "k r = i \<or> k r \<notin> k ` set t"
  shows "distinct (map k (upd_rows (\<lambda>x. k x = i) (\<lambda>_. r) t))"
proof -
  have sub: "k ` set (upd_rows (\<lambda>x. k x = i) (\<lambda>_. r) u) \<subseteq> insert (k r) (k ` set u)" for u
    by (auto simp: set_upd_rows)
  have same: "upd_rows (\<lambda>x. k x = i) (\<lambda>_. r) u = u" if "i \<notin> k ` set u" for u
    using that by (intro upd_rows_none) auto
  show ?thesis using assms
  proof (induction t)
    case (Cons x t)
    show ?case
    proof (cases "k x = i")
      case True
      with Cons.prems same [of t] show ?thesis by auto
    next
      case False
      with Cons sub [of t] show ?thesis by auto
    qed
  qed simp
qed

lemma schema_update_posting:
  assumes "schema_ok db" and "update_posting i new db = Inr db'"
  shows "schema_ok db'"
proof (cases "i \<in> p_id ` set (db_postings db)")
  case True
  with assms show ?thesis
    by (auto simp: result_simps schema_defs find_account_def table_simps
        upd_rows_replace_distinct dest!: find_journal_id)
qed (use assms in \<open>simp add: result_simps\<close>)

lemma schema_delete_posting:
  "schema_ok db \<Longrightarrow> delete_posting i db = Inr db' \<Longrightarrow> schema_ok db'"
  by (auto simp: result_simps schema_defs distinct_map_filter split: option.splits)

lemma upd_rows_posted:
  assumes "distinct (map j_id t)" and "List.find (\<lambda>j. j_id j = i) t = Some old"
  shows "upd_rows (\<lambda>j. j_id j = i) (\<lambda>_. old\<lparr>j_posted := True\<rparr>) t
       = upd_rows (\<lambda>j. j_id j = i) (j_posted_update (\<lambda>_. True)) t"
proof -
  have "j = old" if "j \<in> set t" "j_id j = i" for j
    using find_key_unique [OF assms(1) that] assms(2) by simp
  then show ?thesis by (auto simp: upd_rows_def)
qed

lemma upd_posted_keys [table_simps]:
  "map j_id (upd_rows P (j_posted_update f) t) = map j_id t"
  "map (\<lambda>j. (j_settlement j, j_event j)) (upd_rows P (j_posted_update f) t)
     = map (\<lambda>j. (j_settlement j, j_event j)) t"
  "j_id ` set (upd_rows P (j_posted_update f) t) = j_id ` set t"
  by (simp_all add: map_upd_rows image_upd_rows)

lemma filter_upd_posted [table_simps]:
  "filter (\<lambda>j. \<exists>i. j_settlement j = Some i) (upd_rows P (j_posted_update f) t)
     = upd_rows P (j_posted_update f) (filter (\<lambda>j. \<exists>i. j_settlement j = Some i) t)"
  by (rule filter_upd_rows) simp

lemma update_journal_eq:
  assumes "schema_ok db" and "update_journal i new db = Inr db'"
  shows "db' = db \<or> (\<exists>old. find_journal i db = Some old \<and> \<not> j_posted old \<and> new = old\<lparr>j_posted := True\<rparr> \<and>
     db' = db\<lparr>db_journals := upd_rows (\<lambda>j. j_id j = i) (j_posted_update (\<lambda>_. True)) (db_journals db)\<rparr>)"
  using assms upd_rows_posted [of "db_journals db" i]
  by (auto simp: result_simps schema_defs find_journal_def split: option.splits)

lemma schema_update_journal:
  assumes "schema_ok db" and "update_journal i new db = Inr db'"
  shows "schema_ok db'"
  using update_journal_eq [OF assms] assms(1)
  by (elim disjE exE conjE) (auto simp: schema_defs table_simps)

lemma distinct_filter_conj:
  "distinct (map f (filter Q xs)) \<Longrightarrow> distinct (map f (filter (\<lambda>x. P x \<and> Q x) xs))"
  by (induction xs) (auto split: if_splits)

lemma key_kept: "a \<in> k ` set t \<Longrightarrow> a \<noteq> i \<Longrightarrow> a \<in> k ` set (filter (\<lambda>x. k x \<noteq> i) t)"
  by auto

lemma schema_delete_journal:
  assumes "schema_ok db" and "delete_journal i db = Inr db'"
  shows "schema_ok db'"
proof (cases "find_journal i db")
  case (Some old)
  then have db': "i \<notin> p_journal ` set (db_postings db)"
    "db' = db\<lparr>db_journals := filter (\<lambda>j. j_id j \<noteq> i) (db_journals db)\<rparr>"
    using assms(2) by (simp_all add: result_simps)
  have "journals_ok db'"
    using assms(1) by (auto simp: db'(2) schema_ok_def journals_ok_def settlements_ok_def
        distinct_map_filter conj_commute distinct_filter_conj)
  moreover have "p_journal p \<in> j_id ` set (db_journals db')" if "p \<in> set (db_postings db)" for p
    using key_kept [of "p_journal p" j_id "db_journals db" i] that assms(1) db'(1)
    by (auto simp: schema_defs db'(2))
  then have "postings_ok db'"
    using assms(1) by (auto simp: schema_ok_def postings_ok_def db'(2) simp del: set_filter)
  ultimately show ?thesis
    using assms(1) by (simp add: schema_ok_def accounts_ok_def settlements_ok_def attempts_ok_def db'(2))
qed (use assms in \<open>simp add: result_simps\<close>)

lemma upd_attempt_keys:
  "map at_settlement (upd_rows (\<lambda>y. at_settlement y = at_settlement x) (\<lambda>_. x) t) = map at_settlement t"
  by (auto simp: upd_rows_def)

lemma upd_attempt_operations:
  assumes "distinct (map at_settlement t)" and "distinct (map at_operation t)"
    and "\<forall>y \<in> set t. at_settlement y = at_settlement x \<or> at_operation y \<noteq> at_operation x"
  shows "distinct (map at_operation (upd_rows (\<lambda>y. at_settlement y = at_settlement x) (\<lambda>_. x) t))"
  using assms
proof (induction t)
  case (Cons y t)
  show ?case
  proof (cases "at_settlement y = at_settlement x")
    case True
    have other: "at_settlement z \<noteq> at_settlement x" if "z \<in> set t" for z
      using Cons.prems(1) True that by (auto simp: rev_image_eqI)
    then have "upd_rows (\<lambda>y. at_settlement y = at_settlement x) (\<lambda>_. x) t = t"
      by (rule upd_rows_none)
    with True Cons.prems other show ?thesis by auto
  next
    case False
    with Cons show ?thesis by (auto simp: set_upd_rows)
  qed
qed simp

lemma schema_update_attempt:
  assumes "schema_ok db" and "update_attempt x db = Inr db'"
  shows "schema_ok db'"
proof -
  have "\<forall>y \<in> set (db_attempts db). at_settlement y \<in> st_id ` set (db_settlements db)"
    using assms(1) by (simp add: schema_defs)
  then have "\<forall>y \<in> set (upd_rows (\<lambda>y. at_settlement y = at_settlement x) (\<lambda>_. x) (db_attempts db)).
      at_settlement y \<in> st_id ` set (db_settlements db)"
    unfolding ball_upd_rows by (metis (mono_tags))
  then show ?thesis
    using assms upd_attempt_operations [of "db_attempts db" x]
    by (auto simp: result_simps schema_defs upd_attempt_keys set_upd_rows)
qed

lemma schema_commit: "schema_ok db \<Longrightarrow> commit db = Inr db' \<Longrightarrow> schema_ok db'"
  by (auto simp: result_simps schema_defs)

end
