(* ===== verification/Journal_Guards.thy ===== *)
theory Journal_Guards
  imports Schema
begin

text \<open>
  What the triggers of migration \<open>0002_durable_guards\<close> guarantee against any client of the
  database: a transaction is an arbitrary script of statements, committed or rolled back.
  Journal rows are immutable once posted and a new journal commits only when it is posted and
  balanced.  The postings of a posted journal never change in place and none is added; but an
  update that moves a posting to an open journal passes the guard.
\<close>

section \<open>Scripts\<close>

datatype sql =
    InsertAccount account
  | UpdateBalance nat int
  | InsertSettlement settlement
  | UpdateStatus nat settlement_status
  | InsertJournal journal
  | UpdateJournal nat journal
  | DeleteJournal nat
  | InsertPosting posting
  | UpdatePosting nat posting
  | DeletePosting nat
  | InsertAttempt attempt
  | UpdateAttempt attempt

fun run_sql :: "sql \<Rightarrow> statement" where
  "run_sql (InsertAccount a) db = insert_account a db"
| "run_sql (UpdateBalance i b) db = update_balance i b db"
| "run_sql (InsertSettlement s) db = insert_settlement s db"
| "run_sql (UpdateStatus i st) db = Inr (update_status i st db)"
| "run_sql (InsertJournal j) db = insert_journal j db"
| "run_sql (UpdateJournal i j) db = update_journal i j db"
| "run_sql (DeleteJournal i) db = delete_journal i db"
| "run_sql (InsertPosting p) db = insert_posting p db"
| "run_sql (UpdatePosting i p) db = update_posting i p db"
| "run_sql (DeletePosting i) db = delete_posting i db"
| "run_sql (InsertAttempt x) db = insert_attempt x db"
| "run_sql (UpdateAttempt x) db = update_attempt x db"

fun run_script :: "sql list \<Rightarrow> unit transaction" where
  "run_script [] db = Inr ((), db)"
| "run_script (q # qs) db = bind_result (run_sql q db) (run_script qs)"

text \<open>What every statement keeps, a committed script keeps.\<close>

lemma run_script_invariant:
  assumes "run_script qs db = Inr (u, db')" and "P db"
    and "\<And>q db db'. q \<in> set qs \<Longrightarrow> run_sql q db = Inr db' \<Longrightarrow> P db \<Longrightarrow> P db'"
  shows "P db'"
  using assms
proof (induction qs arbitrary: db)
  case (Cons q qs)
  then obtain db1 where "run_sql q db = Inr db1" "run_script qs db1 = Inr (u, db')"
    by (auto simp: result_simps)
  with Cons show ?case by (meson list.set_intros)
qed simp

lemma committed_script:
  assumes "transact (run_script qs) db = (Inr u, db')"
  obtains mid where "run_script qs db = Inr (u, mid)" and "commit mid = Inr db'"
    and "db' = mid\<lparr>db_inserted := []\<rparr>"
  using assms by (auto simp: result_simps)

lemma rolled_back: "transact body db = (Inl e, db') \<Longrightarrow> db' = db"
  using transact_Inl [of body db e] by simp

section \<open>Constraints\<close>

lemma schema_run_sql:
  assumes "run_sql q db = Inr db'" and "schema_ok db"
  shows "schema_ok db'"
  using assms
  by (cases q) (auto intro: schema_insert_account schema_update_balance
      schema_insert_settlement schema_update_status schema_insert_journal schema_update_journal
      schema_delete_journal schema_insert_posting schema_update_posting schema_delete_posting
      schema_insert_attempt schema_update_attempt)

lemma schema_script: "run_script qs db = Inr (u, db') \<Longrightarrow> schema_ok db \<Longrightarrow> schema_ok db'"
  by (erule run_script_invariant) (auto intro: schema_run_sql)

section \<open>Posted journals\<close>

lemma posted_row_kept:
  assumes "run_sql q db = Inr db'" and "schema_ok db"
    and "j \<in> set (db_journals db)" and "j_posted j"
  shows "j \<in> set (db_journals db')"
proof -
  have find: "find_journal (j_id j) db = Some j"
    using assms(2,3) by (auto simp: schema_defs find_journal_def intro: find_key_unique)
  show ?thesis
    using assms find
    by (cases q) (auto simp: result_simps update_status_def upd_rows_def image_iff
        split: option.splits if_splits)
qed

text \<open>No statement adds a posting to a posted journal or changes one of its postings in place.\<close>

lemma posted_postings_shrink:
  assumes "run_sql q db = Inr db'" and "schema_ok db"
    and "j \<in> set (db_journals db)" and "j_posted j"
  shows "set (journal_postings (j_id j) db') \<subseteq> set (journal_postings (j_id j) db)"
proof -
  have find: "find_journal (j_id j) db = Some j"
    using assms(2,3) by (auto simp: schema_defs find_journal_def intro: find_key_unique)
  show ?thesis
    using assms(1,4) find
    by (cases q) (auto simp: result_simps update_status_def journal_postings_def set_upd_rows
        split: option.splits if_splits)
qed

text \<open>If no update addresses one of its postings, none is removed either.\<close>

lemma posted_postings_kept:
  assumes "run_sql q db = Inr db'" and "schema_ok db"
    and "j \<in> set (db_journals db)" and "j_posted j"
    and "\<And>i new. q = UpdatePosting i new \<Longrightarrow> i \<notin> p_id ` set (journal_postings (j_id j) db)"
  shows "set (journal_postings (j_id j) db') = set (journal_postings (j_id j) db)"
proof -
  have find: "find_journal (j_id j) db = Some j"
    using assms(2,3) by (auto simp: schema_defs find_journal_def intro: find_key_unique)
  have pid: "distinct (map p_id (db_postings db))" using assms(2) by (simp add: schema_defs)
  have "set (journal_postings (j_id j) db) \<subseteq> set (journal_postings (j_id j) db')"
    using assms(1,4,5) find pid
    by (cases q) (auto simp: result_simps update_status_def journal_postings_def set_upd_rows
        image_iff find_key_unique split: option.splits if_splits)
  with posted_postings_shrink [OF assms(1-4)] show ?thesis by blast
qed

lemma transact_result: "snd (transact (run_script qs) db) = db \<or>
   (\<exists>u mid. run_script qs db = Inr (u, mid) \<and> snd (transact (run_script qs) db) = mid\<lparr>db_inserted := []\<rparr>)"
  by (auto simp: transact_def commit_Inr split: sum.splits prod.splits)

lemma journal_postings_inserted [simp]: "journal_postings i (db\<lparr>db_inserted := xs\<rparr>) = journal_postings i db"
  by (simp add: journal_postings_def)

section \<open>New journals\<close>

text \<open>The running transaction's inserted journals are the only new ones.\<close>

lemma new_journals_inserted:
  assumes "run_sql q db = Inr db'"
    and "j_id ` set (db_journals db) \<subseteq> old \<union> set (db_inserted db)"
  shows "j_id ` set (db_journals db') \<subseteq> old \<union> set (db_inserted db')"
  using assms
  by (cases q) (auto simp: result_simps update_status_def set_upd_rows image_subset_iff
      dest: find_journal_row split: option.splits if_splits)

lemma committed_new_journal:
  assumes "run_script qs db = Inr (u, mid)" and "commit mid = Inr db'" and "schema_ok db"
    and "j \<in> set (db_journals db')" and "j_id j \<notin> j_id ` set (db_journals db)"
  shows "j_posted j \<and> 2 \<le> length (journal_postings (j_id j) db') \<and> balanced (journal_postings (j_id j) db')"
proof -
  have "j_id ` set (db_journals mid) \<subseteq> j_id ` set (db_journals db) \<union> set (db_inserted mid)"
    by (rule run_script_invariant [OF assms(1)]) (auto dest: new_journals_inserted)
  moreover have db': "db' = mid\<lparr>db_inserted := []\<rparr>" using assms(2) by (simp add: commit_Inr)
  ultimately have "j_id j \<in> set (db_inserted mid)" using assms(4,5) by auto
  with assms(2) have check: "check_posted_journal (j_id j) mid = Inr ()" by (simp add: commit_Inr)
  have "schema_ok mid" using schema_script assms(1,3) by blast
  with assms(4) have "find_journal (j_id j) mid = Some j"
    by (auto simp: db' schema_defs find_journal_def intro: find_key_unique)
  with check show ?thesis
    by (simp add: check_posted_journal_Inr db' journal_postings_def)
qed

section \<open>Properties\<close>

definition demo_journal :: "nat \<Rightarrow> journal" where
  "demo_journal i = \<lparr>j_id = i, j_settlement = None, j_event = OPENING, j_posted = False\<rparr>"

definition demo_account :: "nat \<Rightarrow> string \<Rightarrow> account_class \<Rightarrow> account_purpose \<Rightarrow> account" where
  "demo_account i owner class purpose =
     \<lparr>a_id = i, a_owner = owner, a_currency = USD, a_class = class, a_purpose = purpose, a_balance = 0\<rparr>"

definition demo_posting :: "nat \<Rightarrow> nat \<Rightarrow> nat \<Rightarrow> posting_side \<Rightarrow> posting" where
  "demo_posting i journal acct side =
     \<lparr>p_id = i, p_journal = journal, p_account = acct, p_currency = USD, p_side = side, p_amount = 100\<rparr>"

text \<open>Two accounts and one balanced journal, posted.\<close>

definition opening_script :: "sql list" where
  "opening_script =
     [InsertAccount (demo_account 1 ''system'' ASSET OMNIBUS),
      InsertAccount (demo_account 2 ''alice'' LIABILITY AVAILABLE),
      InsertJournal (demo_journal 10),
      InsertPosting (demo_posting 20 10 1 DEBIT), InsertPosting (demo_posting 21 10 2 CREDIT),
      UpdateJournal 10 ((demo_journal 10)\<lparr>j_posted := True\<rparr>)]"

definition opened_db :: db where
  "opened_db = snd (transact (run_script opening_script) empty_db)"

lemma opened: "transact (run_script opening_script) empty_db = (Inr (), opened_db)"
proof -
  have "fst (transact (run_script opening_script) empty_db) = Inr ()" by code_simp
  then show ?thesis by (simp add: opened_db_def prod_eq_iff)
qed

lemma opened_db_schema: "schema_ok opened_db"
  using committed_script [OF opened] by (metis empty_schema schema_commit schema_script)

lemma opened_journals: "db_journals opened_db = [(demo_journal 10)\<lparr>j_posted := True\<rparr>]"
  unfolding opened_db_def by code_simp

lemma opened_postings: "db_postings opened_db = [demo_posting 20 10 1 DEBIT, demo_posting 21 10 2 CREDIT]"
  unfolding opened_db_def by code_simp

text \<open>
  A committed transaction leaves every journal it created posted, with at least two postings
  and with equal debits and credits in each currency.
\<close>

lemma committed_journals_balanced:
  assumes "transact (run_script qs) db = (Inr u, db')" and "schema_ok db"
    and "j \<in> set (db_journals db')" and "j_id j \<notin> j_id ` set (db_journals db)"
  shows "j_posted j \<and> 2 \<le> length (journal_postings (j_id j) db') \<and>
    (\<forall>c. side_total DEBIT c (journal_postings (j_id j) db') = side_total CREDIT c (journal_postings (j_id j) db'))"
proof -
  obtain mid where "run_script qs db = Inr (u, mid)" "commit mid = Inr db'"
    using assms(1) by (auto elim: committed_script)
  from committed_new_journal [OF this assms(2-4)]
  show ?thesis using currency_UNIV by (auto simp: balanced_def list_all_iff)
qed

text \<open>
  C27: no transaction changes or deletes the row of a posted journal, adds a posting to it or
  changes one of its postings in place.
\<close>

theorem posted_journals_immutable:
  assumes "schema_ok db" and "j \<in> set (db_journals db)" and "j_posted j"
  shows "j \<in> set (db_journals (snd (transact (run_script qs) db))) \<and>
    set (journal_postings (j_id j) (snd (transact (run_script qs) db))) \<subseteq> set (journal_postings (j_id j) db)"
proof -
  let ?P = "\<lambda>d. schema_ok d \<and> j \<in> set (db_journals d) \<and>
    set (journal_postings (j_id j) d) \<subseteq> set (journal_postings (j_id j) db)"
  have "?P mid" if "run_script qs db = Inr (u, mid)" for u mid
    using that assms
    by (rule_tac run_script_invariant [where P = ?P])
      (auto intro: schema_run_sql posted_row_kept dest: posted_postings_shrink)
  with transact_result [of qs db] assms(2) show ?thesis by auto
qed

theorem posted_journals_immutable_witness:
  "(demo_journal 10)\<lparr>j_posted := True\<rparr> \<in> set (db_journals
     (snd (transact (run_script [DeleteJournal 10]) opened_db)))"
  using posted_journals_immutable [OF opened_db_schema, of "(demo_journal 10)\<lparr>j_posted := True\<rparr>"]
  by (simp add: opened_journals)

text \<open>
  If no statement of the transaction updates a posting of the posted journal, the set of its
  postings stays exactly the same: a deletion of one of them fails the transaction.
\<close>

lemma posted_postings_immutable:
  assumes "schema_ok db" and "j \<in> set (db_journals db)" and "j_posted j"
    and "\<forall>i new. UpdatePosting i new \<in> set qs \<longrightarrow> i \<notin> p_id ` set (journal_postings (j_id j) db)"
  shows "set (journal_postings (j_id j) (snd (transact (run_script qs) db))) = set (journal_postings (j_id j) db)"
proof -
  let ?P = "\<lambda>d. schema_ok d \<and> j \<in> set (db_journals d) \<and>
    set (journal_postings (j_id j) d) = set (journal_postings (j_id j) db)"
  have "?P mid" if "run_script qs db = Inr (u, mid)" for u mid
    using that
  proof (rule run_script_invariant)
    fix q d d' assume q: "q \<in> set qs" "run_sql q d = Inr d'" "?P d"
    then have "set (journal_postings (j_id j) d') = set (journal_postings (j_id j) d)"
      using assms(3,4) by (intro posted_postings_kept) auto
    with q assms(3) show "?P d'" by (auto intro: schema_run_sql posted_row_kept)
  qed (use assms in simp)
  with transact_result [of qs db] show ?thesis by auto
qed

text \<open>
  The guard of postings looks only at the new parent of an updated posting.  A transaction that
  opens a second journal can move all postings of a posted journal there.
\<close>

definition move_postings :: "nat \<Rightarrow> posting list \<Rightarrow> sql list" where
  "move_postings k ps = map (\<lambda>p. UpdatePosting (p_id p) (p\<lparr>p_journal := k\<rparr>)) ps"

definition moving_script :: "nat \<Rightarrow> posting list \<Rightarrow> sql list" where
  "moving_script k ps =
     InsertJournal (demo_journal k) # move_postings k ps @ [UpdateJournal k ((demo_journal k)\<lparr>j_posted := True\<rparr>)]"

definition moved :: "nat \<Rightarrow> nat set \<Rightarrow> posting list \<Rightarrow> posting list" where
  "moved k ids = map (\<lambda>p. if p_id p \<in> ids then p\<lparr>p_journal := k\<rparr> else p)"

lemma run_script_append: "run_script (qs @ rs) db = bind_result (run_script qs db) (\<lambda>(_, db'). run_script rs db')"
  by (induction qs arbitrary: db) (auto simp: bind_result_def split: sum.splits)

lemma move_postings_run:
  assumes "set ps \<subseteq> set (db_postings db)" and "distinct (map p_id ps)" and "distinct (map p_id (db_postings db))"
    and "\<forall>p \<in> set ps. numeric_fits 24 (p_amount p) \<and> 0 < p_amount p \<and> find_account (p_account p) db \<noteq> None"
    and "find_journal k db = Some n" and "\<not> j_posted n"
  shows "run_script (move_postings k ps) db =
    Inr ((), db\<lparr>db_postings := moved k (p_id ` set ps) (db_postings db)\<rparr>)"
  using assms
proof (induction ps arbitrary: db)
  case Nil
  then show ?case by (simp add: move_postings_def moved_def)
next
  case (Cons p ps)
  let ?db = "db\<lparr>db_postings := moved k {p_id p} (db_postings db)\<rparr>"
  have same: "q = p" if "q \<in> set (db_postings db)" "p_id q = p_id p" for q
    using distinct_key_eq [OF Cons.prems(3) that(1) _ that(2)] Cons.prems(1) by simp
  then have "upd_rows (\<lambda>q. p_id q = p_id p) (\<lambda>_. p\<lparr>p_journal := k\<rparr>) (db_postings db) = moved k {p_id p} (db_postings db)"
    by (auto simp: upd_rows_def moved_def)
  then have step: "update_posting (p_id p) (p\<lparr>p_journal := k\<rparr>) db = Inr ?db"
    using Cons.prems by (auto simp: update_posting_Inr)
  have "set ps \<subseteq> set (db_postings ?db)"
    using Cons.prems(1,2) by (fastforce simp: moved_def image_iff)
  moreover have "distinct (map p_id (db_postings ?db))"
    using Cons.prems(3) by (simp add: moved_def comp_def if_distrib cong: if_cong)
  ultimately have "run_script (move_postings k ps) ?db =
      Inr ((), ?db\<lparr>db_postings := moved k (p_id ` set ps) (db_postings ?db)\<rparr>)"
    using Cons.prems by (intro Cons.IH) (auto simp: find_account_def find_journal_def)
  moreover have "moved k (p_id ` set ps) (moved k {p_id p} t) = moved k (p_id ` set (p # ps)) t" for t
    by (auto simp: moved_def)
  ultimately show ?case using step by (simp add: move_postings_def)
qed

lemma moved_sums:
  "side_total side c (map (p_journal_update f) ps) = side_total side c ps"
  "balanced (map (p_journal_update f) ps) = balanced ps"
proof -
  show total: "side_total side c (map (p_journal_update f) ps) = side_total side c ps" for side c
    by (simp add: side_total_def filter_map comp_def)
  show "balanced (map (p_journal_update f) ps) = balanced ps" by (simp add: balanced_def total)
qed

lemma moved_journals:
  assumes "distinct (map p_id t)" and "k \<notin> p_journal ` set t" and "k \<noteq> i"
  defines "ids \<equiv> p_id ` set (filter (\<lambda>p. p_journal p = i) t)"
  shows "filter (\<lambda>p. p_journal p = i) (moved k ids t) = []"
    and "filter (\<lambda>p. p_journal p = k) (moved k ids t) = map (p_journal_update (\<lambda>_. k)) (filter (\<lambda>p. p_journal p = i) t)"
proof -
  have ids: "p_id p \<in> ids \<longleftrightarrow> p_journal p = i" if "p \<in> set t" for p
    using that distinct_key_eq [OF assms(1)] by (auto simp: ids_def)
  then have m: "moved k ids t = map (\<lambda>p. if p_journal p = i then p\<lparr>p_journal := k\<rparr> else p) t"
    by (auto simp: moved_def)
  show "filter (\<lambda>p. p_journal p = i) (moved k ids t) = []" using assms(3) by (auto simp: m filter_empty_conv)
  show "filter (\<lambda>p. p_journal p = k) (moved k ids t) = map (p_journal_update (\<lambda>_. k)) (filter (\<lambda>p. p_journal p = i) t)"
    unfolding m using assms(2) by (induction t) auto
qed

text \<open>
  C40: the postings of posted journals are not immutable.  From any posted and balanced journal of any
  database one transaction can take all postings: it passes every trigger and every deferred
  check, commits, and leaves the journal posted without a posting.
\<close>

theorem posted_postings_can_be_moved:
  assumes "schema_ok db" and "db_inserted db = []"
    and "find_journal i db = Some j" and "j_posted j" and "find_journal k db = None"
    and "2 \<le> length (journal_postings i db)" and "balanced (journal_postings i db)"
  shows "\<exists>db'. transact (run_script (moving_script k (journal_postings i db))) db = (Inr (), db') \<and>
    find_journal i db' = Some j \<and> journal_postings i db' = [] \<and>
    journal_postings k db' = map (p_journal_update (\<lambda>_. k)) (journal_postings i db)"
proof -
  let ?ps = "journal_postings i db" and ?n = "demo_journal k"
  let ?posted = "?n\<lparr>j_posted := True\<rparr>"
  define t where "t = moved k (p_id ` set ?ps) (db_postings db)"
  define db1 where "db1 = db\<lparr>db_journals := db_journals db @ [?n], db_inserted := [k]\<rparr>"
  define db2 where "db2 = db1\<lparr>db_postings := t\<rparr>"
  define db3 where "db3 = db2\<lparr>db_journals := db_journals db @ [?posted]\<rparr>"
  note rows = assms(1) [unfolded schema_defs]
  have new: "k \<notin> j_id ` set (db_journals db)" using assms(5) by (simp add: find_journal_def table_simps)
  then have k: "k \<notin> p_journal ` set (db_postings db)" "k \<noteq> i" using rows assms(3,5) by (auto simp: image_iff)
  have dist: "distinct (map p_id (db_postings db))" using rows by blast
  have ins: "insert_journal ?n db = Inr db1"
    using assms(2,5) by (simp add: insert_journal_Inr db1_def demo_journal_def)
  have find: "find_journal k db1 = Some ?n" "find_journal k db3 = Some ?posted" "find_journal i db3 = Some j"
    using assms(3,5) k(2) by (simp_all add: find_journal_def db1_def db2_def db3_def find_append demo_journal_def)
  have "run_script (move_postings k ?ps) db1 = Inr ((), db2)"
    unfolding db2_def t_def
    using rows find(1) dist move_postings_run [of ?ps db1 k ?n]
    by (auto simp: db1_def journal_postings_def demo_journal_def find_account_def table_simps distinct_map_filter)
  moreover have "update_journal k ?posted db2 = Inr db3"
  proof -
    have "upd_rows (\<lambda>j. j_id j = k) (\<lambda>_. ?posted) (db_journals db) = db_journals db"
      using new by (intro upd_rows_none) auto
    then show ?thesis
      using find(1) by (simp add: update_journal_Inr find_journal_def db1_def db2_def db3_def demo_journal_def upd_rows_append)
  qed
  ultimately have run: "run_script (moving_script k ?ps) db = Inr ((), db3)"
    using ins by (simp add: moving_script_def run_script_append)
  have "journal_postings i db3 = []" and moved: "journal_postings k db3 = map (p_journal_update (\<lambda>_. k)) ?ps"
    using moved_journals [OF dist k] by (simp_all add: journal_postings_def db3_def db2_def t_def)
  moreover have "commit db3 = Inr (db3\<lparr>db_inserted := []\<rparr>)"
  proof -
    have "db_inserted db3 = [k]" by (simp add: db3_def db2_def db1_def)
    then show ?thesis using assms(6,7) find(2) moved by (simp add: commit_Inr check_posted_journal_Inr moved_sums)
  qed
  ultimately show ?thesis
    using run find(3) by (simp add: transact_def find_journal_def)
qed

theorem posted_postings_can_be_moved_witness:
  "\<exists>db'. transact (run_script (moving_script 11 (journal_postings 10 opened_db))) opened_db = (Inr (), db') \<and>
    find_journal 10 db' = Some ((demo_journal 10)\<lparr>j_posted := True\<rparr>) \<and> journal_postings 10 db' = []"
proof -
  have "find_journal 10 opened_db = Some ((demo_journal 10)\<lparr>j_posted := True\<rparr>)" "find_journal 11 opened_db = None"
    by (simp_all add: find_journal_def opened_journals demo_journal_def)
  moreover have ps: "journal_postings 10 opened_db = [demo_posting 20 10 1 DEBIT, demo_posting 21 10 2 CREDIT]"
    by (simp add: journal_postings_def opened_postings demo_posting_def)
  moreover have "db_inserted opened_db = []"
    using committed_script [OF opened] by (metis db.select_convs(6) db.surjective db.update_convs(6))
  moreover have "balanced (journal_postings 10 opened_db)" unfolding ps by code_simp
  ultimately show ?thesis
    using posted_postings_can_be_moved [OF opened_db_schema, of 10 _ 11] by fastforce
qed

end
