(* ===== verification/Sha256.thy ===== *)
theory Sha256
  imports Main "HOL-Library.Word" "HOL-Library.Code_Target_Nat"
begin

text \<open>
  \<open>hashlib.sha256(text.encode()).hexdigest()\<close> as FIPS 180-4 defines it, on 32-bit words; the text
  is a list of characters, one byte each (all hashed texts are ASCII or are taken as their UTF-8
  bytes).
\<close>

unbundle bit_operations_syntax

type_synonym w32 = "32 word"

definition rotr :: "nat \<Rightarrow> w32 \<Rightarrow> w32" where
  "rotr n x = drop_bit n x OR push_bit (32 - n) x"

definition ch :: "w32 \<Rightarrow> w32 \<Rightarrow> w32 \<Rightarrow> w32" where
  "ch x y z = (x AND y) XOR (NOT x AND z)"

definition maj :: "w32 \<Rightarrow> w32 \<Rightarrow> w32 \<Rightarrow> w32" where
  "maj x y z = (x AND y) XOR (x AND z) XOR (y AND z)"

definition Sigma0 :: "w32 \<Rightarrow> w32" where
  "Sigma0 x = rotr 2 x XOR rotr 13 x XOR rotr 22 x"

definition Sigma1 :: "w32 \<Rightarrow> w32" where
  "Sigma1 x = rotr 6 x XOR rotr 11 x XOR rotr 25 x"

definition sigma0 :: "w32 \<Rightarrow> w32" where
  "sigma0 x = rotr 7 x XOR rotr 18 x XOR drop_bit 3 x"

definition sigma1 :: "w32 \<Rightarrow> w32" where
  "sigma1 x = rotr 17 x XOR rotr 19 x XOR drop_bit 10 x"

text \<open>
  The constants as the standard describes them: the first 32 bits of the fractional parts of the
  cube roots of the first 64 primes, and of the square roots of the first 8.
\<close>

definition small_primes :: "nat list" where
  "small_primes =
     [2, 3, 5, 7, 11, 13, 17, 19, 23, 29, 31, 37, 41, 43, 47, 53,
      59, 61, 67, 71, 73, 79, 83, 89, 97, 101, 103, 107, 109, 113, 127, 131,
      137, 139, 149, 151, 157, 163, 167, 173, 179, 181, 191, 193, 197, 199, 211, 223,
      227, 229, 233, 239, 241, 251, 257, 263, 269, 271, 277, 281, 283, 293, 307, 311]"

text \<open>The integer \<open>k\<close>-th root below \<open>2 ^ i\<close>, bit by bit.\<close>

fun integer_root :: "nat \<Rightarrow> nat \<Rightarrow> nat \<Rightarrow> nat \<Rightarrow> nat" where
  "integer_root k n 0 r = r"
| "integer_root k n (Suc i) r = integer_root k n i (if (r + 2 ^ i) ^ k \<le> n then r + 2 ^ i else r)"

definition round_constants :: "w32 list" where
  "round_constants = map (\<lambda>p. of_nat (integer_root 3 (p * 2 ^ 96) 36 0)) small_primes"

definition initial_hash :: "w32 list" where
  "initial_hash = map (\<lambda>p. of_nat (integer_root 2 (p * 2 ^ 64) 37 0)) (take 8 small_primes)"

text \<open>Padding to blocks of 64 bytes: a one bit, zeros, and the length in bits.\<close>

definition be_bytes :: "nat \<Rightarrow> nat \<Rightarrow> nat list" where
  "be_bytes k n = map (\<lambda>i. n div 256 ^ i mod 256) (rev [0..<k])"

definition pad :: "nat list \<Rightarrow> nat list" where
  "pad bytes =
     (let l = List.length bytes
      in bytes @ [128] @ replicate ((119 - l mod 64) mod 64) 0 @ be_bytes 8 (8 * l))"

fun words :: "nat list \<Rightarrow> w32 list" where
  "words (a # b # c # d # bs) = of_nat (((a * 256 + b) * 256 + c) * 256 + d) # words bs"
| "words _ = []"

text \<open>The message schedule, newest word first.\<close>

definition next_word :: "w32 list \<Rightarrow> w32" where
  "next_word ws = sigma1 (ws ! 1) + ws ! 6 + sigma0 (ws ! 14) + ws ! 15"

fun extend :: "nat \<Rightarrow> w32 list \<Rightarrow> w32 list" where
  "extend 0 ws = ws"
| "extend (Suc n) ws = extend n (next_word ws # ws)"

fun sha_round :: "w32 list \<Rightarrow> w32 \<times> w32 \<Rightarrow> w32 list" where
  "sha_round [a, b, c, d, e, f, g, h] (k, w) =
     (let t1 = h + Sigma1 e + ch e f g + k + w; t2 = Sigma0 a + maj a b c
      in [t1 + t2, a, b, c, d + t1, e, f, g])"
| "sha_round hs _ = hs"

definition compress :: "w32 list \<Rightarrow> w32 list \<Rightarrow> w32 list" where
  "compress hs block =
     map (\<lambda>(x, y). x + y)
       (zip hs (foldl sha_round hs (zip round_constants (rev (extend 48 (rev block))))))"

fun blocks :: "nat \<Rightarrow> w32 list \<Rightarrow> w32 list list" where
  "blocks 0 ws = []"
| "blocks (Suc n) ws = (if ws = [] then [] else take 16 ws # blocks n (drop 16 ws))"

definition digest :: "nat list \<Rightarrow> w32 list" where
  "digest bytes =
     (let ws = words (pad bytes) in foldl compress initial_hash (blocks (List.length ws) ws))"

definition hex_digit :: "nat \<Rightarrow> char" where
  "hex_digit n = ''0123456789abcdef'' ! n"

definition hex_word :: "w32 \<Rightarrow> string" where
  "hex_word w = map (\<lambda>i. hex_digit (unat w div 16 ^ i mod 16)) (rev [0..<8])"

definition sha256_hex :: "string \<Rightarrow> string" where
  "sha256_hex s = concat (map hex_word (digest (map of_char s)))"

end
