(* ===== verification/Provider.thy ===== *)
theory Provider
  imports Models Sha256
begin

text \<open>
  The payout provider of \<open>app/provider.py\<close>.  The mock has two stores: a dictionary (no sessions
  given) and the table \<open>mock_provider_operations\<close>, whose \<open>ordinal\<close> is an identity column: every
  insert attempt draws the next number of its sequence, also when the row already exists or the
  transaction rolls back.  Sleeping is not modelled: a timeout is the exception it ends in.
\<close>

datatype provider_result = PAID | UNPAID | AMBIGUOUS

datatype provider_lookup =
  LOOKUP_PAID | LOOKUP_UNPAID | UNKNOWN | NOT_FOUND | PROCESSING | UNAVAILABLE

text \<open>What is stored of an operation: its result (if it does not time out), its authority, a timeout.\<close>

type_synonym stored_outcome = "provider_result option \<times> provider_lookup \<times> bool"

record provider_config =
  pc_outcomes :: "provider_lookup list"
  pc_timeout_lookup :: provider_lookup
  pc_load_mode :: bool

section \<open>Outcomes\<close>

definition ambiguous_authority :: "nat \<Rightarrow> provider_lookup" where
  "ambiguous_authority position = (if position mod 2 = 0 then LOOKUP_PAID else LOOKUP_UNPAID)"

definition outcome_for_position :: "provider_config \<Rightarrow> nat \<Rightarrow> app_error + stored_outcome" where
  "outcome_for_position cfg position =
     (if pc_load_mode cfg then
        if position < 700 then Inr (Some PAID, LOOKUP_PAID, False)
        else if position < 850 then Inr (Some AMBIGUOUS, ambiguous_authority position, False)
        else if position < 1000 then Inr (None, ambiguous_authority position, True)
        else Inl (RuntimeError ''load provider supports exactly 1000 unique operations'')
      else if pc_outcomes cfg \<noteq> [] then
        (case pc_outcomes cfg ! (position mod length (pc_outcomes cfg)) of
           UNKNOWN \<Rightarrow> Inr (None, pc_timeout_lookup cfg, True)
         | LOOKUP_PAID \<Rightarrow> Inr (Some PAID, LOOKUP_PAID, False)
         | outcome \<Rightarrow> Inr (Some UNPAID, outcome, False))
      else if position mod 20 < 14 then Inr (Some PAID, LOOKUP_PAID, False)
      else if position mod 20 < 17 then Inr (Some AMBIGUOUS, ambiguous_authority (position mod 20), False)
      else Inr (None, ambiguous_authority (position mod 20), True))"

definition submission_of :: "stored_outcome \<Rightarrow> app_error + provider_result" where
  "submission_of outcome =
     (case outcome of
        (submission, authority, times_out) \<Rightarrow>
          if times_out then Inl PayoutTimeout
          else (case submission of None \<Rightarrow> Inl (AssertionError ''submission'') | Some r \<Rightarrow> Inr r))"

section \<open>The provider in memory\<close>

record memory_provider =
  mp_operations :: "(nat \<times> stored_outcome) list"
  mp_count :: nat

definition new_memory_provider :: memory_provider where
  "new_memory_provider = \<lparr>mp_operations = [], mp_count = 0\<rparr>"

definition next_outcome :: "provider_config \<Rightarrow> memory_provider \<Rightarrow> app_error + stored_outcome" where
  "next_outcome cfg p = outcome_for_position cfg (mp_count p)"

definition memory_initiate ::
  "provider_config \<Rightarrow> nat \<Rightarrow> int \<Rightarrow> currency \<Rightarrow> int \<Rightarrow> memory_provider \<Rightarrow>
     (app_error + provider_result) \<times> memory_provider" where
  "memory_initiate cfg i amount_usd target_currency quoted_amount p =
     (case map_of (mp_operations p) i of
        Some stored \<Rightarrow> (submission_of stored, p)
      | None \<Rightarrow>
          (case next_outcome cfg p of
             Inl e \<Rightarrow> (Inl e, p)
           | Inr stored \<Rightarrow>
               (submission_of stored,
                \<lparr>mp_operations = AList.update i stored (mp_operations p), mp_count = mp_count p + 1\<rparr>)))"

definition memory_lookup :: "nat \<Rightarrow> memory_provider \<Rightarrow> app_error + provider_lookup" where
  "memory_lookup i p =
     (case map_of (mp_operations p) i of Some stored \<Rightarrow> Inr (fst (snd stored)) | None \<Rightarrow> Inr NOT_FOUND)"

section \<open>The durable provider\<close>

datatype submission = ALLOCATING | TIMEOUT | Submitted provider_result

record operation =
  op_id :: nat
  op_ordinal :: nat
  op_submission :: submission
  op_authority :: provider_lookup
  op_reference :: string

text \<open>\<open>dp_next\<close> is the next value of the identity sequence, which starts at one.\<close>

record durable_provider =
  dp_operations :: "operation list"
  dp_next :: nat

definition new_durable_provider :: durable_provider where
  "new_durable_provider = \<lparr>dp_operations = [], dp_next = 1\<rparr>"

definition find_operation :: "nat \<Rightarrow> durable_provider \<Rightarrow> operation option" where
  "find_operation i p = List.find (\<lambda>x. op_id x = i) (dp_operations p)"

text \<open>\<open>str(uuid)\<close>: 32 hexadecimal digits of the UUID's number in groups of 8, 4, 4, 4 and 12.\<close>

definition uuid_str :: "nat \<Rightarrow> string" where
  "uuid_str i =
     (let h = map (\<lambda>k. hex_digit (i div 16 ^ k mod 16)) (rev [0..<32])
      in take 8 h @ ''-'' @ take 4 (drop 8 h) @ ''-'' @ take 4 (drop 12 h) @ ''-'' @
         take 4 (drop 16 h) @ ''-'' @ drop 20 h)"

definition provider_reference :: "nat \<Rightarrow> string" where
  "provider_reference i = ''provider-'' @ take 24 (sha256_hex (uuid_str i))"

text \<open>The stored row read back; a value of no enumeration member raises \<open>ValueError\<close>.\<close>

definition read_operation :: "operation \<Rightarrow> app_error + stored_outcome" where
  "read_operation x =
     (case op_submission x of
        TIMEOUT \<Rightarrow> Inr (None, op_authority x, True)
      | Submitted r \<Rightarrow> Inr (Some r, op_authority x, False)
      | ALLOCATING \<Rightarrow> Inl (RuntimeError ''ValueError''))"

definition durable_outcome ::
  "provider_config \<Rightarrow> nat \<Rightarrow> durable_provider \<Rightarrow> (app_error + stored_outcome) \<times> durable_provider" where
  "durable_outcome cfg i p =
     (let p1 = p\<lparr>dp_next := dp_next p + 1\<rparr>
      in case find_operation i p of
           Some x \<Rightarrow> (read_operation x, p1)
         | None \<Rightarrow>
             (case outcome_for_position cfg (dp_next p - 1) of
                Inl e \<Rightarrow> (Inl e, p1)
              | Inr (submission, authority, times_out) \<Rightarrow>
                  if \<not> times_out \<and> submission = None then (Inl (AssertionError ''submission''), p1)
                  else
                    let x = \<lparr>op_id = i, op_ordinal = dp_next p,
                          op_submission = (if times_out then TIMEOUT else Submitted (the submission)),
                          op_authority = authority, op_reference = provider_reference i\<rparr>
                    in (read_operation x, p1\<lparr>dp_operations := dp_operations p @ [x]\<rparr>)))"

definition durable_initiate ::
  "provider_config \<Rightarrow> nat \<Rightarrow> int \<Rightarrow> currency \<Rightarrow> int \<Rightarrow> durable_provider \<Rightarrow>
     (app_error + provider_result) \<times> durable_provider" where
  "durable_initiate cfg i amount_usd target_currency quoted_amount p =
     (case durable_outcome cfg i p of
        (Inl e, p') \<Rightarrow> (Inl e, p')
      | (Inr stored, p') \<Rightarrow> (submission_of stored, p'))"

definition durable_lookup :: "nat \<Rightarrow> durable_provider \<Rightarrow> app_error + provider_lookup" where
  "durable_lookup i p =
     (case find_operation i p of None \<Rightarrow> Inr NOT_FOUND | Some x \<Rightarrow> Inr (op_authority x))"

end
