(* ===== verification/All_Tables.thy ===== *)
theory All_Tables
  imports Journal_Guards Provider
begin

text \<open>
  Scripts over all six tables: the rows of \<open>Journal_Guards\<close> and those of
  \<open>mock_provider_operations\<close>, whose ordinals are drawn from a sequence unless a statement gives one.
  Every declared constraint survives every script, and a failed one leaves all rows as they were.
\<close>

section \<open>The table of the provider's operations\<close>

text \<open>
  The outcomes are constants of the code that fit their columns.  \<open>InsertOperation None\<close> draws the
  next number of the sequence, which no rollback takes back.
\<close>

definition operation_checks :: "operation \<Rightarrow> operation list \<Rightarrow> app_error + unit" where
  "operation_checks x others = run_checks
     [in_range (int8_fits (int (op_ordinal x))),
      fits_column (string_fits 64 (op_reference x)),
      unique_row (op_id x \<notin> op_id ` set others) ''mock_provider_operations_pkey'',
      unique_row (op_ordinal x \<notin> op_ordinal ` set others) ''mock_provider_operations_ordinal_key'']"

definition insert_operation :: "operation \<Rightarrow> durable_provider \<Rightarrow> app_error + durable_provider" where
  "insert_operation x p = bind_result (operation_checks x (dp_operations p))
     (\<lambda>_. Inr (p\<lparr>dp_operations := dp_operations p @ [x]\<rparr>))"

definition update_operation :: "nat \<Rightarrow> operation \<Rightarrow> durable_provider \<Rightarrow> app_error + durable_provider" where
  "update_operation i x p =
     (if i \<notin> op_id ` set (dp_operations p) then Inr p
      else bind_result (operation_checks x (filter (\<lambda>y. op_id y \<noteq> i) (dp_operations p)))
        (\<lambda>_. Inr (p\<lparr>dp_operations := upd_rows (\<lambda>y. op_id y = i) (\<lambda>_. x) (dp_operations p)\<rparr>)))"

definition delete_operation :: "nat \<Rightarrow> durable_provider \<Rightarrow> durable_provider" where
  "delete_operation i p = p\<lparr>dp_operations := filter (\<lambda>y. op_id y \<noteq> i) (dp_operations p)\<rparr>"

definition operations_ok :: "durable_provider \<Rightarrow> bool" where
  "operations_ok p \<longleftrightarrow> distinct (map op_id (dp_operations p)) \<and> distinct (map op_ordinal (dp_operations p)) \<and>
     (\<forall>x \<in> set (dp_operations p). int8_fits (int (op_ordinal x)) \<and> string_fits 64 (op_reference x))"

lemma operation_checks_Inr [result_simps]:
  "operation_checks x others = Inr u \<longleftrightarrow> int8_fits (int (op_ordinal x)) \<and> string_fits 64 (op_reference x) \<and>
     (\<forall>y \<in> set others. op_id y \<noteq> op_id x \<and> op_ordinal y \<noteq> op_ordinal x)"
  by (auto simp: operation_checks_def check_simps result_simps image_iff)





section \<open>Scripts\<close>

datatype table_sql =
    Rows sql
  | InsertOperation "nat option" operation
  | UpdateOperation nat operation
  | DeleteOperation nat

fun run_table_sql :: "table_sql \<Rightarrow> db \<times> durable_provider \<Rightarrow> app_error option \<times> db \<times> durable_provider" where
  "run_table_sql (Rows q) (db, p) =
     (case run_sql q db of Inl e \<Rightarrow> (Some e, db, p) | Inr db' \<Rightarrow> (None, db', p))"
| "run_table_sql (InsertOperation (Some n) x) (db, p) =
     (case insert_operation (x\<lparr>op_ordinal := n\<rparr>) p of Inl e \<Rightarrow> (Some e, db, p) | Inr p' \<Rightarrow> (None, db, p'))"
| "run_table_sql (InsertOperation None x) (db, p) =
     (let drawn = p\<lparr>dp_next := dp_next p + 1\<rparr>
      in case insert_operation (x\<lparr>op_ordinal := dp_next p\<rparr>) drawn of
           Inl e \<Rightarrow> (Some e, db, drawn)
         | Inr p' \<Rightarrow> (None, db, p'))"
| "run_table_sql (UpdateOperation i x) (db, p) =
     (case update_operation i x p of Inl e \<Rightarrow> (Some e, db, p) | Inr p' \<Rightarrow> (None, db, p'))"
| "run_table_sql (DeleteOperation i) (db, p) = (None, db, delete_operation i p)"

fun run_table_script ::
  "table_sql list \<Rightarrow> db \<times> durable_provider \<Rightarrow> app_error option \<times> db \<times> durable_provider" where
  "run_table_script [] w = (None, w)"
| "run_table_script (q # qs) w =
     (case run_table_sql q w of (None, w') \<Rightarrow> run_table_script qs w' | (Some e, w') \<Rightarrow> (Some e, w'))"




lemma operations_sequence [simp]: "operations_ok (p\<lparr>dp_next := n\<rparr>) = operations_ok p"
  by (simp add: operations_ok_def)




text \<open>The insert and the update of the durable provider are statements of this kind.\<close>

lemma durable_outcome_statements:
  assumes "find_operation i p = None" and "int8_fits (int (dp_next p))"
    and "\<forall>x \<in> set (dp_operations p). op_ordinal x < dp_next p"
    and "outcome_for_position cfg (dp_next p - 1) = Inr (submission, authority, times_out)"
    and "times_out \<or> submission \<noteq> None"
  shows "run_table_script
      [InsertOperation None \<lparr>op_id = i, op_ordinal = 0, op_submission = ALLOCATING, op_authority = UNKNOWN,
         op_reference = provider_reference i\<rparr>,
       UpdateOperation i \<lparr>op_id = i, op_ordinal = dp_next p,
         op_submission = (if times_out then TIMEOUT else Submitted (the submission)),
         op_authority = authority, op_reference = provider_reference i\<rparr>] (db, p)
    = (None, db, snd (durable_outcome cfg i p))"
proof -
  have new: "i \<notin> op_id ` set (dp_operations p)" "dp_next p \<notin> op_ordinal ` set (dp_operations p)"
    using assms(1,3) by (auto simp: find_operation_def table_simps)
  have keep: "filter (\<lambda>y. op_id y \<noteq> i) (dp_operations p) = dp_operations p"
    "upd_rows (\<lambda>y. op_id y = i) f (dp_operations p) = dp_operations p" for f
    using new(1) by (auto simp: filter_id_conv intro!: upd_rows_none)
  have "string_fits 64 (provider_reference i)" by (simp add: string_fits_def provider_reference_def)
  with new assms show ?thesis
    by (auto simp: insert_operation_def update_operation_def durable_outcome_def operation_checks_def
        check_simps guard_result_def keep upd_rows_append Let_def)
qed

section \<open>Properties\<close>




end
