(* ===== verification/Ledger.thy ===== *)
theory Ledger
  imports Models
begin

text \<open>
  The double-entry ledger of \<open>app/ledger.py\<close>: the effect of a posting on an account, the
  locked read of two accounts, the journal of one movement (\<open>_post\<close>) with its three uses
  \<open>reserve\<close>, \<open>consume\<close> and \<open>release\<close>, and the audit \<open>assert_ledger_invariants\<close>.  The session
  flushes where the code flushes; the row locks make each transaction atomic.
\<close>

section \<open>Posting to an account\<close>

definition increases :: "account_class \<Rightarrow> posting_side \<Rightarrow> bool" where
  "increases c side \<longleftrightarrow> (c = ASSET \<and> side = DEBIT) \<or> (c = LIABILITY \<and> side = CREDIT)"

definition apply_posting :: "account \<Rightarrow> posting_side \<Rightarrow> int \<Rightarrow> app_error + account" where
  "apply_posting a side amount =
     (let a' = a\<lparr>a_balance := a_balance a + (if increases (a_class a) side then amount else - amount)\<rparr>
      in if a_balance a' < 0 then Inl InsufficientFunds else Inr a')"

type_synonym purpose_key = "string \<times> account_purpose"

definition purpose_key :: "account \<Rightarrow> purpose_key" where
  "purpose_key a = (a_owner a, a_purpose a)"

text \<open>The dictionary of the selected rows, in the order of their ids; the last of equal keys stays.\<close>

definition locked_accounts ::
  "purpose_key list \<Rightarrow> db \<Rightarrow> app_error + (purpose_key \<times> account) list" where
  "locked_accounts keys db =
     (let accounts = sort_key a_id
            (filter (\<lambda>a. a_currency a = USD \<and> purpose_key a \<in> set keys) (db_accounts db));
          result = rev (map (\<lambda>a. (purpose_key a, a)) accounts)
      in if fst ` set result \<noteq> set keys then Inl LookupError else Inr result)"

section \<open>One movement\<close>

text \<open>The ids that the default \<open>uuid4\<close> of the new rows draws.\<close>

record post_ids =
  pi_journal :: nat
  pi_debit :: nat
  pi_credit :: nat

text \<open>A flush writes the changed accounts in the order of their ids.\<close>

definition flush_balances :: "account \<Rightarrow> account \<Rightarrow> statement" where
  "flush_balances a b db =
     (if a_id a \<le> a_id b
      then bind_result (update_balance (a_id a) (a_balance a) db) (update_balance (a_id b) (a_balance b))
      else bind_result (update_balance (a_id b) (a_balance b) db) (update_balance (a_id a) (a_balance a)))"

definition flush_postings :: "posting \<Rightarrow> posting \<Rightarrow> statement" where
  "flush_postings p q db = bind_result (insert_posting p db) (insert_posting q)"

definition new_journal :: "nat \<Rightarrow> nat option \<Rightarrow> journal_event \<Rightarrow> journal" where
  "new_journal i settlement event =
     \<lparr>j_id = i, j_settlement = settlement, j_event = event, j_posted = False\<rparr>"

definition new_posting :: "nat \<Rightarrow> nat \<Rightarrow> account \<Rightarrow> posting_side \<Rightarrow> int \<Rightarrow> posting" where
  "new_posting i journal a side amount =
     \<lparr>p_id = i, p_journal = journal, p_account = a_id a, p_currency = USD, p_side = side, p_amount = amount\<rparr>"

text \<open>From the flush of the journal to its posting; shared with the seed, which has no settlement.\<close>

definition post_entry ::
  "post_ids \<Rightarrow> nat option \<Rightarrow> journal_event \<Rightarrow> account \<Rightarrow> account \<Rightarrow> int \<Rightarrow> statement" where
  "post_entry ids settlement event debit credit amount db =
     bind_result (insert_journal (new_journal (pi_journal ids) settlement event) db) (\<lambda>db1.
     bind_result (apply_posting debit DEBIT amount) (\<lambda>debit'.
     bind_result (apply_posting credit CREDIT amount) (\<lambda>credit'.
     bind_result (flush_balances debit' credit' db1) (\<lambda>db2.
     bind_result
       (flush_postings (new_posting (pi_debit ids) (pi_journal ids) debit DEBIT amount)
          (new_posting (pi_credit ids) (pi_journal ids) credit CREDIT amount) db2) (\<lambda>db3.
     update_journal (pi_journal ids)
       ((new_journal (pi_journal ids) settlement event)\<lparr>j_posted := True\<rparr>) db3)))))"

definition post ::
  "post_ids \<Rightarrow> settlement \<Rightarrow> journal_event \<Rightarrow> purpose_key \<Rightarrow> purpose_key \<Rightarrow> statement" where
  "post ids s event debit_key credit_key db =
     bind_result (locked_accounts [debit_key, credit_key] db) (\<lambda>accounts.
       (case (map_of accounts debit_key, map_of accounts credit_key) of
          (Some debit, Some credit) \<Rightarrow>
            if a_balance debit < st_amount s then Inl InsufficientFunds
            else post_entry ids (Some (st_id s)) event debit credit (st_amount s) db
        | _ \<Rightarrow> Inl LookupError))"

definition reserve :: "post_ids \<Rightarrow> settlement \<Rightarrow> statement" where
  "reserve ids s = post ids s RESERVE (st_owner s, AVAILABLE) (st_owner s, RESERVED)"

definition consume :: "post_ids \<Rightarrow> settlement \<Rightarrow> statement" where
  "consume ids s = post ids s CONSUME (st_owner s, RESERVED) (''system'', OMNIBUS)"

definition release :: "post_ids \<Rightarrow> settlement \<Rightarrow> statement" where
  "release ids s = post ids s RELEASE (st_owner s, RESERVED) (st_owner s, AVAILABLE)"

section \<open>The audit\<close>

text \<open>The default dictionaries of the loop: absent totals and balances are zero.\<close>

type_synonym journal_totals = "((nat \<times> currency) \<times> int \<times> int) list"
type_synonym balances = "(nat \<times> int) list"

definition add_total :: "posting \<Rightarrow> journal_totals \<Rightarrow> journal_totals" where
  "add_total p totals =
     (let k = (p_journal p, p_currency p);
          t = (case map_of totals k of None \<Rightarrow> (0, 0) | Some t \<Rightarrow> t)
      in AList.update k
           (case p_side p of DEBIT \<Rightarrow> (fst t + p_amount p, snd t) | CREDIT \<Rightarrow> (fst t, snd t + p_amount p))
           totals)"

definition signed_amount :: "account \<Rightarrow> posting \<Rightarrow> int" where
  "signed_amount a p = (if increases (a_class a) (p_side p) then p_amount p else - p_amount p)"

fun audit_loop ::
  "account list \<Rightarrow> posting list \<Rightarrow> journal_totals \<Rightarrow> balances \<Rightarrow>
     app_error + journal_totals \<times> balances" where
  "audit_loop accounts [] totals expected = Inr (totals, expected)"
| "audit_loop accounts (p # ps) totals expected =
     (case map_of (rev (map (\<lambda>a. (a_id a, a)) accounts)) (p_account p) of
        None \<Rightarrow> Inl LookupError
      | Some a \<Rightarrow>
          audit_loop accounts ps (add_total p totals)
            (AList.map_entry (p_account p) (\<lambda>b. b + signed_amount a p) expected))"

text \<open>\<open>tracked\<close>: the balances of the accounts in the session, flushed or not.\<close>

definition assert_ledger_invariants :: "int option list \<Rightarrow> db \<Rightarrow> app_error + unit" where
  "assert_ledger_invariants tracked db =
     bind_result (guard_result (list_all (\<lambda>b. case b of None \<Rightarrow> True | Some n \<Rightarrow> 0 \<le> n) tracked)
       (AssertionError ''negative account balance'')) (\<lambda>_.
     bind_result (guard_result (list_all (\<lambda>a. 0 \<le> a_balance a) (db_accounts db))
       (AssertionError ''negative account balance'')) (\<lambda>_.
     bind_result (audit_loop (db_accounts db) (db_postings db) [] (map (\<lambda>a. (a_id a, 0)) (db_accounts db)))
       (\<lambda>(totals, expected).
     bind_result (guard_result (list_all (\<lambda>(_, d, c). d = c) totals)
       (AssertionError ''unbalanced journal currency'')) (\<lambda>_.
     guard_result (list_all (\<lambda>a. map_of expected (a_id a) = Some (a_balance a)) (db_accounts db))
       (AssertionError ''materialized account balance mismatch'')))))"

end
