(* ===== verification/Ledger_Correctness.thy ===== *)
theory Ledger_Correctness
  imports Ledger Schema
begin

text \<open>
  Correctness of the ledger.  \<open>entry_db\<close> is the abstract effect of one movement; \<open>post\<close> refines
  it and fails exactly when the funds, the schema or the column range forbid it.  The balances
  are the sums of the postings (\<open>books_ok\<close>), the audit accepts exactly such ledgers, and no
  movement creates or destroys money.
\<close>

section \<open>Accounts\<close>

definition posted_balance :: "account \<Rightarrow> posting_side \<Rightarrow> int \<Rightarrow> int" where
  "posted_balance a side amount =
     a_balance a + (if increases (a_class a) side then amount else - amount)"

lemma apply_posting_Inr [result_simps]:
  "apply_posting a side amount = Inr a' \<longleftrightarrow>
     0 \<le> posted_balance a side amount \<and> a' = a\<lparr>a_balance := posted_balance a side amount\<rparr>"
  by (auto simp: apply_posting_def posted_balance_def Let_def)

lemma apply_posting_Inl [result_simps]:
  "apply_posting a side amount = Inl e \<longleftrightarrow> posted_balance a side amount < 0 \<and> e = InsufficientFunds"
  by (auto simp: apply_posting_def posted_balance_def Let_def)

definition set_balance :: "nat \<Rightarrow> int \<Rightarrow> account list \<Rightarrow> account list" where
  "set_balance i b = upd_rows (\<lambda>a. a_id a = i) (a_balance_update (\<lambda>_. b))"

lemma set_balance_commute: "i \<noteq> j \<Longrightarrow> set_balance i b (set_balance j c t) = set_balance j c (set_balance i b t)"
  by (auto simp: set_balance_def upd_rows_def)

lemma flush_balances_Inr [result_simps]:
  assumes "a_id a \<noteq> a_id b"
  shows "flush_balances a b db = Inr db' \<longleftrightarrow>
     numeric_fits 24 (a_balance a) \<and> 0 \<le> a_balance a \<and> numeric_fits 24 (a_balance b) \<and> 0 \<le> a_balance b \<and>
     db' = db\<lparr>db_accounts := set_balance (a_id b) (a_balance b) (set_balance (a_id a) (a_balance a) (db_accounts db))\<rparr>"
  using set_balance_commute [OF assms, unfolded set_balance_def]
  by (auto simp: flush_balances_def result_simps set_balance_def)

text \<open>The database after one movement: both balances, the posted journal and its two postings.\<close>

definition entry_postings :: "post_ids \<Rightarrow> account \<Rightarrow> account \<Rightarrow> int \<Rightarrow> posting list" where
  "entry_postings ids debit credit amount =
     [new_posting (pi_debit ids) (pi_journal ids) debit DEBIT amount,
      new_posting (pi_credit ids) (pi_journal ids) credit CREDIT amount]"

definition entry_db ::
  "post_ids \<Rightarrow> nat option \<Rightarrow> journal_event \<Rightarrow> account \<Rightarrow> account \<Rightarrow> int \<Rightarrow> db \<Rightarrow> db" where
  "entry_db ids settlement event debit credit amount db = db\<lparr>
     db_accounts := set_balance (a_id credit) (posted_balance credit CREDIT amount)
       (set_balance (a_id debit) (posted_balance debit DEBIT amount) (db_accounts db)),
     db_journals := db_journals db @ [(new_journal (pi_journal ids) settlement event)\<lparr>j_posted := True\<rparr>],
     db_postings := db_postings db @ entry_postings ids debit credit amount,
     db_inserted := db_inserted db @ [pi_journal ids]\<rparr>"

text \<open>What the schema asks of the new rows.\<close>

definition entry_fits :: "post_ids \<Rightarrow> nat option \<Rightarrow> journal_event \<Rightarrow> db \<Rightarrow> bool" where
  "entry_fits ids settlement event db \<longleftrightarrow>
     (event = OPENING \<longleftrightarrow> settlement = None) \<and>
     pi_journal ids \<notin> j_id ` set (db_journals db) \<and>
     (settlement = None \<or>
        (settlement, event) \<notin> (\<lambda>j. (j_settlement j, j_event j)) ` set (db_journals db)) \<and>
     (\<forall>i. settlement = Some i \<longrightarrow> i \<in> st_id ` set (db_settlements db)) \<and>
     pi_debit ids \<notin> p_id ` set (db_postings db) \<and> pi_credit ids \<notin> p_id ` set (db_postings db) \<and>
     pi_debit ids \<noteq> pi_credit ids"

definition account_row :: "account \<Rightarrow> db \<Rightarrow> bool" where
  "account_row a db \<longleftrightarrow> a \<in> set (db_accounts db)"

lemma set_balance_ids [simp]: "a_id ` set (set_balance i b t) = a_id ` set t"
  by (simp add: set_balance_def image_upd_rows)

lemma find_last_journal:
  "i \<notin> j_id ` set t \<Longrightarrow> List.find (\<lambda>j. j_id j = i) (t @ [new_journal i s ev]) = Some (new_journal i s ev)"
  using find_none_key [of j_id i t] by (simp add: find_append new_journal_def)

lemma upd_last_journal:
  assumes "i \<notin> j_id ` set t"
  shows "upd_rows (\<lambda>j. j_id j = i) (\<lambda>_. n) (t @ [new_journal i s ev]) = t @ [n]"
proof -
  have "upd_rows (\<lambda>j. j_id j = i) (\<lambda>_. n) t = t" using assms by (intro upd_rows_none) auto
  then show ?thesis by (simp add: upd_rows_def new_journal_def)
qed

lemma flush_postings_Inr:
  assumes "find_journal i db = Some j" and "\<not> j_posted j" and "p_journal p = i" and "p_journal q = i"
    and "p_account p \<in> a_id ` set (db_accounts db)" and "p_account q \<in> a_id ` set (db_accounts db)"
  shows "flush_postings p q db = Inr db' \<longleftrightarrow>
     numeric_fits 24 (p_amount p) \<and> 0 < p_amount p \<and> numeric_fits 24 (p_amount q) \<and> 0 < p_amount q \<and>
     p_id p \<notin> p_id ` set (db_postings db) \<and> p_id q \<notin> p_id ` set (db_postings db) \<and> p_id p \<noteq> p_id q \<and>
     db' = db\<lparr>db_postings := db_postings db @ [p, q]\<rparr>"
proof -
  have "find_account (p_account p) db \<noteq> None" "find_account (p_account q) db \<noteq> None"
    using assms(5,6) by (simp_all only: find_account_def find_some_key)
  moreover have "find_account k (db\<lparr>db_postings := ps\<rparr>) = find_account k db"
    "find_journal k (db\<lparr>db_postings := ps\<rparr>) = find_journal k db" for k ps
    by (simp_all add: find_row_simps)
  ultimately show ?thesis
    using assms(1-4) by (auto simp: flush_postings_def bind_result_eq_Inr insert_posting_Inr)
qed

lemma post_new_journal:
  assumes "i \<notin> j_id ` set js" and "db_journals db = js @ [new_journal i s ev]"
  shows "update_journal i ((new_journal i s ev)\<lparr>j_posted := True\<rparr>) db = Inr db' \<longleftrightarrow>
     db' = db\<lparr>db_journals := js @ [(new_journal i s ev)\<lparr>j_posted := True\<rparr>]\<rparr>"
proof -
  have "find_journal i db = Some (new_journal i s ev)"
    using find_last_journal [OF assms(1)] by (simp add: find_journal_def assms(2))
  then show ?thesis
    by (simp add: update_journal_Inr assms(2) upd_last_journal [OF assms(1)])
      (simp add: new_journal_def)
qed

lemma post_entry_Inr:
  assumes "debit \<in> set (db_accounts db)" and "credit \<in> set (db_accounts db)"
    and ne: "a_id debit \<noteq> a_id credit"
  shows "post_entry ids settlement event debit credit amount db = Inr db' \<longleftrightarrow>
     entry_fits ids settlement event db \<and> 0 < amount \<and> numeric_fits 24 amount \<and>
     0 \<le> posted_balance debit DEBIT amount \<and> 0 \<le> posted_balance credit CREDIT amount \<and>
     numeric_fits 24 (posted_balance debit DEBIT amount) \<and>
     numeric_fits 24 (posted_balance credit CREDIT amount) \<and>
     db' = entry_db ids settlement event debit credit amount db"
proof -
  define j where "j = new_journal (pi_journal ids) settlement event"
  define db1 where "db1 = db\<lparr>db_journals := db_journals db @ [j], db_inserted := db_inserted db @ [pi_journal ids]\<rparr>"
  define d c where "d = debit\<lparr>a_balance := posted_balance debit DEBIT amount\<rparr>"
    and "c = credit\<lparr>a_balance := posted_balance credit CREDIT amount\<rparr>"
  define db2 where "db2 = db1\<lparr>db_accounts := set_balance (a_id c) (a_balance c) (set_balance (a_id d) (a_balance d) (db_accounts db))\<rparr>"
  define p q where "p = new_posting (pi_debit ids) (pi_journal ids) debit DEBIT amount"
    and "q = new_posting (pi_credit ids) (pi_journal ids) credit CREDIT amount"
  define fits where "fits \<longleftrightarrow> (event = OPENING \<longleftrightarrow> settlement = None) \<and>
     pi_journal ids \<notin> j_id ` set (db_journals db) \<and>
     (settlement = None \<or> (settlement, event) \<notin> (\<lambda>j. (j_settlement j, j_event j)) ` set (db_journals db)) \<and>
     (\<forall>i. settlement = Some i \<longrightarrow> i \<in> st_id ` set (db_settlements db))"
  have 1: "insert_journal j db = Inr x \<longleftrightarrow> fits \<and> x = db1" for x
    by (simp add: insert_journal_Inr fits_def db1_def j_def new_journal_def find_row_simps
        find_none_key find_some_key split: option.split)
  have 2: "flush_balances d c db1 = Inr x \<longleftrightarrow>
      numeric_fits 24 (a_balance d) \<and> 0 \<le> a_balance d \<and> numeric_fits 24 (a_balance c) \<and> 0 \<le> a_balance c \<and>
      x = db2" for x
    using ne by (simp add: flush_balances_Inr c_def d_def db2_def db1_def)
  show ?thesis
  proof (cases fits)
    case False
    then show ?thesis
      unfolding post_entry_def bind_result_eq_Inr j_def [symmetric] 1
      by (auto simp: fits_def entry_fits_def)
  next
    case True
    then have new: "pi_journal ids \<notin> j_id ` set (db_journals db)" by (simp add: fits_def)
    have find: "find_journal (pi_journal ids) db2 = Some j"
      using find_last_journal [OF new] by (simp add: find_journal_def db2_def db1_def j_def)
    have 3: "flush_postings p q db2 = Inr x \<longleftrightarrow>
        numeric_fits 24 amount \<and> 0 < amount \<and> pi_debit ids \<notin> p_id ` set (db_postings db) \<and>
        pi_credit ids \<notin> p_id ` set (db_postings db) \<and> pi_debit ids \<noteq> pi_credit ids \<and>
        x = db2\<lparr>db_postings := db_postings db @ [p, q]\<rparr>" for x
    proof -
      have "\<not> j_posted j" "p_journal p = pi_journal ids" "p_journal q = pi_journal ids"
        "p_account p \<in> a_id ` set (db_accounts db2)" "p_account q \<in> a_id ` set (db_accounts db2)"
        using assms by (simp_all add: j_def new_journal_def p_def q_def new_posting_def db2_def)
      from flush_postings_Inr [OF find this, of x]
      show ?thesis by (simp add: p_def q_def new_posting_def) (auto simp: db2_def db1_def)
    qed
    have 4: "update_journal (pi_journal ids) (j\<lparr>j_posted := True\<rparr>) (db2\<lparr>db_postings := db_postings db @ [p, q]\<rparr>) = Inr db'
        \<longleftrightarrow> db' = entry_db ids settlement event debit credit amount db"
      unfolding j_def
      by (subst post_new_journal [OF new])
        (simp_all add: j_def db2_def db1_def entry_db_def entry_postings_def c_def d_def p_def q_def
          db.update_convs [symmetric], (cases db, simp)?)
    show ?thesis
      unfolding post_entry_def bind_result_eq_Inr apply_posting_Inr j_def [symmetric]
        p_def [symmetric] q_def [symmetric]
      using True by (auto simp: 1 2 3 4 d_def [symmetric] c_def [symmetric] entry_fits_def fits_def)
        (simp_all add: d_def c_def)
  qed
qed

section \<open>The locked accounts\<close>

definition usd_account :: "db \<Rightarrow> purpose_key \<Rightarrow> account option" where
  "usd_account db k = List.find (\<lambda>a. a_currency a = USD \<and> purpose_key a = k) (db_accounts db)"

lemma usd_account_Some:
  "accounts_ok db \<Longrightarrow> usd_account db k = Some a \<longleftrightarrow>
     a \<in> set (db_accounts db) \<and> a_currency a = USD \<and> purpose_key a = k"
proof
  assume ok: "accounts_ok db" and a: "a \<in> set (db_accounts db) \<and> a_currency a = USD \<and> purpose_key a = k"
  have "(\<lambda>b. a_currency b = USD \<and> purpose_key b = k) = (\<lambda>b. account_key b = account_key a)"
    using a by (auto simp: account_key_def purpose_key_def fun_eq_iff)
  with ok a show "usd_account db k = Some a"
    by (simp add: usd_account_def accounts_ok_def find_key_unique)
qed (auto simp: usd_account_def dest: find_Some_set)

lemma usd_account_None:
  "usd_account db k = None \<longleftrightarrow> (\<forall>a \<in> set (db_accounts db). a_currency a = USD \<longrightarrow> purpose_key a \<noteq> k)"
  by (auto simp: usd_account_def find_None_iff)

lemma locked_accounts_get:
  assumes ok: "accounts_ok db" and "locked_accounts keys db = Inr accounts"
  shows "map_of accounts k = (if k \<in> set keys then usd_account db k else None)"
proof -
  define sel where "sel = filter (\<lambda>a. a_currency a = USD \<and> purpose_key a \<in> set keys) (db_accounts db)"
  have accounts: "accounts = rev (map (\<lambda>a. (purpose_key a, a)) (sort_key a_id sel))"
    using assms(2) by (simp add: locked_accounts_def sel_def Let_def split: if_splits)
  have "inj_on purpose_key (set sel)"
  proof (rule inj_onI)
    fix a b assume "a \<in> set sel" "b \<in> set sel" "purpose_key a = purpose_key b"
    then have "account_key a = account_key b" "a \<in> set (db_accounts db)" "b \<in> set (db_accounts db)"
      by (simp_all add: sel_def account_key_def purpose_key_def)
    with ok show "a = b" unfolding accounts_ok_def by (blast intro: distinct_key_eq)
  qed
  moreover have "distinct sel" using ok by (simp add: sel_def accounts_ok_def distinct_map)
  ultimately have dist: "distinct (map fst accounts)"
    by (simp add: accounts rev_map [symmetric] distinct_map comp_def)
  have "map_of accounts k = Some a \<longleftrightarrow> k \<in> set keys \<and> usd_account db k = Some a" for a
    using dict_get_iff [OF dist, of k a] usd_account_Some [OF ok, of k a]
    by (auto simp: accounts sel_def)
  then show ?thesis by (intro option_ext) simp
qed

lemma locked_accounts_Inr:
  assumes ok: "accounts_ok db"
  shows "(\<exists>accounts. locked_accounts keys db = Inr accounts) \<longleftrightarrow> (\<forall>k \<in> set keys. usd_account db k \<noteq> None)"
proof -
  let ?A = "{a \<in> set (db_accounts db). a_currency a = USD \<and> purpose_key a \<in> set keys}"
  have "k \<in> purpose_key ` ?A \<longleftrightarrow> usd_account db k \<noteq> None" if "k \<in> set keys" for k
    using that unfolding usd_account_None image_iff by (metis (mono_tags, lifting) mem_Collect_eq)
  moreover have "purpose_key ` ?A \<subseteq> set keys" by blast
  then have "purpose_key ` ?A = set keys \<longleftrightarrow> (\<forall>k \<in> set keys. k \<in> purpose_key ` ?A)" by blast
  ultimately have "purpose_key ` ?A = set keys \<longleftrightarrow> (\<forall>k \<in> set keys. usd_account db k \<noteq> None)"
    by (metis (no_types))
  moreover have "fst ` set (rev (map (\<lambda>a. (purpose_key a, a))
        (sort_key a_id (filter (\<lambda>a. a_currency a = USD \<and> purpose_key a \<in> set keys) (db_accounts db)))))
      = purpose_key ` ?A"
    by (simp add: image_image)
  ultimately show ?thesis by (simp add: locked_accounts_def Let_def)
qed

text \<open>A movement on the two accounts that the keys select.\<close>

lemma post_eq:
  assumes ok: "accounts_ok db"
  shows "post ids s event debit_key credit_key db =
    (case (usd_account db debit_key, usd_account db credit_key) of
       (Some debit, Some credit) \<Rightarrow>
         if a_balance debit < st_amount s then Inl InsufficientFunds
         else post_entry ids (Some (st_id s)) event debit credit (st_amount s) db
     | _ \<Rightarrow> Inl LookupError)"
proof (cases "locked_accounts [debit_key, credit_key] db")
  case (Inl e)
  then have "\<not> (\<forall>k \<in> set [debit_key, credit_key]. usd_account db k \<noteq> None)"
    using locked_accounts_Inr [OF ok, of "[debit_key, credit_key]"] by simp
  moreover have "e = LookupError" using Inl by (simp add: locked_accounts_def Let_def split: if_splits)
  ultimately show ?thesis using Inl by (auto simp: post_def split: option.split)
next
  case (Inr accounts)
  then show ?thesis
    using locked_accounts_get [OF ok Inr] by (simp add: post_def split: option.split)
qed

text \<open>When a movement succeeds, and what it does then.\<close>

lemma post_Inr:
  assumes ok: "accounts_ok db" and "debit_key \<noteq> credit_key"
  shows "post ids s event debit_key credit_key db = Inr db' \<longleftrightarrow>
    (\<exists>debit credit. usd_account db debit_key = Some debit \<and> usd_account db credit_key = Some credit \<and>
       st_amount s \<le> a_balance debit \<and> entry_fits ids (Some (st_id s)) event db \<and>
       0 < st_amount s \<and> numeric_fits 24 (st_amount s) \<and>
       0 \<le> posted_balance debit DEBIT (st_amount s) \<and> 0 \<le> posted_balance credit CREDIT (st_amount s) \<and>
       numeric_fits 24 (posted_balance debit DEBIT (st_amount s)) \<and>
       numeric_fits 24 (posted_balance credit CREDIT (st_amount s)) \<and>
       db' = entry_db ids (Some (st_id s)) event debit credit (st_amount s) db)"
proof -
  have "a_id debit \<noteq> a_id credit \<and> debit \<in> set (db_accounts db) \<and> credit \<in> set (db_accounts db)"
    if "usd_account db debit_key = Some debit" "usd_account db credit_key = Some credit" for debit credit
    using that assms unfolding usd_account_Some [OF ok] accounts_ok_def
    by (metis distinct_key_eq)
  note rows = this
  show ?thesis
  proof (cases "usd_account db debit_key")
    case None
    then show ?thesis by (simp add: post_eq [OF ok])
  next
    case d: (Some debit)
    show ?thesis
    proof (cases "usd_account db credit_key")
      case None
      with d show ?thesis by (simp add: post_eq [OF ok])
    next
      case c: (Some credit)
      show ?thesis
        using rows [OF d c] by (simp add: post_eq [OF ok] d c post_entry_Inr not_less)
    qed
  qed
qed

section \<open>Books\<close>

text \<open>The balance that the postings of an account add up to.\<close>

definition expected_balance :: "account \<Rightarrow> posting list \<Rightarrow> int" where
  "expected_balance a ps = sum_list (map (signed_amount a) (filter (\<lambda>p. p_account p = a_id a) ps))"

definition books_ok :: "db \<Rightarrow> bool" where
  "books_ok db \<longleftrightarrow> (\<forall>a \<in> set (db_accounts db). a_balance a = expected_balance a (db_postings db))"

definition entries_ok :: "db \<Rightarrow> bool" where
  "entries_ok db \<longleftrightarrow> (\<forall>j \<in> set (db_journals db). j_posted j \<and>
     2 \<le> length (journal_postings (j_id j) db) \<and> balanced (journal_postings (j_id j) db))"

definition ledger_ok :: "db \<Rightarrow> bool" where
  "ledger_ok db \<longleftrightarrow> schema_ok db \<and> books_ok db \<and> entries_ok db"

lemma expected_balance_append [simp]:
  "expected_balance a (ps @ qs) = expected_balance a ps + expected_balance a qs"
  by (simp add: expected_balance_def)

lemma expected_balance_cong:
  "a_id a = a_id b \<Longrightarrow> a_class a = a_class b \<Longrightarrow> expected_balance a ps = expected_balance b ps"
  by (simp add: expected_balance_def signed_amount_def cong: map_cong)

lemma expected_balance_entry:
  assumes "a_id debit \<noteq> a_id credit"
  shows "expected_balance a (entry_postings ids debit credit amount) =
    (if a_id a = a_id debit then (if increases (a_class a) DEBIT then amount else - amount)
     else if a_id a = a_id credit then (if increases (a_class a) CREDIT then amount else - amount) else 0)"
  using assms by (auto simp: expected_balance_def entry_postings_def new_posting_def signed_amount_def)

text \<open>The rows of the accounts after a movement.\<close>

lemma entry_account:
  assumes "a \<in> set (db_accounts (entry_db ids settlement event debit credit amount db))"
  obtains b where "b \<in> set (db_accounts db)" and "a = b\<lparr>a_balance := (if a_id b = a_id credit
      then posted_balance credit CREDIT amount else if a_id b = a_id debit
      then posted_balance debit DEBIT amount else a_balance b)\<rparr>"
  using assms by (fastforce simp: entry_db_def set_balance_def upd_rows_def split: if_splits)

lemma books_entry:
  assumes "books_ok db" and ok: "accounts_ok db"
    and "debit \<in> set (db_accounts db)" and "credit \<in> set (db_accounts db)"
    and ne: "a_id debit \<noteq> a_id credit"
  shows "books_ok (entry_db ids settlement event debit credit amount db)"
  unfolding books_ok_def
proof
  fix a assume "a \<in> set (db_accounts (entry_db ids settlement event debit credit amount db))"
  then obtain b where b: "b \<in> set (db_accounts db)" "a = b\<lparr>a_balance := (if a_id b = a_id credit
      then posted_balance credit CREDIT amount else if a_id b = a_id debit
      then posted_balance debit DEBIT amount else a_balance b)\<rparr>"
    by (rule entry_account)
  have same: "b = c" if "a_id b = a_id c" "c \<in> set (db_accounts db)" for c
    using that b(1) ok unfolding accounts_ok_def by (metis distinct_key_eq)
  have "expected_balance a (db_postings db) = a_balance b"
    using assms(1) b expected_balance_cong [of a b "db_postings db"] by (auto simp: books_ok_def)
  then show "a_balance a = expected_balance a
      (db_postings (entry_db ids settlement event debit credit amount db))"
    using same [of debit] same [of credit] assms(3,4) ne
    by (auto simp: entry_db_def expected_balance_entry [OF ne] b(2) posted_balance_def)
qed

lemma entries_entry:
  assumes "entries_ok db" and ok: "postings_ok db" and fits: "entry_fits ids settlement event db"
  shows "entries_ok (entry_db ids settlement event debit credit amount db)"
proof -
  let ?db = "entry_db ids settlement event debit credit amount db"
  let ?new = "entry_postings ids debit credit amount"
  have new: "journal_postings (pi_journal ids) ?db = ?new"
  proof -
    have "p_journal p \<noteq> pi_journal ids" if "p \<in> set (db_postings db)" for p
      using that ok fits unfolding postings_ok_def entry_fits_def by metis
    then show ?thesis
      by (auto simp: journal_postings_def entry_db_def entry_postings_def new_posting_def
          filter_empty_conv)
  qed
  have old: "journal_postings i ?db = journal_postings i db" if "i \<noteq> pi_journal ids" for i
    using that by (simp add: journal_postings_def entry_db_def entry_postings_def new_posting_def)
  have "balanced ?new"
    by (simp add: balanced_def list_all_iff side_total_def entry_postings_def new_posting_def)
  moreover have "length ?new = 2" by (simp add: entry_postings_def)
  ultimately have entry: "2 \<le> length (journal_postings (pi_journal ids) ?db) \<and>
      balanced (journal_postings (pi_journal ids) ?db)" using new by simp
  have rows: "db_journals ?db = db_journals db @ [(new_journal (pi_journal ids) settlement event)\<lparr>j_posted := True\<rparr>]"
    by (simp add: entry_db_def)
  have "j_posted j \<and> 2 \<le> length (journal_postings (j_id j) ?db) \<and> balanced (journal_postings (j_id j) ?db)"
    if "j \<in> set (db_journals db)" for j
  proof -
    have "j_id j \<in> j_id ` set (db_journals db)" using that by (rule imageI)
    with fits have "j_id j \<noteq> pi_journal ids" unfolding entry_fits_def by metis
    then show ?thesis using that assms(1) old [of "j_id j"] by (simp add: entries_ok_def)
  qed
  with entry show ?thesis by (auto simp: entries_ok_def rows new_journal_def)
qed

lemma schema_flush_balances: "flush_balances a b db = Inr db' \<Longrightarrow> schema_ok db \<Longrightarrow> schema_ok db'"
  by (auto simp: flush_balances_def bind_result_eq_Inr split: if_splits intro: schema_update_balance)

lemma schema_flush_postings: "flush_postings p q db = Inr db' \<Longrightarrow> schema_ok db \<Longrightarrow> schema_ok db'"
  by (auto simp: flush_postings_def bind_result_eq_Inr intro: schema_insert_posting)

lemma schema_post_entry:
  "post_entry ids settlement event debit credit amount db = Inr db' \<Longrightarrow> schema_ok db \<Longrightarrow> schema_ok db'"
  unfolding post_entry_def bind_result_eq_Inr
  by (meson schema_flush_balances schema_flush_postings schema_insert_journal schema_update_journal)

lemma usd_account_entry:
  assumes ne: "a_id debit \<noteq> a_id credit"
  shows "usd_account (entry_db ids settlement event debit credit amount db) k =
    map_option (\<lambda>b. b\<lparr>a_balance := (if a_id b = a_id credit then posted_balance credit CREDIT amount
      else if a_id b = a_id debit then posted_balance debit DEBIT amount else a_balance b)\<rparr>) (usd_account db k)"
proof -
  have "db_accounts (entry_db ids settlement event debit credit amount db)
      = map (\<lambda>b. b\<lparr>a_balance := (if a_id b = a_id credit then posted_balance credit CREDIT amount
          else if a_id b = a_id debit then posted_balance debit DEBIT amount else a_balance b)\<rparr>) (db_accounts db)"
    using ne by (auto simp: entry_db_def set_balance_def upd_rows_def)
  moreover have "List.find P (map f t) = map_option f (List.find P t)"
    if "\<And>r. P (f r) = P r" for P and f :: "account \<Rightarrow> account" and t
    using that by (induction t) auto
  ultimately show ?thesis by (simp add: usd_account_def purpose_key_def)
qed

lemma usd_account_id:
  assumes "accounts_ok db" and "usd_account db k = Some a" and "usd_account db l = Some b"
  shows "a_id a = a_id b \<longleftrightarrow> k = l"
  using assms(2,3) assms(1) unfolding usd_account_Some [OF assms(1)] accounts_ok_def
  by (metis account_key_def distinct_key_eq prod.inject purpose_key_def)

lemma usd_account_moved:
  assumes ok: "accounts_ok db" and d: "usd_account db dk = Some debit"
    and c: "usd_account db ck = Some credit" and "dk \<noteq> ck"
  shows "usd_account (entry_db ids settlement event debit credit amount db) k =
    (if k = ck then Some (credit\<lparr>a_balance := posted_balance credit CREDIT amount\<rparr>)
     else if k = dk then Some (debit\<lparr>a_balance := posted_balance debit DEBIT amount\<rparr>)
     else usd_account db k)"
proof -
  have ne: "a_id debit \<noteq> a_id credit" using usd_account_id [OF ok d c] assms(4) by simp
  show ?thesis
  proof (cases "usd_account db k")
    case None
    with c d have "k \<noteq> ck" "k \<noteq> dk" by auto
    with None show ?thesis by (simp add: usd_account_entry [OF ne])
  next
    case (Some b)
    have ids: "a_id b = a_id credit \<longleftrightarrow> k = ck" "a_id b = a_id debit \<longleftrightarrow> k = dk"
      using usd_account_id [OF ok Some c] usd_account_id [OF ok Some d] .
    have "usd_account (entry_db ids settlement event debit credit amount db) k =
      Some (b\<lparr>a_balance := (if k = ck then posted_balance credit CREDIT amount
        else if k = dk then posted_balance debit DEBIT amount else a_balance b)\<rparr>)"
      by (simp add: usd_account_entry [OF ne] Some ids)
    moreover have "k = ck \<Longrightarrow> b = credit" and "k = dk \<Longrightarrow> b = debit" using Some c d by auto
    ultimately show ?thesis using Some by auto
  qed
qed

section \<open>Money is conserved\<close>

text \<open>Assets minus liabilities in a currency.\<close>

definition net_value :: "currency \<Rightarrow> account \<Rightarrow> int" where
  "net_value c a = (if a_currency a \<noteq> c then 0
     else case a_class a of ASSET \<Rightarrow> a_balance a | LIABILITY \<Rightarrow> - a_balance a)"

definition net_position :: "currency \<Rightarrow> db \<Rightarrow> int" where
  "net_position c db = sum_list (map (net_value c) (db_accounts db))"

lemma sum_set_balance:
  fixes g :: "account \<Rightarrow> int"
  assumes "distinct (map a_id t)" and "a \<in> set t"
  shows "sum_list (map g (set_balance (a_id a) b t)) = sum_list (map g t) - g a + g (a\<lparr>a_balance := b\<rparr>)"
  using sum_upd_rows_key [OF assms, of g "a_balance_update (\<lambda>_. b)"] by (simp add: set_balance_def)

lemma sum_entry_accounts:
  fixes g :: "account \<Rightarrow> int"
  assumes "accounts_ok db" and "debit \<in> set (db_accounts db)" and "credit \<in> set (db_accounts db)"
    and ne: "a_id debit \<noteq> a_id credit"
  shows "sum_list (map g (db_accounts (entry_db ids settlement event debit credit amount db))) =
    sum_list (map g (db_accounts db))
      - g debit + g (debit\<lparr>a_balance := posted_balance debit DEBIT amount\<rparr>)
      - g credit + g (credit\<lparr>a_balance := posted_balance credit CREDIT amount\<rparr>)"
proof -
  let ?t = "set_balance (a_id debit) (posted_balance debit DEBIT amount) (db_accounts db)"
  have dist: "distinct (map a_id (db_accounts db))" using assms(1) by (simp add: accounts_ok_def)
  then have "distinct (map a_id ?t)" by (simp add: set_balance_def map_upd_rows)
  moreover have "credit \<in> set ?t"
    using assms(3) ne by (auto simp: set_balance_def set_upd_rows image_iff intro: bexI [of _ credit])
  ultimately show ?thesis
    using sum_set_balance [of ?t credit] sum_set_balance [OF dist assms(2)]
    by (simp add: entry_db_def)
qed

lemma net_position_entry:
  assumes "accounts_ok db" and "debit \<in> set (db_accounts db)" and "credit \<in> set (db_accounts db)"
    and "a_id debit \<noteq> a_id credit" and "a_currency debit = a_currency credit"
  shows "net_position c (entry_db ids settlement event debit credit amount db) = net_position c db"
  using assms(5) unfolding net_position_def sum_entry_accounts [OF assms(1-4)]
  by (auto simp: net_value_def posted_balance_def increases_def split: account_class.splits)

section \<open>The audit\<close>

definition total_of :: "journal_totals \<Rightarrow> nat \<times> currency \<Rightarrow> int \<times> int" where
  "total_of totals k = (case map_of totals k of None \<Rightarrow> (0, 0) | Some t \<Rightarrow> t)"

definition sides :: "posting list \<Rightarrow> nat \<times> currency \<Rightarrow> int \<times> int" where
  "sides ps k =
     (side_total DEBIT (snd k) (filter (\<lambda>p. p_journal p = fst k) ps),
      side_total CREDIT (snd k) (filter (\<lambda>p. p_journal p = fst k) ps))"

lemma total_of_add: "total_of (add_total p totals) k =
    (fst (total_of totals k) + fst (sides [p] k), snd (total_of totals k) + snd (sides [p] k))"
  by (auto simp: total_of_def add_total_def sides_def side_total_def Let_def
      split: option.splits posting_side.splits)

lemma sides_Cons: "sides (p # ps) k = (fst (sides [p] k) + fst (sides ps k), snd (sides [p] k) + snd (sides ps k))"
  by (simp add: sides_def side_total_def)

lemma dist_add: "distinct (map fst totals) \<Longrightarrow> distinct (map fst (add_total p totals))"
  by (simp add: add_total_def Let_def distinct_update)

lemma audit_loop_totals:
  assumes "audit_loop accounts ps totals expected = Inr (totals', expected')"
  shows "total_of totals' k = (fst (total_of totals k) + fst (sides ps k), snd (total_of totals k) + snd (sides ps k))
    \<and> (distinct (map fst totals) \<longrightarrow> distinct (map fst totals'))"
  using assms
proof (induction ps arbitrary: totals expected)
  case Nil
  then show ?case by (simp add: sides_def side_total_def)
next
  case (Cons p ps)
  then show ?case
    by (auto simp: total_of_add sides_Cons [of p ps] dist_add split: option.splits)
qed

lemma audit_lookup:
  assumes "distinct (map a_id accounts)"
  shows "map_of (rev (map (\<lambda>a. (a_id a, a)) accounts)) i = List.find (\<lambda>a. a_id a = i) accounts"
proof (rule option_ext)
  fix a
  have "distinct (map fst (rev (map (\<lambda>a. (a_id a, a)) accounts)))"
    using assms by (simp add: rev_map [symmetric] comp_def)
  then have "map_of (rev (map (\<lambda>a. (a_id a, a)) accounts)) i = Some a \<longleftrightarrow> a \<in> set accounts \<and> a_id a = i"
    by (auto simp: dict_get_iff)
  also have "\<dots> \<longleftrightarrow> List.find (\<lambda>a. a_id a = i) accounts = Some a"
    using find_key_unique [OF assms, of a i] find_Some_set [of "\<lambda>a. a_id a = i" accounts a] by blast
  finally show "map_of (rev (map (\<lambda>a. (a_id a, a)) accounts)) i = Some a
    \<longleftrightarrow> List.find (\<lambda>a. a_id a = i) accounts = Some a" .
qed

lemma map_entry_get [simp]:
  "map_of (AList.map_entry k f d) k' = (if k' = k then map_option f (map_of d k) else map_of d k')"
  by (induction d) auto

lemma audit_loop_expected:
  assumes "audit_loop accounts ps totals expected = Inr (totals', expected')"
    and "distinct (map a_id accounts)" and "a \<in> set accounts"
  shows "map_of expected' (a_id a) = map_option (\<lambda>b. b + expected_balance a ps) (map_of expected (a_id a))"
  using assms(1)
proof (induction ps arbitrary: totals expected)
  case Nil
  then show ?case by (simp add: expected_balance_def option.map_ident)
next
  case (Cons p ps)
  obtain b where b: "List.find (\<lambda>a. a_id a = p_account p) accounts = Some b"
    and loop: "audit_loop accounts ps (add_total p totals)
      (AList.map_entry (p_account p) (\<lambda>x. x + signed_amount b p) expected) = Inr (totals', expected')"
    using Cons.prems by (auto simp: audit_lookup [OF assms(2)] split: option.splits)
  have "p_account p = a_id a \<Longrightarrow> b = a"
    using b find_key_unique [OF assms(2,3)] by simp
  with Cons.IH [OF loop] show ?case
    by (auto simp: expected_balance_def option.map_comp comp_def add.assoc)
qed

lemma audit_loop_Inr:
  assumes "distinct (map a_id accounts)" and "\<forall>p \<in> set ps. p_account p \<in> a_id ` set accounts"
  shows "\<exists>r. audit_loop accounts ps totals expected = Inr r"
  using assms(2)
proof (induction ps arbitrary: totals expected)
  case (Cons p ps)
  have "p_account p \<in> a_id ` set accounts" using Cons.prems by simp
  then have "List.find (\<lambda>a. a_id a = p_account p) accounts \<noteq> None" by (simp only: find_some_key)
  with Cons show ?case by (auto simp: audit_lookup [OF assms(1)])
qed simp

lemma totals_balanced:
  assumes "distinct (map fst totals)"
  shows "list_all (\<lambda>(_, d, c). d = c) totals \<longleftrightarrow> (\<forall>k. fst (total_of totals k) = snd (total_of totals k))"
proof -
  have "(\<forall>k. fst (total_of totals k) = snd (total_of totals k)) \<longleftrightarrow>
      (\<forall>k d c. map_of totals k = Some (d, c) \<longrightarrow> d = c)"
    by (auto simp: total_of_def split: option.splits)
  then show ?thesis by (auto simp: list_all_iff dict_get_iff [OF assms])
qed

lemma audit_Inr:
  assumes ok: "schema_ok db"
  shows "assert_ledger_invariants tracked db = Inr () \<longleftrightarrow>
    (\<forall>b. Some b \<in> set tracked \<longrightarrow> 0 \<le> b) \<and> books_ok db \<and>
    (\<forall>i c. side_total DEBIT c (journal_postings i db) = side_total CREDIT c (journal_postings i db))"
proof -
  have dist: "distinct (map a_id (db_accounts db))" using ok by (simp add: schema_defs)
  let ?zero = "map (\<lambda>a. (a_id a, 0 :: int)) (db_accounts db)"
  have "\<forall>p \<in> set (db_postings db). p_account p \<in> a_id ` set (db_accounts db)"
    using ok by (simp add: schema_defs)
  from audit_loop_Inr [OF dist this, of "[]" ?zero] obtain totals expected where
    loop: "audit_loop (db_accounts db) (db_postings db) [] ?zero = Inr (totals, expected)" by auto
  have "total_of totals k = sides (db_postings db) k" for k
    using audit_loop_totals [OF loop, of k] by (simp add: total_of_def)
  moreover have "distinct (map fst totals)" using audit_loop_totals [OF loop] by simp
  ultimately have 1: "list_all (\<lambda>(_, d, c). d = c) totals \<longleftrightarrow>
      (\<forall>i c. side_total DEBIT c (journal_postings i db) = side_total CREDIT c (journal_postings i db))"
    by (simp add: totals_balanced sides_def journal_postings_def)
  have "map_of ?zero (a_id a) = Some 0" if "a \<in> set (db_accounts db)" for a
    using that dict_get_iff [of ?zero "a_id a" 0] dist by (auto simp: comp_def)
  then have "map_of expected (a_id a) = Some (expected_balance a (db_postings db))"
    if "a \<in> set (db_accounts db)" for a
    using audit_loop_expected [OF loop dist that] that by simp
  then have 2: "list_all (\<lambda>a. map_of expected (a_id a) = Some (a_balance a)) (db_accounts db) \<longleftrightarrow> books_ok db"
    by (auto simp: list_all_iff books_ok_def)
  have 3: "list_all (\<lambda>a. 0 \<le> a_balance a) (db_accounts db)"
    using ok by (simp add: schema_defs list_all_iff)
  have 4: "list_all (\<lambda>b. case b of None \<Rightarrow> True | Some n \<Rightarrow> 0 \<le> n) tracked \<longleftrightarrow>
      (\<forall>b. Some b \<in> set tracked \<longrightarrow> 0 \<le> b)"
    by (auto simp: list_all_iff split: option.splits)
  show ?thesis
    unfolding assert_ledger_invariants_def
    by (auto simp: loop 1 2 3 4 bind_result_eq_Inr guard_result_eq_Inr)
qed

end
