(* ===== verification/Seed.thy ===== *)
theory Seed
  imports Ledger
begin

text \<open>
  The demo ledger of \<open>app/seed.py\<close>: two omnibus accounts, the two accounts of one customer and
  the opening journal, created once and validated on every later run.  The advisory lock makes
  concurrent seeds serial; \<open>main\<close> is the transaction around it.  The amount is a number of units
  of \<open>10 ^ -8\<close> (an amount with more decimals would be rounded by its column and then fail the
  comparison with the stored postings).
\<close>

type_synonym seed_accounts = "((string \<times> currency \<times> account_purpose) \<times> account) list"

definition seed_account_keys :: "string \<Rightarrow> (string \<times> currency \<times> account_purpose) list" where
  "seed_account_keys owner =
     [(owner, USD, AVAILABLE), (owner, USD, RESERVED), (''system'', USD, OMNIBUS), (''system'', USDC, OMNIBUS)]"

definition load_seed_accounts :: "string \<Rightarrow> db \<Rightarrow> seed_accounts" where
  "load_seed_accounts owner db =
     map (\<lambda>a. (account_key a, a))
       (filter (\<lambda>a. account_key a \<in> set (seed_account_keys owner)) (db_accounts db))"

definition side_value :: "posting_side \<Rightarrow> string" where
  "side_value side = (case side of DEBIT \<Rightarrow> ''DEBIT'' | CREDIT \<Rightarrow> ''CREDIT'')"

type_synonym posting_tuple = "nat \<times> string \<times> string \<times> int"

definition inconsistent :: app_error where
  "inconsistent = RuntimeError ''seed state is inconsistent''"

definition validate_existing_seed :: "string \<Rightarrow> int \<Rightarrow> seed_accounts \<Rightarrow> db \<Rightarrow> app_error + unit" where
  "validate_existing_seed owner amount accounts db =
     (case (map_of accounts (owner, USD, AVAILABLE), map_of accounts (owner, USD, RESERVED),
            map_of accounts (''system'', USD, OMNIBUS), map_of accounts (''system'', USDC, OMNIBUS)) of
        (Some available, Some reserved, Some omnibus_usd, Some omnibus_usdc) \<Rightarrow>
          if a_class available \<noteq> LIABILITY \<or> a_class reserved \<noteq> LIABILITY \<or>
             a_class omnibus_usd \<noteq> ASSET \<or> a_class omnibus_usdc \<noteq> ASSET
          then Inl inconsistent
          else (case filter (\<lambda>j. j_event j = OPENING \<and> j_settlement j = None) (db_journals db) of
            [opening] \<Rightarrow>
              let actual = sort (map (\<lambda>p. (p_account p, currency_value (p_currency p), side_value (p_side p), p_amount p))
                    (journal_postings (j_id opening) db)) :: posting_tuple list;
                  expected = sort
                    [(a_id omnibus_usd, currency_value USD, side_value DEBIT, amount),
                     (a_id available, currency_value USD, side_value CREDIT, amount)]
              in if actual \<noteq> expected then Inl inconsistent
                 else (case assert_ledger_invariants (map (\<lambda>(_, a). Some (a_balance a)) accounts) db of
                   Inl (AssertionError _) \<Rightarrow> Inl inconsistent
                 | r \<Rightarrow> r)
          | _ \<Rightarrow> Inl inconsistent)
      | _ \<Rightarrow> Inl inconsistent)"

text \<open>The ids drawn for the new rows.\<close>

record seed_ids =
  si_omnibus_usd :: nat
  si_omnibus_usdc :: nat
  si_available :: nat
  si_reserved :: nat
  si_post :: post_ids

definition new_account :: "nat \<Rightarrow> string \<Rightarrow> currency \<Rightarrow> account_class \<Rightarrow> account_purpose \<Rightarrow> account" where
  "new_account i owner c class purpose =
     \<lparr>a_id = i, a_owner = owner, a_currency = c, a_class = class, a_purpose = purpose, a_balance = 0\<rparr>"

fun insert_accounts :: "account list \<Rightarrow> statement" where
  "insert_accounts [] db = Inr db"
| "insert_accounts (a # as) db = bind_result (insert_account a db) (insert_accounts as)"

definition create_seed :: "seed_ids \<Rightarrow> string \<Rightarrow> int \<Rightarrow> statement" where
  "create_seed ids owner amount db =
     (let omnibus_usd = new_account (si_omnibus_usd ids) ''system'' USD ASSET OMNIBUS;
          omnibus_usdc = new_account (si_omnibus_usdc ids) ''system'' USDC ASSET OMNIBUS;
          available = new_account (si_available ids) owner USD LIABILITY AVAILABLE;
          reserved = new_account (si_reserved ids) owner USD LIABILITY RESERVED
      in bind_result (insert_accounts [omnibus_usd, omnibus_usdc, available, reserved] db)
           (post_entry (si_post ids) None OPENING omnibus_usd available amount))"

definition seed_demo_accounts :: "seed_ids \<Rightarrow> string \<Rightarrow> int \<Rightarrow> unit transaction" where
  "seed_demo_accounts ids owner amount db =
     (let accounts = load_seed_accounts owner db
      in if map_of accounts (owner, USD, AVAILABLE) \<noteq> None \<and> map_of accounts (owner, USD, RESERVED) \<noteq> None
         then bind_result (validate_existing_seed owner amount accounts db) (\<lambda>_. Inr ((), db))
         else if accounts \<noteq> [] \<or> filter (\<lambda>j. j_event j = OPENING) (db_journals db) \<noteq> []
         then Inl inconsistent
         else bind_result (create_seed ids owner amount db) (\<lambda>db'.
           bind_result (validate_existing_seed owner amount (load_seed_accounts owner db') db')
             (\<lambda>_. Inr ((), db'))))"

definition seed_main :: "seed_ids \<Rightarrow> string \<Rightarrow> int \<Rightarrow> db \<Rightarrow> (app_error + unit) \<times> db" where
  "seed_main ids owner amount = transact (seed_demo_accounts ids owner amount)"

end
