(* ===== verification/Ledger_Properties.thy ===== *)
theory Ledger_Properties
  imports Ledger_Correctness Seed Decimal_Rounding
begin

text \<open>
  The properties of the ledger and of its seed: seeding reaches a correct ledger and is
  idempotent, every movement keeps the ledger correct and conserves money, and the audit
  accepts exactly the correct ledgers.
\<close>

section \<open>The seed reaches a correct ledger\<close>

lemma no_postings_expected:
  "a_id a \<notin> p_account ` set ps \<Longrightarrow> expected_balance a ps = 0"
proof -
  assume "a_id a \<notin> p_account ` set ps"
  then have "filter (\<lambda>p. p_account p = a_id a) ps = []"
    unfolding filter_empty_conv by (metis imageI)
  then show ?thesis by (simp add: expected_balance_def)
qed

lemma books_insert_account:
  assumes "books_ok db" and "schema_ok db" and "insert_account a db = Inr db'" and "a_balance a = 0"
  shows "books_ok db'"
proof -
  have "a_id a \<notin> a_id ` set (db_accounts db)"
    using assms(3) by (simp add: insert_account_Inr find_account_def find_none_key)
  then have "a_id a \<notin> p_account ` set (db_postings db)"
    using assms(2) by (auto simp: schema_defs)
  then show ?thesis
    using assms no_postings_expected by (auto simp: insert_account_Inr books_ok_def)
qed

lemma ledger_insert_account:
  assumes "ledger_ok db" and "insert_account a db = Inr db'" and "a_balance a = 0"
  shows "ledger_ok db'"
proof -
  have "entries_ok db'"
    using assms(1,2) by (auto simp: ledger_ok_def entries_ok_def insert_account_Inr journal_postings_def)
  then show ?thesis
    using assms schema_insert_account books_insert_account unfolding ledger_ok_def by blast
qed

lemma ledger_insert_accounts:
  "insert_accounts as db = Inr db' \<Longrightarrow> ledger_ok db \<Longrightarrow> \<forall>a \<in> set as. a_balance a = 0 \<Longrightarrow>
     ledger_ok db' \<and> set (db_accounts db') = set (db_accounts db) \<union> set as"
proof (induction as arbitrary: db)
  case (Cons a as)
  then obtain db1 where db1: "insert_account a db = Inr db1" "insert_accounts as db1 = Inr db'"
    by (auto simp: bind_result_eq_Inr)
  with Cons have "ledger_ok db' \<and> set (db_accounts db') = set (db_accounts db1) \<union> set as"
    using ledger_insert_account [OF _ db1(1)] by simp
  moreover have "set (db_accounts db1) = insert a (set (db_accounts db))"
    using db1(1) by (auto simp: insert_account_Inr)
  ultimately show ?case by auto
qed simp

lemma ledger_post_entry:
  assumes "ledger_ok db" and "debit \<in> set (db_accounts db)" and "credit \<in> set (db_accounts db)"
    and "a_id debit \<noteq> a_id credit"
    and post: "post_entry ids settlement event debit credit amount db = Inr db'"
  shows "ledger_ok db'"
proof -
  have eq: "entry_fits ids settlement event db" "db' = entry_db ids settlement event debit credit amount db"
    using post assms(2-4) by (simp_all add: post_entry_Inr)
  have ok: "accounts_ok db" "postings_ok db" using assms(1) by (simp_all add: ledger_ok_def schema_ok_def)
  have "books_ok db'" using books_entry [OF _ ok(1) assms(2-4)] assms(1) by (simp add: eq(2) ledger_ok_def)
  moreover have "entries_ok db'" using entries_entry [OF _ ok(2) eq(1)] assms(1) by (simp add: eq(2) ledger_ok_def)
  moreover have "schema_ok db'" using schema_post_entry [OF post] assms(1) by (simp add: ledger_ok_def)
  ultimately show ?thesis by (simp add: ledger_ok_def)
qed

lemma ledger_commit: "ledger_ok db \<Longrightarrow> commit db = Inr db' \<Longrightarrow> ledger_ok db'"
  using schema_commit by (auto simp: ledger_ok_def commit_Inr books_ok_def entries_ok_def journal_postings_def)

lemma ledger_create_seed:
  assumes "ledger_ok db" and "create_seed ids owner amount db = Inr db'"
  shows "ledger_ok db'"
proof -
  define omnibus where "omnibus = new_account (si_omnibus_usd ids) ''system'' USD ASSET OMNIBUS"
  define omnibus' where "omnibus' = new_account (si_omnibus_usdc ids) ''system'' USDC ASSET OMNIBUS"
  define available where "available = new_account (si_available ids) owner USD LIABILITY AVAILABLE"
  define reserved where "reserved = new_account (si_reserved ids) owner USD LIABILITY RESERVED"
  obtain db1 where db1: "insert_accounts [omnibus, omnibus', available, reserved] db = Inr db1"
    and post: "post_entry (si_post ids) None OPENING omnibus available amount db1 = Inr db'"
    using assms(2) by (auto simp: create_seed_def Let_def bind_result_eq_Inr omnibus_def omnibus'_def
        available_def reserved_def)
  have 1: "ledger_ok db1" "omnibus \<in> set (db_accounts db1)" "available \<in> set (db_accounts db1)"
    using ledger_insert_accounts [OF db1 assms(1)]
    by (auto simp: omnibus_def omnibus'_def available_def reserved_def new_account_def)
  then have "distinct (map a_id (db_accounts db1))" by (simp add: ledger_ok_def schema_defs)
  with 1(2,3) have "a_id omnibus \<noteq> a_id available"
    using distinct_key_eq [of a_id "db_accounts db1" omnibus available]
    by (auto simp: omnibus_def available_def new_account_def)
  with 1 post show ?thesis by (blast intro: ledger_post_entry)
qed

lemma ledger_seed:
  assumes "ledger_ok db" and "seed_demo_accounts ids owner amount db = Inr (u, db')"
  shows "ledger_ok db'"
  using assms
  by (auto simp: seed_demo_accounts_def Let_def bind_result_eq_Inr split: if_splits intro: ledger_create_seed)

lemma empty_ledger: "ledger_ok empty_db"
  using empty_schema by (simp add: ledger_ok_def books_ok_def entries_ok_def empty_db_def)

definition demo_ids :: seed_ids where
  "demo_ids = \<lparr>si_omnibus_usd = 1, si_omnibus_usdc = 2, si_available = 3, si_reserved = 4,
     si_post = \<lparr>pi_journal = 5, pi_debit = 6, pi_credit = 7\<rparr>\<rparr>"

text \<open>The default demo: 100000 USD for \<open>demo-customer\<close>.\<close>

definition demo_db :: db where
  "demo_db = snd (seed_main demo_ids ''demo-customer'' 10000000000000 empty_db)"

lemma seeded: "seed_main demo_ids ''demo-customer'' 10000000000000 empty_db = (Inr (), demo_db)"
proof -
  have "fst (seed_main demo_ids ''demo-customer'' 10000000000000 empty_db) = Inr ()" by code_simp
  then show ?thesis by (simp add: demo_db_def prod_eq_iff)
qed

lemma seed_ledger:
  assumes "seed_main ids owner amount db = (Inr u, db')" and "ledger_ok db"
  shows "ledger_ok db'"
  using assms unfolding seed_main_def transact_Inr by (blast intro: ledger_seed ledger_commit)

lemma demo_ledger: "ledger_ok demo_db"
  by (rule seed_ledger [OF seeded empty_ledger])

section \<open>Movements\<close>

text \<open>What the three movements share: distinct keys, and the event and keys of each.\<close>

lemma movement_entry:
  assumes ok: "accounts_ok db" and "debit_key \<noteq> credit_key"
    and "post ids s event debit_key credit_key db = Inr db'"
  obtains debit credit where "usd_account db debit_key = Some debit" and "usd_account db credit_key = Some credit"
    and "debit \<in> set (db_accounts db)" and "credit \<in> set (db_accounts db)" and "a_id debit \<noteq> a_id credit"
    and "a_currency debit = a_currency credit" and "st_amount s \<le> a_balance debit"
    and "db' = entry_db ids (Some (st_id s)) event debit credit (st_amount s) db"
    and "post_entry ids (Some (st_id s)) event debit credit (st_amount s) db = Inr db'"
proof -
  from assms(3) obtain debit credit where a: "usd_account db debit_key = Some debit"
    "usd_account db credit_key = Some credit" "st_amount s \<le> a_balance debit"
    "db' = entry_db ids (Some (st_id s)) event debit credit (st_amount s) db"
    unfolding post_Inr [OF ok assms(2)] by blast
  then have b: "debit \<in> set (db_accounts db)" "credit \<in> set (db_accounts db)"
    "a_currency debit = a_currency credit" "purpose_key debit \<noteq> purpose_key credit"
    using assms(2) by (auto simp: usd_account_Some [OF ok])
  then have "a_id debit \<noteq> a_id credit"
    using ok unfolding accounts_ok_def by (metis distinct_key_eq)
  moreover have "post_entry ids (Some (st_id s)) event debit credit (st_amount s) db = Inr db'"
    using assms(3) a(1-3) by (simp add: post_eq [OF ok])
  ultimately show ?thesis using that a b by blast
qed

lemmas movement_defs = reserve_def consume_def release_def

lemma movement_cases:
  assumes "reserve ids s db = Inr db' \<or> consume ids s db = Inr db' \<or> release ids s db = Inr db'"
  obtains event debit_key credit_key where "debit_key \<noteq> credit_key"
    and "post ids s event debit_key credit_key db = Inr db'"
  using assms that [of "(st_owner s, AVAILABLE)" "(st_owner s, RESERVED)" RESERVE]
    that [of "(st_owner s, RESERVED)" "(''system'', OMNIBUS)" CONSUME]
    that [of "(st_owner s, RESERVED)" "(st_owner s, AVAILABLE)" RELEASE]
  unfolding movement_defs by auto

lemma ledger_movement:
  assumes "ledger_ok db" and "debit_key \<noteq> credit_key" and "post ids s event debit_key credit_key db = Inr db'"
  shows "ledger_ok db' \<and> net_position c db' = net_position c db"
proof -
  have ok: "accounts_ok db" using assms(1) by (simp add: ledger_ok_def schema_ok_def)
  from movement_entry [OF ok assms(2,3)] show ?thesis
    using ledger_post_entry [OF assms(1)] net_position_entry [OF ok] by metis
qed

section \<open>Properties\<close>

text \<open>
  Reserving, consuming and releasing keep the ledger correct: the schema holds, every account
  balance is the signed sum of its postings, every journal is posted and balanced; and the net
  position (assets minus liabilities) of every currency stays the same.
\<close>

lemma movements_keep_ledger:
  assumes "ledger_ok db"
    and "reserve ids s db = Inr db' \<or> consume ids s db = Inr db' \<or> release ids s db = Inr db'"
  shows "ledger_ok db' \<and> net_position c db' = net_position c db"
  using ledger_movement [OF assms(1)] movement_cases [OF assms(2)] by metis

text \<open>A settlement of the demo customer over 250 USD.\<close>

definition demo_settlement :: settlement where
  "demo_settlement = \<lparr>st_id = 100, st_owner = ''demo-customer'', st_key = ''k1'', st_fingerprint = ''f1'',
     st_amount = 25000000000, st_target = EUR, st_route = [], st_version = 1, st_rate = 92000000,
     st_quoted = 23000000000, st_operation = 100, st_status = S_RESERVED\<rparr>"

definition demo_settled_db :: db where
  "demo_settled_db = demo_db\<lparr>db_settlements := [demo_settlement]\<rparr>"

definition demo_post_ids :: post_ids where
  "demo_post_ids = \<lparr>pi_journal = 101, pi_debit = 102, pi_credit = 103\<rparr>"

lemma demo_settled_ledger: "ledger_ok demo_settled_db"
proof -
  have "insert_settlement demo_settlement demo_db = Inr demo_settled_db"
    unfolding demo_settled_db_def demo_db_def by code_simp
  then have "schema_ok demo_settled_db"
    using demo_ledger unfolding ledger_ok_def by (blast intro: schema_insert_settlement)
  then show ?thesis
    using demo_ledger by (simp add: ledger_ok_def books_ok_def entries_ok_def demo_settled_db_def journal_postings_def)
qed

definition demo_reserved_db :: db where
  "demo_reserved_db = (case reserve demo_post_ids demo_settlement demo_settled_db of
     Inl e \<Rightarrow> empty_db | Inr db' \<Rightarrow> db')"

lemma demo_reserved: "reserve demo_post_ids demo_settlement demo_settled_db = Inr demo_reserved_db"
  unfolding demo_reserved_db_def demo_settled_db_def demo_db_def by code_simp

text \<open>
  A reservation of a positive amount from an owner whose two accounts exist raises
  \<open>InsufficientFunds\<close> exactly when the available balance is smaller than the amount; otherwise
  it moves the amount from the available to the reserved account, leaves every other USD account
  as it was and adds one posted \<open>RESERVE\<close> journal of the settlement.
\<close>

lemma reserve_moves_available_to_reserved:
  assumes "ledger_ok db"
    and "usd_account db (st_owner s, AVAILABLE) = Some a" and "a_class a = LIABILITY"
    and "usd_account db (st_owner s, RESERVED) = Some r" and "a_class r = LIABILITY"
    and "0 < st_amount s" and "a_balance r + a_balance a < 10 ^ 24"
    and "entry_fits ids (Some (st_id s)) RESERVE db"
  shows "if a_balance a < st_amount s then reserve ids s db = Inl InsufficientFunds
    else \<exists>db'. reserve ids s db = Inr db' \<and>
      usd_account db' (st_owner s, AVAILABLE) = Some (a\<lparr>a_balance := a_balance a - st_amount s\<rparr>) \<and>
      usd_account db' (st_owner s, RESERVED) = Some (r\<lparr>a_balance := a_balance r + st_amount s\<rparr>) \<and>
      (\<forall>k. k \<noteq> (st_owner s, AVAILABLE) \<longrightarrow> k \<noteq> (st_owner s, RESERVED) \<longrightarrow> usd_account db' k = usd_account db k) \<and>
      db_journals db' = db_journals db @
        [\<lparr>j_id = pi_journal ids, j_settlement = Some (st_id s), j_event = RESERVE, j_posted = True\<rparr>]"
proof -
  have ok: "accounts_ok db" using assms(1) by (simp add: ledger_ok_def schema_ok_def)
  have bal: "0 \<le> a_balance a" "0 \<le> a_balance r" "a_balance a < 10 ^ 24"
    using assms(2,4) ok by (auto simp: usd_account_Some [OF ok] accounts_ok_def numeric_fits_def)
  have pb: "posted_balance a DEBIT (st_amount s) = a_balance a - st_amount s"
    "posted_balance r CREDIT (st_amount s) = a_balance r + st_amount s"
    by (simp_all add: posted_balance_def increases_def assms(3,5))
  show ?thesis
  proof (cases "a_balance a < st_amount s")
    case True
    then show ?thesis by (simp add: reserve_def post_eq [OF ok] assms(2,4))
  next
    case False
    let ?db = "entry_db ids (Some (st_id s)) RESERVE a r (st_amount s) db"
    have "reserve ids s db = Inr ?db"
      using False assms(6-8) bal
      by (simp add: reserve_def post_Inr [OF ok] assms(2,4) pb numeric_fits_def)
    moreover have "db_journals ?db = db_journals db @
        [\<lparr>j_id = pi_journal ids, j_settlement = Some (st_id s), j_event = RESERVE, j_posted = True\<rparr>]"
      by (simp add: entry_db_def new_journal_def)
    ultimately show ?thesis
      using False by (simp add: usd_account_moved [OF ok assms(2,4)] pb)
  qed
qed

text \<open>
  C26: the audit accepts a ledger exactly when every account balance is the sum of its postings,
  the debits and credits of every journal agree in every currency, and no balance held in the
  session is negative.
\<close>

theorem audit_accepts_iff:
  assumes "schema_ok db"
  shows "assert_ledger_invariants tracked db = Inr () \<longleftrightarrow>
    (\<forall>b. Some b \<in> set tracked \<longrightarrow> 0 \<le> b) \<and>
    (\<forall>a \<in> set (db_accounts db). a_balance a = expected_balance a (db_postings db)) \<and>
    (\<forall>i c. side_total DEBIT c (journal_postings i db) = side_total CREDIT c (journal_postings i db))"
  using audit_Inr [OF assms] by (simp add: books_ok_def)

theorem audit_accepts_iff_witness:
  "assert_ledger_invariants [Some 0, None] demo_db = Inr () \<and>
   assert_ledger_invariants [] (demo_db\<lparr>db_postings := []\<rparr>) \<noteq> Inr ()"
proof
  have "schema_ok demo_db" using demo_ledger by (simp add: ledger_ok_def)
  moreover have "assert_ledger_invariants [] demo_db = Inr ()" unfolding demo_db_def by code_simp
  ultimately show "assert_ledger_invariants [Some 0, None] demo_db = Inr ()"
    by (simp add: audit_accepts_iff)
  show "assert_ledger_invariants [] (demo_db\<lparr>db_postings := []\<rparr>) \<noteq> Inr ()"
    unfolding demo_db_def by code_simp
qed

text \<open>
  Seeding is idempotent: after a seed that succeeded, seeding again with the same owner and
  amount succeeds and changes nothing, whatever ids it would draw.
\<close>

lemma seed_idempotent:
  assumes "seed_main ids owner amount db = (Inr u, db')"
  shows "seed_main ids' owner amount db' = (Inr (), db')"
proof -
  obtain mid where mid: "seed_demo_accounts ids owner amount db = Inr (u, mid)" "db' = mid\<lparr>db_inserted := []\<rparr>"
    using assms by (auto simp: seed_main_def transact_Inr commit_Inr)
  then have valid: "validate_existing_seed owner amount (load_seed_accounts owner mid) mid = Inr ()"
    by (auto simp: seed_demo_accounts_def Let_def bind_result_eq_Inr split: if_splits)
  have load: "load_seed_accounts owner db' = load_seed_accounts owner mid"
    by (simp add: mid(2) load_seed_accounts_def)
  have same: "assert_ledger_invariants t db' = assert_ledger_invariants t mid"
    "db_journals db' = db_journals mid" "journal_postings i db' = journal_postings i mid" for t i
    by (simp_all add: mid(2) assert_ledger_invariants_def journal_postings_def)
  have "validate_existing_seed owner amount (load_seed_accounts owner mid) db'
      = validate_existing_seed owner amount (load_seed_accounts owner mid) mid"
    unfolding validate_existing_seed_def same ..
  with valid have "validate_existing_seed owner amount (load_seed_accounts owner mid) db' = Inr ()"
    by simp
  moreover have "map_of (load_seed_accounts owner mid) (owner, USD, AVAILABLE) \<noteq> None"
    and "map_of (load_seed_accounts owner mid) (owner, USD, RESERVED) \<noteq> None"
    using valid by (auto simp: validate_existing_seed_def inconsistent_def split: option.splits)
  ultimately have "seed_demo_accounts ids' owner amount db' = Inr ((), db')"
    by (simp add: seed_demo_accounts_def load Let_def)
  moreover have "commit db' = Inr db'" by (simp add: mid(2) commit_Inr)
  ultimately show ?thesis by (simp add: seed_main_def transact_Inr)
qed

text \<open>
  The \<open>Decimal\<close> arithmetic of \<open>apply_posting\<close>, which runs in the default 28-digit context, is
  exact: adding or subtracting two numbers that fit their columns gives exactly the integer
  arithmetic in units of \<open>10 ^ -8\<close> used here.
\<close>

lemma balance_arithmetic_exact:
  assumes "numeric_fits 24 (a_balance a)" and "numeric_fits 24 amount"
  shows "dec_add DEFAULT_CONTEXT (of_numeric (a_balance a))
      (of_numeric (if increases (a_class a) side then amount else - amount))
    = of_numeric (posted_balance a side amount)"
proof -
  have "dec_add DEFAULT_CONTEXT (of_numeric m) (of_numeric n) = of_numeric (m + n)"
    if "\<bar>m\<bar> < 10 ^ 24" "\<bar>n\<bar> < 10 ^ 24" for m n
  proof -
    have "\<bar>m + n\<bar> < 10 ^ 28" using that by simp
    then have "nat \<bar>m + n\<bar> < 10 ^ prec DEFAULT_CONTEXT" by (simp add: DEFAULT_CONTEXT_def)
    from dec_fix_small [OF this, of "- 8"] show ?thesis
      by (auto simp: of_numeric_def DEFAULT_CONTEXT_def)
  qed
  with assms show ?thesis by (simp add: posted_balance_def numeric_fits_def)
qed

end
