(* ===== verification/Provider_Contract.thy ===== *)
theory Provider_Contract
  imports Provider Schema
begin

text \<open>
  The contract between the settlement service and a payout provider, and that both mock
  providers meet it: an operation gets an authority at most once and keeps it, a definite result
  agrees with the authority, and a lookup reports the authority.
\<close>

section \<open>The interface\<close>

text \<open>A sequence of payout requests, as any number of clients may send them.\<close>

fun call_all ::
  "(nat \<Rightarrow> int \<Rightarrow> currency \<Rightarrow> int \<Rightarrow> 'p \<Rightarrow> (app_error + provider_result) \<times> 'p) \<Rightarrow>
     (nat \<times> int \<times> currency \<times> int) list \<Rightarrow> 'p \<Rightarrow> 'p" where
  "call_all initiate [] p = p"
| "call_all initiate ((i, a, c, q) # calls) p = call_all initiate calls (snd (initiate i a c q p))"

locale payout_provider =
  fixes initiate :: "nat \<Rightarrow> int \<Rightarrow> currency \<Rightarrow> int \<Rightarrow> 'p \<Rightarrow> (app_error + provider_result) \<times> 'p"
    and lookup :: "nat \<Rightarrow> 'p \<Rightarrow> app_error + provider_lookup"
    and authority :: "'p \<Rightarrow> nat \<Rightarrow> provider_lookup option"
    and valid :: "'p \<Rightarrow> bool"
  assumes initiate_valid: "valid p \<Longrightarrow> initiate i a c q p = (r, p') \<Longrightarrow> valid p'"
    and initiate_paid: "valid p \<Longrightarrow> initiate i a c q p = (Inr PAID, p') \<Longrightarrow> authority p' i = Some LOOKUP_PAID"
    and initiate_unpaid: "valid p \<Longrightarrow> initiate i a c q p = (Inr UNPAID, p') \<Longrightarrow> authority p' i = Some LOOKUP_UNPAID"
    and initiate_stable: "valid p \<Longrightarrow> initiate i a c q p = (r, p') \<Longrightarrow> authority p j = Some x \<Longrightarrow>
          authority p' j = Some x"
    and lookup_paid: "valid p \<Longrightarrow> lookup i p = Inr LOOKUP_PAID \<Longrightarrow> authority p i = Some LOOKUP_PAID"
    and lookup_unpaid: "valid p \<Longrightarrow> lookup i p = Inr LOOKUP_UNPAID \<Longrightarrow> authority p i = Some LOOKUP_UNPAID"
begin

lemma call_all_stable:
  "valid p \<Longrightarrow> valid (call_all initiate calls p) \<and>
     (authority p j = Some x \<longrightarrow> authority (call_all initiate calls p) j = Some x)"
proof (induction calls arbitrary: p)
  case (Cons call calls)
  obtain i a c q where call: "call = (i, a, c, q)" by (cases call)
  obtain r p' where "initiate i a c q p = (r, p')" by (metis surj_pair)
  with Cons call show ?case by (auto dest: initiate_valid initiate_stable)
qed simp

text \<open>An operation reported paid is never reported unpaid, by a result or by a lookup.\<close>

lemma never_both:
  assumes "valid p" and "initiate i a c q p = (Inr PAID, p')"
  shows "lookup i (call_all initiate calls p') \<noteq> Inr LOOKUP_UNPAID \<and>
    fst (initiate i a' c' q' (call_all initiate calls p')) \<noteq> Inr UNPAID"
proof -
  let ?p = "call_all initiate calls p'"
  have ok: "valid ?p" "authority ?p i = Some LOOKUP_PAID"
    using assms initiate_valid initiate_paid call_all_stable by blast+
  then have "lookup i ?p \<noteq> Inr LOOKUP_UNPAID" using lookup_unpaid by fastforce
  moreover have "fst (initiate i a' c' q' ?p) \<noteq> Inr UNPAID"
  proof
    assume "fst (initiate i a' c' q' ?p) = Inr UNPAID"
    then obtain p'' where i: "initiate i a' c' q' ?p = (Inr UNPAID, p'')" by (metis prod.collapse)
    with ok initiate_unpaid initiate_stable show False by fastforce
  qed
  ultimately show ?thesis ..
qed

end

section \<open>The mock outcomes\<close>

text \<open>
  Configured outcomes other than \<open>PAID\<close>, \<open>UNPAID\<close> and \<open>UNKNOWN\<close> would be answered \<open>UNPAID\<close>
  while a lookup reports the outcome itself.
\<close>

definition config_ok :: "provider_config \<Rightarrow> bool" where
  "config_ok cfg \<longleftrightarrow> set (pc_outcomes cfg) \<subseteq> {LOOKUP_PAID, LOOKUP_UNPAID, UNKNOWN}"

definition outcome_ok :: "stored_outcome \<Rightarrow> bool" where
  "outcome_ok = (\<lambda>(submission, authority, times_out).
     (\<not> times_out \<longrightarrow> submission \<noteq> None) \<and>
     (submission = Some PAID \<longrightarrow> authority = LOOKUP_PAID) \<and>
     (submission = Some UNPAID \<longrightarrow> authority = LOOKUP_UNPAID))"

lemma outcome_for_position_ok:
  assumes "config_ok cfg" and "outcome_for_position cfg n = Inr stored"
  shows "outcome_ok stored"
proof -
  have "pc_outcomes cfg \<noteq> [] \<Longrightarrow>
      pc_outcomes cfg ! (n mod length (pc_outcomes cfg)) \<in> {LOOKUP_PAID, LOOKUP_UNPAID, UNKNOWN}"
    using assms(1) unfolding config_ok_def by (meson length_greater_0_conv mod_less_divisor nth_mem subsetD)
  with assms(2) show ?thesis
    by (auto simp: outcome_for_position_def outcome_ok_def split: if_splits provider_lookup.splits)
qed

lemma submission_of_Inr: "submission_of stored = Inr r \<longleftrightarrow> \<not> snd (snd stored) \<and> fst stored = Some r"
  by (auto simp: submission_of_def split: prod.splits option.splits)

section \<open>The provider in memory\<close>

definition memory_authority :: "memory_provider \<Rightarrow> nat \<Rightarrow> provider_lookup option" where
  "memory_authority p i = map_option (fst \<circ> snd) (map_of (mp_operations p) i)"

definition memory_valid :: "memory_provider \<Rightarrow> bool" where
  "memory_valid p \<longleftrightarrow> (\<forall>i stored. map_of (mp_operations p) i = Some stored \<longrightarrow> outcome_ok stored)"

lemma memory_contract:
  assumes cfg: "config_ok cfg"
  shows "payout_provider (memory_initiate cfg) memory_lookup memory_authority memory_valid"
proof
  fix p p' i j a c q r x
  assume v: "memory_valid p"
  have stored: "outcome_ok stored" if "map_of (mp_operations p) i = Some stored" for i stored
    using v that unfolding memory_valid_def by blast
  {
    assume r: "memory_initiate cfg i a c q p = (r, p')"
    then show "memory_valid p'"
      using v outcome_for_position_ok [OF cfg]
      by (auto simp: memory_initiate_def next_outcome_def memory_valid_def split: option.splits sum.splits if_splits)
    show "memory_authority p j = Some x \<Longrightarrow> memory_authority p' j = Some x"
      using r by (auto simp: memory_initiate_def memory_authority_def split: option.splits sum.splits)
  }
  show "memory_authority p' i = Some LOOKUP_PAID" if "memory_initiate cfg i a c q p = (Inr PAID, p')"
    using that stored outcome_for_position_ok [OF cfg]
    by (fastforce simp: memory_initiate_def next_outcome_def memory_authority_def outcome_ok_def
        submission_of_Inr split: option.splits sum.splits)
  show "memory_authority p' i = Some LOOKUP_UNPAID" if "memory_initiate cfg i a c q p = (Inr UNPAID, p')"
    using that stored outcome_for_position_ok [OF cfg]
    by (fastforce simp: memory_initiate_def next_outcome_def memory_authority_def outcome_ok_def
        submission_of_Inr split: option.splits sum.splits)
  show "memory_authority p i = Some LOOKUP_PAID" if "memory_lookup i p = Inr LOOKUP_PAID"
    using that by (auto simp: memory_lookup_def memory_authority_def split: option.splits)
  show "memory_authority p i = Some LOOKUP_UNPAID" if "memory_lookup i p = Inr LOOKUP_UNPAID"
    using that by (auto simp: memory_lookup_def memory_authority_def split: option.splits)
qed

section \<open>The durable provider\<close>

definition durable_authority :: "durable_provider \<Rightarrow> nat \<Rightarrow> provider_lookup option" where
  "durable_authority p i = map_option op_authority (find_operation i p)"

definition operation_ok :: "operation \<Rightarrow> bool" where
  "operation_ok x \<longleftrightarrow> (\<exists>stored. read_operation x = Inr stored \<and> outcome_ok stored)"

text \<open>The rows are keyed and carry outcomes; the sequence is ahead of every ordinal.\<close>

definition durable_valid :: "durable_provider \<Rightarrow> bool" where
  "durable_valid p \<longleftrightarrow> distinct (map op_id (dp_operations p)) \<and> distinct (map op_ordinal (dp_operations p)) \<and>
     0 < dp_next p \<and> (\<forall>x \<in> set (dp_operations p). operation_ok x \<and> op_ordinal x < dp_next p)"

lemma read_operation_authority: "read_operation x = Inr stored \<Longrightarrow> fst (snd stored) = op_authority x"
  by (auto simp: read_operation_def split: submission.splits)

text \<open>One call finds the row of the operation, fails, or appends a row.\<close>

lemma durable_outcome_cases:
  assumes "durable_valid p" and cfg: "config_ok cfg" and "durable_outcome cfg i p = (r, p')"
  obtains (replay) x where "find_operation i p = Some x" and "r = read_operation x"
      and "p' = p\<lparr>dp_next := dp_next p + 1\<rparr>"
  | (failed) e where "find_operation i p = None" and "r = Inl e" and "p' = p\<lparr>dp_next := dp_next p + 1\<rparr>"
  | (new) x where "find_operation i p = None" and "r = read_operation x" and "operation_ok x"
      and "op_id x = i" and "op_ordinal x = dp_next p"
      and "p' = p\<lparr>dp_next := dp_next p + 1, dp_operations := dp_operations p @ [x]\<rparr>"
proof (cases "find_operation i p")
  case (Some x)
  with assms(3) replay show ?thesis by (simp add: durable_outcome_def)
next
  case None
  show ?thesis
  proof (cases "outcome_for_position cfg (dp_next p - 1)")
    case (Inl e)
    with assms(3) None have "r = Inl e" "p' = p\<lparr>dp_next := dp_next p + 1\<rparr>"
      by (simp_all add: durable_outcome_def)
    with failed [OF None] show ?thesis by blast
  next
    case (Inr stored)
    obtain sub auth t where stored: "stored = (sub, auth, t)" by (cases stored)
    have ok: "outcome_ok (sub, auth, t)" using outcome_for_position_ok [OF cfg Inr] stored by simp
    define x where "x = \<lparr>op_id = i, op_ordinal = dp_next p,
      op_submission = (if t then TIMEOUT else Submitted (the sub)), op_authority = auth,
      op_reference = provider_reference i\<rparr>"
    have "r = read_operation x" "p' = p\<lparr>dp_next := dp_next p + 1, dp_operations := dp_operations p @ [x]\<rparr>"
      using assms(3) None Inr stored ok by (auto simp: durable_outcome_def x_def outcome_ok_def Let_def)
    moreover have "operation_ok x"
      using ok by (auto simp: operation_ok_def read_operation_def x_def outcome_ok_def)
    ultimately show ?thesis using new [OF None] by (simp add: x_def)
  qed
qed

lemma find_operation_valid:
  assumes "durable_valid p" and "find_operation i p = Some x"
  shows "operation_ok x \<and> op_id x = i"
  using assms find_Some_set [of "\<lambda>x. op_id x = i" "dp_operations p" x]
  by (simp add: durable_valid_def find_operation_def)

lemma find_appended:
  "find_operation i p = None \<Longrightarrow>
     find_operation j (p\<lparr>dp_next := n, dp_operations := dp_operations p @ [x]\<rparr>) =
       (case find_operation j p of Some y \<Rightarrow> Some y | None \<Rightarrow> if op_id x = j then Some x else None)"
  by (simp add: find_operation_def find_append split: option.split)

lemma durable_initiate_cases:
  assumes "durable_valid p" and "config_ok cfg" and "durable_initiate cfg i a c q p = (Inr r, p')"
  obtains x stored where "find_operation i p' = Some x" and "operation_ok x"
    and "read_operation x = Inr stored" and "submission_of stored = Inr r"
proof -
  obtain o' where o: "durable_outcome cfg i p = (o', p')"
    using assms(3) by (auto simp: durable_initiate_def split: prod.splits sum.splits)
  with assms(3) obtain stored where stored: "o' = Inr stored" "submission_of stored = Inr r"
    by (auto simp: durable_initiate_def split: sum.splits)
  from assms(1,2) o show ?thesis
  proof (cases rule: durable_outcome_cases)
    case (replay x)
    then have "find_operation i p' = Some x" by (simp add: find_operation_def)
    moreover have "read_operation x = Inr stored" using replay(2) stored(1) by simp
    moreover have "operation_ok x" using find_operation_valid [OF assms(1) replay(1)] by simp
    ultimately show ?thesis using that stored(2) by blast
  next
    case (new x)
    then have "find_operation i p' = Some x" by (simp add: find_appended)
    moreover have "read_operation x = Inr stored" using new(2) stored(1) by simp
    ultimately show ?thesis using that new(3) stored(2) by blast
  qed (use stored in simp)
qed

lemma durable_definite:
  assumes "durable_valid p" and "config_ok cfg"
  shows "durable_initiate cfg i a c q p = (Inr PAID, p') \<Longrightarrow> durable_authority p' i = Some LOOKUP_PAID"
    and "durable_initiate cfg i a c q p = (Inr UNPAID, p') \<Longrightarrow> durable_authority p' i = Some LOOKUP_UNPAID"
proof -
  have auth: "durable_authority p' i = Some (if r = PAID then LOOKUP_PAID else LOOKUP_UNPAID)"
    if call: "durable_initiate cfg i a c q p = (Inr r, p')" and r: "r \<noteq> AMBIGUOUS" for r
  proof -
    obtain x stored where x: "find_operation i p' = Some x" "operation_ok x"
      "read_operation x = Inr stored" "submission_of stored = Inr r"
      using durable_initiate_cases [OF assms call] .
    then have "outcome_ok stored" "fst (snd stored) = op_authority x"
      by (simp_all add: operation_ok_def read_operation_authority)
    with x(1,4) r show ?thesis
      by (cases stored; cases r) (auto simp: durable_authority_def outcome_ok_def submission_of_Inr)
  qed
  show "durable_initiate cfg i a c q p = (Inr PAID, p') \<Longrightarrow> durable_authority p' i = Some LOOKUP_PAID"
    and "durable_initiate cfg i a c q p = (Inr UNPAID, p') \<Longrightarrow> durable_authority p' i = Some LOOKUP_UNPAID"
    using auth [of PAID] auth [of UNPAID] by simp_all
qed

lemma durable_outcome_keeps:
  assumes v: "durable_valid p" and cfg: "config_ok cfg" and o: "durable_outcome cfg i p = (r, p')"
  shows "durable_valid p' \<and> (\<forall>j x. find_operation j p = Some x \<longrightarrow> find_operation j p' = Some x)"
  using v cfg o
proof (cases rule: durable_outcome_cases)
  case (replay x)
  with v show ?thesis by (auto simp: durable_valid_def find_operation_def less_SucI)
next
  case (failed e)
  with v show ?thesis by (auto simp: durable_valid_def find_operation_def less_SucI)
next
  case (new x)
  have "i \<notin> op_id ` set (dp_operations p)"
    using new(1) unfolding find_operation_def find_none_key .
  moreover have "dp_next p \<notin> op_ordinal ` set (dp_operations p)"
    using v by (auto simp: durable_valid_def)
  ultimately have "durable_valid p'" using v new by (simp add: durable_valid_def less_SucI)
  with new show ?thesis by (auto simp: find_appended)
qed

lemma durable_initiate_outcome:
  "durable_initiate cfg i a c q p = (r, p') \<Longrightarrow> \<exists>o'. durable_outcome cfg i p = (o', p')"
  by (auto simp: durable_initiate_def split: prod.splits sum.splits)

lemma durable_contract:
  assumes cfg: "config_ok cfg"
  shows "payout_provider (durable_initiate cfg) durable_lookup durable_authority durable_valid"
proof
  fix p p' i j a c q r x
  assume v: "durable_valid p"
  show "durable_valid p'" if "durable_initiate cfg i a c q p = (r, p')"
    using durable_initiate_outcome [OF that] durable_outcome_keeps [OF v cfg] by blast
  show "durable_authority p' j = Some x"
    if "durable_initiate cfg i a c q p = (r, p')" "durable_authority p j = Some x"
    using durable_initiate_outcome [OF that(1)] durable_outcome_keeps [OF v cfg] that(2)
    unfolding durable_authority_def by fastforce
  show "durable_authority p' i = Some LOOKUP_PAID" if "durable_initiate cfg i a c q p = (Inr PAID, p')"
    using durable_definite(1) [OF v cfg that] .
  show "durable_authority p' i = Some LOOKUP_UNPAID" if "durable_initiate cfg i a c q p = (Inr UNPAID, p')"
    using durable_definite(2) [OF v cfg that] .
  show "durable_authority p i = Some LOOKUP_PAID" if "durable_lookup i p = Inr LOOKUP_PAID"
    using that by (auto simp: durable_lookup_def durable_authority_def split: option.splits)
  show "durable_authority p i = Some LOOKUP_UNPAID" if "durable_lookup i p = Inr LOOKUP_UNPAID"
    using that by (auto simp: durable_lookup_def durable_authority_def split: option.splits)
qed

section \<open>The two production modes\<close>

definition random_config :: provider_config where
  "random_config = \<lparr>pc_outcomes = [], pc_timeout_lookup = UNKNOWN, pc_load_mode = False\<rparr>"

definition load_config :: provider_config where
  "load_config = \<lparr>pc_outcomes = [], pc_timeout_lookup = UNKNOWN, pc_load_mode = True\<rparr>"

interpretation memory_random:
  payout_provider "memory_initiate random_config" memory_lookup memory_authority memory_valid
  by (rule memory_contract) (simp add: config_ok_def random_config_def)

interpretation durable_random:
  payout_provider "durable_initiate random_config" durable_lookup durable_authority durable_valid
  by (rule durable_contract) (simp add: config_ok_def random_config_def)

interpretation durable_load:
  payout_provider "durable_initiate load_config" durable_lookup durable_authority durable_valid
  by (rule durable_contract) (simp add: config_ok_def load_config_def)

section \<open>Properties\<close>

text \<open>
  C22: an operation that the durable provider has reported paid is never reported unpaid, neither
  by a lookup nor by a replay of the request, whatever requests come in between.
\<close>

theorem paid_is_never_unpaid:
  assumes "config_ok cfg" and "durable_valid p"
    and "durable_initiate cfg i a c q p = (Inr PAID, p')"
  shows "durable_lookup i (call_all (durable_initiate cfg) calls p') \<noteq> Inr LOOKUP_UNPAID \<and>
    fst (durable_initiate cfg i a' c' q' (call_all (durable_initiate cfg) calls p')) \<noteq> Inr UNPAID"
  using payout_provider.never_both [OF durable_contract [OF assms(1)] assms(2,3)] .

lemma new_durable_valid: "durable_valid new_durable_provider"
  by (simp add: durable_valid_def new_durable_provider_def)

definition first_call :: "(app_error + provider_result) \<times> durable_provider" where
  "first_call = durable_initiate random_config 7 100 EUR 92 new_durable_provider"

lemma first_call_paid: "first_call = (Inr PAID, snd first_call)"
  by (simp add: first_call_def durable_initiate_def durable_outcome_def find_operation_def
      new_durable_provider_def outcome_for_position_def random_config_def read_operation_def
      submission_of_def Let_def)

theorem paid_is_never_unpaid_witness:
  "fst (durable_initiate random_config 7 100 EUR 92 (snd first_call)) \<noteq> Inr UNPAID"
  using paid_is_never_unpaid [of random_config new_durable_provider 7 100 EUR 92 "snd first_call" "[]" 100 EUR 92]
    first_call_paid new_durable_valid
  by (simp add: first_call_def config_ok_def random_config_def)

text \<open>
  The durable provider is idempotent: once an operation has a row, every later request for it
  gets the answer of the first one (a result, or the same timeout) and stores nothing, whatever
  other requests come in between.
\<close>

lemma durable_requests_idempotent:
  assumes "config_ok cfg" and "durable_valid p"
    and "durable_initiate cfg i a c q p = (r, p')" and "find_operation i p' \<noteq> None"
  shows "fst (durable_initiate cfg i a' c' q' (call_all (durable_initiate cfg) calls p')) = r \<and>
    dp_operations (snd (durable_initiate cfg i a' c' q' (call_all (durable_initiate cfg) calls p')))
      = dp_operations (call_all (durable_initiate cfg) calls p')"
proof -
  obtain x where x: "find_operation i p' = Some x" using assms(4) by blast
  have keep: "durable_valid (call_all (durable_initiate cfg) calls p') \<and>
      find_operation i (call_all (durable_initiate cfg) calls p') = Some x"
    if "durable_valid p'" "find_operation i p' = Some x" for p'
    using that
  proof (induction calls arbitrary: p')
    case (Cons call calls)
    obtain j b d e where call: "call = (j, b, d, e)" by (cases call)
    obtain r2 p2 where c: "durable_initiate cfg j b d e p' = (r2, p2)" by (metis surj_pair)
    with durable_initiate_outcome [OF c] durable_outcome_keeps [OF Cons.prems(1) assms(1)] Cons
    show ?case by (auto simp: call)
  qed simp
  obtain o' where o: "durable_outcome cfg i p = (o', p')"
    using durable_initiate_outcome [OF assms(3)] by blast
  have "durable_valid p'" using durable_outcome_keeps [OF assms(2,1) o] by blast
  from keep [OF this x]
  have f: "find_operation i (call_all (durable_initiate cfg) calls p') = Some x" by simp
  have "o' = read_operation x"
    using assms(2,1) o
  proof (cases rule: durable_outcome_cases)
    case (replay y)
    with x show ?thesis by (simp add: find_operation_def)
  next
    case (failed e)
    with x show ?thesis by (simp add: find_operation_def)
  next
    case (new y)
    with x show ?thesis by (simp add: find_appended)
  qed
  with assms(3) o f show ?thesis
    by (auto simp: durable_initiate_def durable_outcome_def Let_def split: sum.splits)
qed

text \<open>How an outcome is answered.\<close>

fun answered_paid :: "app_error + stored_outcome \<Rightarrow> bool" where
  "answered_paid (Inr (Some PAID, LOOKUP_PAID, False)) = True"
| "answered_paid _ = False"

fun answered_ambiguous :: "app_error + stored_outcome \<Rightarrow> bool" where
  "answered_ambiguous (Inr (Some AMBIGUOUS, _, False)) = True"
| "answered_ambiguous _ = False"

fun answered_timeout :: "app_error + stored_outcome \<Rightarrow> bool" where
  "answered_timeout (Inr (None, _, True)) = True"
| "answered_timeout _ = False"

definition count_outcomes :: "provider_config \<Rightarrow> nat list \<Rightarrow> nat \<times> nat \<times> nat" where
  "count_outcomes cfg ns =
     (let os = map (outcome_for_position cfg) ns
      in (length (filter answered_paid os), length (filter answered_ambiguous os),
          length (filter answered_timeout os)))"

lemma random_block: "map (outcome_for_position random_config) [20 * k..<20 * k + 20]
    = map (outcome_for_position random_config) [0..<20]"
proof -
  have "[20 * k..<20 * k + 20] = map (\<lambda>i. i + 20 * k) [0..<20]"
    using map_add_upt [of "20 * k" 20] by (simp add: add.commute)
  moreover have "outcome_for_position random_config (i + 20 * k) = outcome_for_position random_config i"
    if "i < 20" for i
    using that by (simp add: outcome_for_position_def random_config_def)
  ultimately show ?thesis by simp
qed

lemma load_positions:
  "n < 700 \<Longrightarrow> outcome_for_position load_config n = Inr (Some PAID, LOOKUP_PAID, False)"
  "700 \<le> n \<Longrightarrow> n < 850 \<Longrightarrow>
     outcome_for_position load_config n = Inr (Some AMBIGUOUS, ambiguous_authority n, False)"
  "850 \<le> n \<Longrightarrow> n < 1000 \<Longrightarrow>
     outcome_for_position load_config n = Inr (None, ambiguous_authority n, True)"
  by (simp_all add: outcome_for_position_def load_config_def)

lemma load_mix: "count_outcomes load_config [0..<1000] = (700, 150, 150)"
proof -
  let ?f = "outcome_for_position load_config"
  let ?A = "map ?f [0..<700]" and ?B = "map ?f [700..<850]" and ?C = "map ?f [850..<1000]"
  have "[0..<1000] = [0..<700] @ [700..<850] @ [850..<1000::nat]"
    using upt_add_eq_append [of 0 700 300] upt_add_eq_append [of 700 850 150] by simp
  then have all: "map ?f [0..<1000] = ?A @ ?B @ ?C" by (simp only: map_append)
  have A: "filter answered_paid ?A = ?A" "filter answered_ambiguous ?A = []" "filter answered_timeout ?A = []"
    unfolding filter_id_conv filter_empty_conv set_map set_upt by (auto simp: load_positions)
  have B: "filter answered_paid ?B = []" "filter answered_ambiguous ?B = ?B" "filter answered_timeout ?B = []"
    unfolding filter_id_conv filter_empty_conv set_map set_upt by (auto simp: load_positions)
  have C: "filter answered_paid ?C = []" "filter answered_ambiguous ?C = []" "filter answered_timeout ?C = ?C"
    unfolding filter_id_conv filter_empty_conv set_map set_upt by (auto simp: load_positions)
  show ?thesis
    unfolding count_outcomes_def Let_def all filter_append A B C length_append length_map length_upt list.size
    by simp
qed

text \<open>
  The mock outcomes have the documented mix: of any 20 positions of a block in random mode 14
  are paid at once, 3 are ambiguous and 3 time out; of the 1000 positions of load mode 700, 150
  and 150; and position 1000 is refused.
\<close>

lemma mock_outcome_mix:
  "count_outcomes random_config [20 * k..<20 * k + 20] = (14, 3, 3) \<and>
   count_outcomes load_config [0..<1000] = (700, 150, 150) \<and>
   outcome_for_position load_config 1000
     = Inl (RuntimeError ''load provider supports exactly 1000 unique operations'')"
proof (intro conjI)
  have "count_outcomes random_config [0..<20] = (14, 3, 3)" by code_simp
  then show "count_outcomes random_config [20 * k..<20 * k + 20] = (14, 3, 3)"
    by (simp add: count_outcomes_def random_block)
  show "count_outcomes load_config [0..<1000] = (700, 150, 150)" by (rule load_mix)
  show "outcome_for_position load_config 1000
      = Inl (RuntimeError ''load provider supports exactly 1000 unique operations'')"
    by (simp add: outcome_for_position_def load_config_def)
qed

lemma mock_outcome_given:
  assumes "\<not> pc_load_mode cfg \<or> n < 1000"
  shows "\<exists>submission authority times_out. outcome_for_position cfg n = Inr (submission, authority, times_out) \<and>
    (times_out \<longleftrightarrow> submission = None)"
  using assms by (auto simp: outcome_for_position_def split: provider_lookup.split)

lemma durable_call:
  assumes "\<not> pc_load_mode cfg \<or> n < 1000" and "dp_next p = Suc n"
  obtains x p' where "snd (durable_initiate cfg i a c q p) = p'" and "dp_next p' = Suc (Suc n)"
    and "\<forall>j. find_operation j p' =
      (if j = i \<and> find_operation i p = None then Some x else find_operation j p)"
    and "op_ordinal x = Suc n" and "read_operation x = outcome_for_position cfg n"
proof (cases "find_operation i p")
  case None
  obtain submission authority times_out where
    out: "outcome_for_position cfg n = Inr (submission, authority, times_out)" "times_out \<longleftrightarrow> submission = None"
    using mock_outcome_given [OF assms(1)] by blast
  define x where "x = \<lparr>op_id = i, op_ordinal = Suc n,
      op_submission = (if times_out then TIMEOUT else Submitted (the submission)),
      op_authority = authority, op_reference = provider_reference i\<rparr>"
  have read: "read_operation x = outcome_for_position cfg n" using out by (auto simp: x_def read_operation_def)
  then have "snd (durable_initiate cfg i a c q p) = p\<lparr>dp_next := Suc (Suc n), dp_operations := dp_operations p @ [x]\<rparr>"
    using None out assms(2) by (auto simp: durable_initiate_def durable_outcome_def Let_def x_def)
  with that [of _ x] read None show ?thesis
    by (auto simp: find_operation_def find_append x_def split: option.splits)
next
  case (Some y)
  then have "snd (durable_initiate cfg i a c q p) = p\<lparr>dp_next := Suc (Suc n)\<rparr>"
    using assms(2) by (simp add: durable_initiate_def durable_outcome_def Let_def split: sum.split)
  obtain s where s: "outcome_for_position cfg n = Inr s" using mock_outcome_given [OF assms(1)] by blast
  define x where "x = \<lparr>op_id = i, op_ordinal = Suc n,
      op_submission = (if snd (snd s) then TIMEOUT else Submitted (the (fst s))),
      op_authority = fst (snd s), op_reference = []\<rparr>"
  have "read_operation x = outcome_for_position cfg n"
    using mock_outcome_given [OF assms(1)] s by (auto simp: x_def read_operation_def)
  with that [OF \<open>snd _ = _\<close>, of x] Some show ?thesis by (simp add: x_def find_operation_def)
qed

lemma call_all_snoc: "call_all initiate (calls @ [(i, a, c, q)]) p = snd (initiate i a c q (call_all initiate calls p))"
  by (induction calls arbitrary: p) auto

text \<open>The first request for an operation in a sequence of requests, and where it stands.\<close>

definition first_request :: "nat \<Rightarrow> nat \<Rightarrow> (nat \<times> int \<times> currency \<times> int) list \<Rightarrow> bool" where
  "first_request i n calls \<longleftrightarrow> n < length calls \<and> fst (calls ! n) = i \<and> (\<forall>k < n. fst (calls ! k) \<noteq> i)"

lemma first_request_snoc:
  "first_request i n calls \<Longrightarrow> first_request i n (calls @ [call])"
  "i \<notin> fst ` set calls \<Longrightarrow> first_request i (length calls) (calls @ [(i, a, c, q)])"
  by (auto simp: first_request_def nth_append image_iff dest: nth_mem)

text \<open>
  C35: the outcome of an operation is decided by the number of requests before its first one: after
  any sequence of requests to a new provider (in load mode at most 1000), exactly the requested
  operations are stored, each with the ordinal of its first request, counting every request before
  it, replays of others included, and with the outcome that this position has.
\<close>

theorem ordinals_count_requests:
  assumes "\<not> pc_load_mode cfg \<or> length calls \<le> 1000"
    and "call_all (durable_initiate cfg) calls new_durable_provider = p"
  shows "dp_next p = Suc (length calls) \<and>
    (\<forall>i. if i \<in> fst ` set calls
       then \<exists>x n. find_operation i p = Some x \<and> first_request i n calls \<and> op_ordinal x = Suc n \<and>
         read_operation x = outcome_for_position cfg n
       else find_operation i p = None)"
  using assms
proof (induction calls arbitrary: p rule: rev_induct)
  case Nil
  then show ?case by (auto simp: new_durable_provider_def find_operation_def)
next
  case (snoc call calls)
  obtain i a c q where call: "call = (i, a, c, q)" by (cases call)
  obtain p0 where p0: "call_all (durable_initiate cfg) calls new_durable_provider = p0" by blast
  have len: "\<not> pc_load_mode cfg \<or> length calls \<le> 1000" using snoc.prems(1) by auto
  have IH: "dp_next p0 = Suc (length calls)"
    "\<And>j. if j \<in> fst ` set calls
       then \<exists>x n. find_operation j p0 = Some x \<and> first_request j n calls \<and> op_ordinal x = Suc n \<and>
         read_operation x = outcome_for_position cfg n
       else find_operation j p0 = None"
    using conjunct1 [OF snoc.IH [OF len p0]] spec [OF conjunct2 [OF snoc.IH [OF len p0]]] by blast+
  have "\<not> pc_load_mode cfg \<or> length calls < 1000" using snoc.prems(1) by auto
  then obtain x where x: "dp_next p = Suc (Suc (length calls))" "op_ordinal x = Suc (length calls)"
    "read_operation x = outcome_for_position cfg (length calls)"
    "\<forall>j. find_operation j p = (if j = i \<and> find_operation i p0 = None then Some x else find_operation j p0)"
    using durable_call [OF _ IH(1), where i = i and a = a and c = c and q = q] snoc.prems(2)
    unfolding call call_all_snoc p0 by metis
  have "if j \<in> fst ` set (calls @ [call])
       then \<exists>x n. find_operation j p = Some x \<and> first_request j n (calls @ [call]) \<and> op_ordinal x = Suc n \<and>
         read_operation x = outcome_for_position cfg n
       else find_operation j p = None" for j
  proof (cases "j \<in> fst ` set calls")
    case True
    then obtain y n where "find_operation j p0 = Some y" "first_request j n calls" "op_ordinal y = Suc n"
      "read_operation y = outcome_for_position cfg n"
      using IH(2) [of j] by auto
    with True show ?thesis using x(4) first_request_snoc(1) by auto
  next
    case False
    then have "find_operation j p0 = None" using IH(2) [of j] by simp
    with False show ?thesis using x first_request_snoc(2) [of j calls a c q] by (auto simp: call)
  qed
  moreover have "dp_next p = Suc (length (calls @ [call]))" using x(1) by simp
  ultimately show ?case by blast
qed

text \<open>A replay of operation 7 before the first request of operation 8.\<close>

theorem ordinals_count_requests_witness:
  "\<exists>x n. find_operation 8 (call_all (durable_initiate random_config) [(7, 1, EUR, 1), (7, 1, EUR, 1), (8, 1, EUR, 1)]
     new_durable_provider) = Some x \<and> op_ordinal x = 3"
proof -
  let ?calls = "[(7, 1, EUR, 1), (7, 1, EUR, 1), (8, 1, EUR, 1)] :: (nat \<times> int \<times> currency \<times> int) list"
  let ?p = "call_all (durable_initiate random_config) ?calls new_durable_provider"
  have "\<not> pc_load_mode random_config \<or> length ?calls \<le> 1000" by simp
  from spec [OF conjunct2 [OF ordinals_count_requests [OF this refl]], of 8]
  have "\<exists>x n. find_operation 8 ?p = Some x \<and> first_request 8 n ?calls \<and> op_ordinal x = Suc n \<and>
      read_operation x = outcome_for_position random_config n"
    by (simp only: list.set image_insert fst_conv insertI1 insertI2 if_True simp_thms)
  then obtain x n where "find_operation 8 ?p = Some x" "first_request 8 n ?calls" "op_ordinal x = Suc n" by blast
  moreover from this have "n = 2" by (auto simp: first_request_def less_Suc_eq nth_Cons split: nat.splits)
  ultimately show ?thesis by auto
qed

end
