(* ===== verification/Schemas.thy ===== *)
theory Schemas
  imports Models Sha256
begin

text \<open>
  The request and response models of \<open>app/schemas.py\<close>: the accepted amounts, Python's decimal
  text in both directions, the request fingerprint, and the response read from a stored row.
\<close>

section \<open>The request\<close>

record settlement_create =
  sc_amount :: decimal
  sc_target :: currency

text \<open>
  The field constraints \<open>gt=0, max_digits=24, decimal_places=8\<close>: trailing zeros do not count,
  and at most \<open>24 - 8\<close> digits stand before the point.
\<close>

definition amount_accepted :: "decimal \<Rightarrow> bool" where
  "amount_accepted d =
     (case d of
        DFin m e \<Rightarrow> 0 < m \<and>
          (case strip_zeros (nat m) e of
             (c, x) \<Rightarrow> - 8 \<le> x \<and> int (ndigits c) + x \<le> 16)
      | _ \<Rightarrow> False)"

section \<open>Decimal text\<close>

definition digit_char :: "nat \<Rightarrow> char" where
  "digit_char n = ''0123456789'' ! n"

fun nat_str :: "nat \<Rightarrow> string" where
  "nat_str n = (if n < 10 then [digit_char n] else nat_str (n div 10) @ [digit_char (n mod 10)])"

declare nat_str.simps [simp del]

definition signed_str :: "int \<Rightarrow> string" where
  "signed_str n = (if n < 0 then ''-'' else ''+'') @ nat_str (nat \<bar>n\<bar>)"

text \<open>\<open>str\<close> of a decimal: plain when the exponent is not positive and not too small, else scientific.\<close>

definition point_place :: "int \<Rightarrow> int \<Rightarrow> int" where
  "point_place e left = (if e \<le> 0 \<and> - 6 < left then left else 1)"

definition put_point :: "string \<Rightarrow> int \<Rightarrow> string" where
  "put_point ds dot =
     (if dot \<le> 0 then ''0.'' @ replicate (nat (- dot)) (CHR ''0'') @ ds
      else if int (length ds) \<le> dot then ds @ replicate (nat (dot - int (length ds))) (CHR ''0'')
      else take (nat dot) ds @ ''.'' @ drop (nat dot) ds)"

fun dec_str :: "decimal \<Rightarrow> string" where
  "dec_str (DFin m e) =
     (let ds = nat_str (nat \<bar>m\<bar>); left = e + int (length ds); dot = point_place e left
      in (if m < 0 then ''-'' else '''') @ put_point ds dot @
         (if left = dot then '''' else ''E'' @ signed_str (left - dot)))"
| "dec_str (DInf neg) = (if neg then ''-Infinity'' else ''Infinity'')"
| "dec_str DNaN = ''NaN''"

text \<open>\<open>Decimal(text)\<close> on the finite forms that \<open>str\<close> writes.\<close>

definition is_digit :: "char \<Rightarrow> bool" where
  "is_digit c \<longleftrightarrow> c \<in> set ''0123456789''"

definition digit_val :: "char \<Rightarrow> nat" where
  "digit_val c = of_char c - 48"

definition digits_val :: "string \<Rightarrow> nat" where
  "digits_val = foldl (\<lambda>a c. 10 * a + digit_val c) 0"

definition parse_exponent :: "string \<Rightarrow> int option" where
  "parse_exponent s =
     (case s of
        [] \<Rightarrow> Some 0
      | c # r \<Rightarrow>
          if c \<noteq> CHR ''E'' then None
          else (case r of
            [] \<Rightarrow> None
          | g # ds \<Rightarrow>
              if ds = [] \<or> \<not> list_all is_digit ds then None
              else if g = CHR ''+'' then Some (int (digits_val ds))
              else if g = CHR ''-'' then Some (- int (digits_val ds))
              else None))"

definition parse_unsigned :: "bool \<Rightarrow> string \<Rightarrow> decimal option" where
  "parse_unsigned neg s =
     (let ip = takeWhile is_digit s; r = dropWhile is_digit s;
          fp = (case r of [] \<Rightarrow> [] | c # r' \<Rightarrow> if c = CHR ''.'' then takeWhile is_digit r' else []);
          ex = (case r of [] \<Rightarrow> [] | c # r' \<Rightarrow> if c = CHR ''.'' then dropWhile is_digit r' else r)
      in if ip @ fp = [] then None
         else (case parse_exponent ex of
                 None \<Rightarrow> None
               | Some x \<Rightarrow>
                   Some (DFin ((if neg then - 1 else 1) * int (digits_val (ip @ fp))) (x - int (length fp)))))"

definition dec_parse :: "string \<Rightarrow> decimal option" where
  "dec_parse s =
     (case s of
        [] \<Rightarrow> None
      | c # r \<Rightarrow> if c = CHR ''-'' then parse_unsigned True r else parse_unsigned False s)"

section \<open>The fingerprint\<close>

definition fingerprint_text :: "string \<Rightarrow> settlement_create \<Rightarrow> string" where
  "fingerprint_text owner command =
     owner @ ''|'' @ dec_str (dec_normalize DEFAULT_CONTEXT (sc_amount command)) @ ''|'' @
       currency_value (sc_target command)"

definition request_fingerprint :: "string \<Rightarrow> settlement_create \<Rightarrow> string" where
  "request_fingerprint owner command = sha256_hex (fingerprint_text owner command)"

section \<open>The response\<close>

text \<open>The hops of a response are the \<open>route_hop\<close>s read back from the JSON column.\<close>

record settlement_read =
  sr_id :: nat
  sr_status :: settlement_status
  sr_amount :: int
  sr_target :: currency
  sr_quoted :: int
  sr_rate :: int
  sr_version :: int
  sr_route :: "route_hop list"

definition currency_of :: "string \<Rightarrow> currency option" where
  "currency_of v = List.find (\<lambda>c. currency_value c = v) Currency_members"

definition validation_error :: app_error where
  "validation_error = RuntimeError ''ValidationError''"

definition read_hop :: "route_hop_json \<Rightarrow> app_error + route_hop" where
  "read_hop hop =
     (case (currency_of (rj_source hop), currency_of (rj_target hop), dec_parse (rj_rate hop)) of
        (Some source, Some target, Some rate) \<Rightarrow>
          Inr \<lparr>h_source = source, h_target = target, h_lp = rj_lp hop, h_rate = rate\<rparr>
      | _ \<Rightarrow> Inl validation_error)"

fun read_hops :: "route_hop_json list \<Rightarrow> app_error + route_hop list" where
  "read_hops [] = Inr []"
| "read_hops (hop # hops) =
     bind_result (read_hop hop) (\<lambda>h. bind_result (read_hops hops) (\<lambda>hs. Inr (h # hs)))"

text \<open>The JSON entry that \<open>create\<close> stores for a hop of the quote.\<close>

definition hop_json :: "route_hop \<Rightarrow> route_hop_json" where
  "hop_json hop =
     \<lparr>rj_source = currency_value (h_source hop), rj_target = currency_value (h_target hop),
      rj_lp = h_lp hop, rj_rate = dec_str (h_rate hop)\<rparr>"

definition from_orm_settlement :: "settlement \<Rightarrow> app_error + settlement_read" where
  "from_orm_settlement s =
     bind_result (read_hops (st_route s)) (\<lambda>route. Inr
       \<lparr>sr_id = st_id s, sr_status = st_status s, sr_amount = st_amount s, sr_target = st_target s,
        sr_quoted = st_quoted s, sr_rate = st_rate s, sr_version = st_version s, sr_route = route\<rparr>)"

end
