(* ===== verification/Schema_Text.thy ===== *)
theory Schema_Text
  imports Schemas Decimal_Rounding
begin

text \<open>
  Round trips of the texts the service stores: a decimal is read back from its text exactly, so
  the hops of a response are the hops of the quote; equal amounts have one fingerprint text and
  different requests have different ones; an accepted amount is stored without rounding.
\<close>

section \<open>Digits\<close>

lemma digit_char_props:
  assumes "n < 10"
  shows "is_digit (digit_char n) \<and> digit_val (digit_char n) = n"
proof -
  have "n \<in> {0, 1, 2, 3, 4, 5, 6, 7, 8, 9}" using assms by auto
  then show ?thesis by (elim insertE) (simp_all add: digit_char_def is_digit_def digit_val_def)
qed

lemma digits_val_snoc: "digits_val (xs @ [c]) = 10 * digits_val xs + digit_val c"
  by (simp add: digits_val_def)

lemma nat_str_props: "list_all is_digit (nat_str n) \<and> nat_str n \<noteq> [] \<and> digits_val (nat_str n) = n"
proof (induction n rule: nat_str.induct)
  case (1 n)
  show ?case
  proof (cases "n < 10")
    case True
    then show ?thesis
      using digit_char_props [OF True] by (simp add: nat_str.simps [of n] digits_val_def)
  next
    case False
    then show ?thesis
      using 1 digit_char_props [of "n mod 10"] by (simp add: nat_str.simps [of n] digits_val_snoc)
  qed
qed

lemma digits_val_zeros: "digits_val (replicate k (CHR ''0'') @ ds) = digits_val ds"
proof -
  have "foldl (\<lambda>a c. 10 * a + digit_val c) 0 (replicate k (CHR ''0'')) = 0"
    by (induction k) (simp_all add: digit_val_def)
  then show ?thesis by (simp add: digits_val_def)
qed

lemma digits_split:
  assumes "list_all is_digit ds" and "r = [] \<or> \<not> is_digit (hd r)"
  shows "takeWhile is_digit (ds @ r) = ds" and "dropWhile is_digit (ds @ r) = r"
proof -
  have all: "\<And>c. c \<in> set ds \<Longrightarrow> is_digit c" using assms(1) by (simp add: list_all_iff)
  show "takeWhile is_digit (ds @ r) = ds"
    using all assms(2) by (cases r) (simp_all add: takeWhile_append2)
  show "dropWhile is_digit (ds @ r) = r"
    using all assms(2) by (cases r) (simp_all add: dropWhile_append2)
qed

lemma zero_digit: "is_digit (CHR ''0'')"
  by (simp add: is_digit_def)

section \<open>The text of a decimal\<close>

definition exponent_text :: "int \<Rightarrow> string" where
  "exponent_text x = (if x = 0 then '''' else ''E'' @ signed_str x)"

lemma parse_exponent_text: "parse_exponent (exponent_text x) = Some x"
  using nat_str_props [of "nat \<bar>x\<bar>"]
  by (auto simp: exponent_text_def parse_exponent_def signed_str_def)

lemma exponent_text_start: "exponent_text x = [] \<or> \<not> is_digit (hd (exponent_text x))"
  by (simp add: exponent_text_def is_digit_def)

lemma exponent_text_no_point: "exponent_text x = c # r \<Longrightarrow> c \<noteq> CHR ''.''"
  by (auto simp: exponent_text_def split: if_splits)

text \<open>Digits without and with a point, followed by an exponent.\<close>

lemma parse_plain:
  assumes "list_all is_digit ds" and "ds \<noteq> []"
  shows "parse_unsigned neg (ds @ exponent_text x)
    = Some (DFin ((if neg then - 1 else 1) * int (digits_val ds)) x)"
proof -
  define ex where "ex = exponent_text x"
  have split: "takeWhile is_digit (ds @ ex) = ds" "dropWhile is_digit (ds @ ex) = ex"
    using digits_split [OF assms(1) exponent_text_start] by (simp_all add: ex_def)
  have point: "(case ex of [] \<Rightarrow> [] | c # r \<Rightarrow> if c = CHR ''.'' then takeWhile is_digit r else []) = []"
    "(case ex of [] \<Rightarrow> [] | c # r \<Rightarrow> if c = CHR ''.'' then dropWhile is_digit r else ex) = ex"
    using exponent_text_no_point [of x] by (cases ex; simp add: ex_def)+
  have "parse_exponent ex = Some x" by (simp add: ex_def parse_exponent_text)
  then show ?thesis
    unfolding ex_def [symmetric] parse_unsigned_def Let_def split point using assms(2) by simp
qed

lemma parse_pointed:
  assumes "list_all is_digit ip" and "list_all is_digit fp" and "ip \<noteq> []"
  shows "parse_unsigned neg (ip @ CHR ''.'' # fp @ exponent_text x)
    = Some (DFin ((if neg then - 1 else 1) * int (digits_val (ip @ fp))) (x - int (length fp)))"
proof -
  have "takeWhile is_digit (ip @ CHR ''.'' # fp @ exponent_text x) = ip"
    "dropWhile is_digit (ip @ CHR ''.'' # fp @ exponent_text x) = CHR ''.'' # fp @ exponent_text x"
    using digits_split [OF assms(1), of "CHR ''.'' # fp @ exponent_text x"] by (simp_all add: is_digit_def)
  then show ?thesis
    using digits_split [OF assms(2) exponent_text_start [of x]] parse_exponent_text [of x] assms(3)
    by (simp add: parse_unsigned_def Let_def)
qed

lemma parse_put_point:
  assumes ds: "list_all is_digit ds" "ds \<noteq> []" and left: "left = e + int (length ds)"
  defines "dot \<equiv> point_place e left"
  shows "parse_unsigned neg (put_point ds dot @ exponent_text (left - dot))
    = Some (DFin ((if neg then - 1 else 1) * int (digits_val ds)) e)"
proof -
  have len: "1 \<le> length ds" using ds(2) by (cases ds) auto
  consider (small) "dot \<le> 0" | (large) "0 < dot" "int (length ds) \<le> dot" | (mid) "0 < dot" "dot < int (length ds)"
    by linarith
  then show ?thesis
  proof cases
    case small
    then have "left = dot" by (simp add: dot_def point_place_def split: if_splits)
    let ?z = "replicate (nat (- dot)) (CHR ''0'')"
    have "list_all is_digit (?z @ ds)" using ds(1) zero_digit by (auto simp: list_all_iff)
    from parse_pointed [of "[CHR ''0'']" "?z @ ds" neg 0, OF _ this]
    have "parse_unsigned neg (CHR ''0'' # CHR ''.'' # ?z @ ds)
        = Some (DFin ((if neg then - 1 else 1) * int (digits_val (CHR ''0'' # ?z @ ds))) (dot - int (length ds)))"
      using small by (simp add: is_digit_def exponent_text_def)
    moreover have "digits_val (CHR ''0'' # ?z @ ds) = digits_val ds"
      using digits_val_zeros [of "Suc (nat (- dot))" ds] by simp
    ultimately show ?thesis
      using small \<open>left = dot\<close> left by (simp add: put_point_def exponent_text_def)
  next
    case large
    then have "put_point ds dot = ds" "left - dot = e"
      using left len by (auto simp: dot_def point_place_def put_point_def split: if_splits)
    then show ?thesis using parse_plain [OF ds, of neg e] by simp
  next
    case mid
    let ?i = "take (nat dot) ds" and ?f = "drop (nat dot) ds"
    have "list_all is_digit ?i" "list_all is_digit ?f" "?i \<noteq> []"
      using ds mid by (auto simp: list_all_iff dest: in_set_takeD in_set_dropD)
    from parse_pointed [OF this, of neg "left - dot"] mid left
    show ?thesis by (simp add: put_point_def)
  qed
qed

lemma put_point_start: "list_all is_digit ds \<Longrightarrow> ds \<noteq> [] \<Longrightarrow> \<exists>c r. put_point ds dot = c # r \<and> is_digit c"
  by (cases ds) (auto simp: put_point_def is_digit_def take_Cons' split: if_splits)

lemma dec_parse_str: "dec_parse (dec_str (DFin m e)) = Some (DFin m e)"
proof -
  let ?ds = "nat_str (nat \<bar>m\<bar>)"
  define left where "left = e + int (length ?ds)"
  define t where "t = put_point ?ds (point_place e left) @ exponent_text (left - point_place e left)"
  have ds: "list_all is_digit ?ds" "?ds \<noteq> []" "digits_val ?ds = nat \<bar>m\<bar>" using nat_str_props by auto
  have str: "dec_str (DFin m e) = (if m < 0 then ''-'' else '''') @ t"
    by (simp add: t_def left_def Let_def exponent_text_def)
  have parse: "parse_unsigned neg t = Some (DFin ((if neg then - 1 else 1) * int (nat \<bar>m\<bar>)) e)" for neg
    using parse_put_point [OF ds(1,2) left_def] ds(3) by (simp add: t_def)
  show ?thesis
  proof (cases "m < 0")
    case True
    then show ?thesis using parse [of True] by (simp add: dec_parse_def str del: dec_str.simps)
  next
    case False
    obtain c r where "put_point ?ds (point_place e left) = c # r" "is_digit c"
      using put_point_start [OF ds(1,2), of "point_place e left"] by blast
    then have "t = c # r @ exponent_text (left - point_place e left)" "is_digit c" by (simp_all add: t_def)
    moreover have "\<not> is_digit (CHR ''-'')" by (simp add: is_digit_def)
    ultimately show ?thesis
      using False parse [of False] by (auto simp: dec_parse_def str simp del: dec_str.simps)
  qed
qed

section \<open>Canonical amounts\<close>

lemma strip_zeros_props:
  "0 < c \<Longrightarrow> strip_zeros c x = (c', x') \<Longrightarrow>
     0 < c' \<and> c' mod 10 \<noteq> 0 \<and> of_nat c' * (10::rat) powi x' = of_nat c * 10 powi x"
proof (induction c x arbitrary: c' x' rule: strip_zeros.induct)
  case (1 c x)
  show ?case
  proof (cases "c mod 10 = 0")
    case True
    then have c: "c = c div 10 * 10" by presburger
    have "0 < c div 10" using c 1(2) by (metis mult_0 neq0_conv)
    moreover have "strip_zeros (c div 10) (x + 1) = (c', x')"
      using 1(2,3) True by (simp add: strip_zeros.simps [of c])
    ultimately have IH: "0 < c' \<and> c' mod 10 \<noteq> 0 \<and>
        of_nat c' * (10::rat) powi x' = of_nat (c div 10) * 10 powi (x + 1)"
      using 1 True by simp
    have "(of_nat c :: rat) = of_nat (c div 10) * 10" by (subst c) simp
    then have "of_nat (c div 10) * (10::rat) powi (x + 1) = of_nat c * 10 powi x"
      by (simp add: power_int_add)
    with IH show ?thesis by simp
  next
    case False
    with 1 show ?thesis by (simp add: strip_zeros.simps [of c])
  qed
qed

lemma canonical_le:
  assumes "c mod 10 \<noteq> 0" and "of_nat c * (10::rat) powi x = of_nat d * 10 powi y" and "x \<le> y"
  shows "c = d \<and> x = y"
proof -
  have "of_nat c * (10::rat) powi x = of_nat d * (10 ^ nat (y - x) * 10 powi x)"
    using assms(2,3) by (simp add: powi_shift)
  then have "(of_nat c :: rat) = of_nat (d * 10 ^ nat (y - x))" by simp
  then have c: "c = d * 10 ^ nat (y - x)" by (simp only: of_nat_eq_iff)
  show ?thesis
  proof (cases "x = y")
    case False
    with assms(3) obtain k where "nat (y - x) = Suc k" by (metis diff_gt_0_iff_gt gr0_conv_Suc less_le zero_less_nat_eq)
    with c have "c mod 10 = 0" by simp
    with assms(1) show ?thesis by simp
  qed (use c in simp)
qed

lemma canonical_unique:
  assumes "c mod 10 \<noteq> 0" and "d mod 10 \<noteq> 0" and "of_nat c * (10::rat) powi x = of_nat d * 10 powi y"
  shows "c = d \<and> x = y"
  using canonical_le [OF assms(1,3)] canonical_le [OF assms(2) assms(3) [symmetric]] by linarith

text \<open>A number with few enough digits is not changed by rounding.\<close>

lemma rounded_exact:
  assumes r: "rounded p j v w" and v: "v = of_nat c * 10 powi x" and c: "c < 10 ^ p" and p: "0 < p"
  shows "w = v"
proof -
  have "(10::rat) powi (int p - 1 + j) \<le> of_nat c * 10 powi x" using r v by (simp add: rounded_def)
  also have "\<dots> < 10 ^ p * 10 powi x"
  proof -
    have "(of_nat c :: rat) < of_nat (10 ^ p)" using c by (simp only: of_nat_less_iff)
    then show ?thesis by (intro mult_strict_right_mono) simp_all
  qed
  also have "\<dots> = 10 powi (int p + x)" by (simp add: power_int_add)
  finally have "int p - 1 + j < int p + x" by (rule powi_less_imp)
  then have "j \<le> x" by simp
  then have "v = of_int (int c * 10 ^ nat (x - j)) * 10 powi j"
    unfolding v by (simp add: powi_shift)
  then have "half_even (v / 10 powi j) = int c * 10 ^ nat (x - j)"
    by (metis half_even_of_int nonzero_mult_div_cancel_right power_int_not_zero zero_neq_numeral)
  with r \<open>v = of_int (int c * 10 ^ nat (x - j)) * 10 powi j\<close> show ?thesis by (simp add: rounded_def)
qed

text \<open>An accepted amount, in lowest terms.\<close>

lemma accepted_canonical:
  assumes "amount_accepted d"
  obtains m e c x where "d = DFin m e" and "0 < m" and "strip_zeros (nat m) e = (c, x)"
    and "0 < c" and "c mod 10 \<noteq> 0" and "dval d = of_nat c * 10 powi x"
    and "- 8 \<le> x" and "int (ndigits c) + x \<le> 16"
proof -
  obtain m e where d: "d = DFin m e" using assms by (cases d) (auto simp: amount_accepted_def)
  obtain c x where s: "strip_zeros (nat m) e = (c, x)" by (metis surj_pair)
  have m: "0 < m" "- 8 \<le> x" "int (ndigits c) + x \<le> 16"
    using assms by (simp_all add: amount_accepted_def d s)
  from strip_zeros_props [OF _ s] m(1)
  have "0 < c \<and> c mod 10 \<noteq> 0 \<and> of_nat c * (10::rat) powi x = of_int m * 10 powi e" by simp
  with that [OF d m(1) s] m show ?thesis by (simp add: d)
qed

lemma accepted_digits:
  assumes "- 8 \<le> x" and "int (ndigits c) + x \<le> 16"
  shows "c < 10 ^ 24"
proof -
  have "ndigits c \<le> 24" using assms by linarith
  then show ?thesis by (simp add: ndigits_le_iff)
qed

lemma normalize_accepted:
  assumes "amount_accepted d"
  obtains c x where "dec_normalize DEFAULT_CONTEXT d = DFin (int c) x" and "0 < c" and "c mod 10 \<noteq> 0"
    and "dval d = of_nat c * 10 powi x"
proof -
  obtain m e c x where d: "d = DFin m e" "0 < m" "0 < c" "c mod 10 \<noteq> 0"
    "dval d = of_nat c * 10 powi x" "- 8 \<le> x" "int (ndigits c) + x \<le> 16"
    using accepted_canonical [OF assms] by metis
  have p: "0 < prec DEFAULT_CONTEXT" by (simp add: DEFAULT_CONTEXT_def)
  from dec_fix_rounds [OF d(2) p, of e] obtain j where
    j: "dec_pos (dec_fix DEFAULT_CONTEXT m e)"
      "rounded (prec DEFAULT_CONTEXT) j (dval d) (dval (dec_fix DEFAULT_CONTEXT m e))"
    by (auto simp: rounds_to_def d(1))
  have "c < 10 ^ prec DEFAULT_CONTEXT"
    using accepted_digits [OF d(6,7)] by (simp add: DEFAULT_CONTEXT_def)
  from rounded_exact [OF j(2) d(5) this p]
  have val: "dval (dec_fix DEFAULT_CONTEXT m e) = of_nat c * 10 powi x" by (simp add: d(5))
  obtain m' e' where f: "dec_fix DEFAULT_CONTEXT m e = DFin m' e'" "0 < m'"
    using j(1) by (cases "dec_fix DEFAULT_CONTEXT m e") auto
  obtain c' x' where s: "strip_zeros (nat m') e' = (c', x')" by (metis surj_pair)
  from strip_zeros_props [OF _ s] f(2)
  have c': "c' mod 10 \<noteq> 0" "of_nat c' * (10::rat) powi x' = of_int m' * 10 powi e'" by simp_all
  with val f(1) have "of_nat c' * (10::rat) powi x' = of_nat c * 10 powi x" by simp
  from canonical_unique [OF c'(1) d(4) this] have "c' = c" "x' = x" by simp_all
  then have "dec_normalize DEFAULT_CONTEXT d = DFin (int c) x"
    using f s d(1) by simp
  with that d(3,4,5) show ?thesis by blast
qed

section \<open>The characters of a decimal's text\<close>

definition bar_free :: "string \<Rightarrow> bool" where
  "bar_free s \<longleftrightarrow> CHR ''|'' \<notin> set s"

lemma digits_bar_free: "list_all is_digit ds \<Longrightarrow> bar_free ds"
proof -
  have "\<not> is_digit (CHR ''|'')" by (simp add: is_digit_def)
  then show "list_all is_digit ds \<Longrightarrow> bar_free ds" by (auto simp: bar_free_def list_all_iff)
qed

lemma put_point_bar_free: "bar_free ds \<Longrightarrow> bar_free (put_point ds dot)"
  by (auto simp: bar_free_def put_point_def dest: in_set_takeD in_set_dropD)

lemma dec_str_bar_free: "bar_free (dec_str (DFin m e))"
proof -
  have "bar_free (nat_str n)" for n using nat_str_props digits_bar_free by blast
  then have "bar_free (signed_str x)" "bar_free (put_point (nat_str n) dot)" for x n dot
    using put_point_bar_free by (auto simp: bar_free_def signed_str_def)
  then show ?thesis by (simp add: bar_free_def Let_def)
qed

lemma currency_value_bar_free: "bar_free (currency_value c)"
  by (cases c) (simp_all add: bar_free_def)

lemma last_bar_split:
  assumes "xs @ CHR ''|'' # ys = xs' @ CHR ''|'' # ys'" and "bar_free ys" and "bar_free ys'"
  shows "xs = xs' \<and> ys = ys'"
  using assms
proof (induction ys arbitrary: ys' rule: rev_induct)
  case Nil
  then show ?case by (cases ys' rule: rev_cases) (auto simp: bar_free_def)
next
  case (snoc y ys)
  then show ?case
    by (cases ys' rule: rev_cases) (auto simp: bar_free_def)
qed

lemma currency_value_inj [simp]: "currency_value c = currency_value c' \<longleftrightarrow> c = c'"
  by (cases c; cases c') simp_all

lemma currency_of_value [simp]: "currency_of (currency_value c) = Some c"
  by (cases c) (simp_all add: currency_of_def Currency_members_def)

lemma read_stored_hops: "\<forall>hop \<in> set hops. is_finite (h_rate hop) \<Longrightarrow> read_hops (map hop_json hops) = Inr hops"
proof (induction hops)
  case (Cons hop hops)
  then obtain m e where "h_rate hop = DFin m e" by (cases "h_rate hop") auto
  then have "read_hop (hop_json hop) = Inr hop"
    using dec_parse_str [of m e] by (simp add: read_hop_def hop_json_def del: dec_str.simps)
  with Cons show ?case by simp
qed simp

section \<open>Properties\<close>

text \<open>
  C31: the route of a response is the route of the quote: the hops that \<open>create\<close> writes as JSON,
  with every rate as text, are read back exactly, coefficients and exponents included.
\<close>

theorem route_round_trip:
  assumes "\<forall>hop \<in> set hops. is_finite (h_rate hop)"
  shows "read_hops (map hop_json hops) = Inr hops"
  using assms by (rule read_stored_hops)

theorem route_round_trip_witness:
  "read_hops (map hop_json [\<lparr>h_source = USD, h_target = EUR, h_lp = ''LP_A'', h_rate = DFin 919 (-3)\<rparr>])
     = Inr [\<lparr>h_source = USD, h_target = EUR, h_lp = ''LP_A'', h_rate = DFin 919 (-3)\<rparr>]"
  by (rule route_round_trip) simp

text \<open>
  C32: the fingerprint text identifies a request: for accepted amounts two requests have the same
  text exactly if they have the same owner, the same amount as a number (\<open>250\<close>, \<open>250.00\<close> and
  \<open>2.5E+2\<close> agree) and the same target; then their fingerprints agree as well.
\<close>

theorem fingerprint_text_identifies_request:
  assumes "amount_accepted (sc_amount a)" and "amount_accepted (sc_amount b)"
  shows "(fingerprint_text o1 a = fingerprint_text o2 b \<longleftrightarrow>
      o1 = o2 \<and> dval (sc_amount a) = dval (sc_amount b) \<and> sc_target a = sc_target b) \<and>
    (fingerprint_text o1 a = fingerprint_text o2 b \<longrightarrow> request_fingerprint o1 a = request_fingerprint o2 b)"
proof -
  obtain c x where c: "dec_normalize DEFAULT_CONTEXT (sc_amount a) = DFin (int c) x" "c mod 10 \<noteq> 0"
    "dval (sc_amount a) = of_nat c * 10 powi x"
    using normalize_accepted [OF assms(1)] by metis
  obtain d y where d: "dec_normalize DEFAULT_CONTEXT (sc_amount b) = DFin (int d) y" "d mod 10 \<noteq> 0"
    "dval (sc_amount b) = of_nat d * 10 powi y"
    using normalize_accepted [OF assms(2)] by metis
  have same: "dec_str (DFin (int c) x) = dec_str (DFin (int d) y) \<longleftrightarrow> dval (sc_amount a) = dval (sc_amount b)"
  proof
    assume "dec_str (DFin (int c) x) = dec_str (DFin (int d) y)"
    then have "DFin (int c) x = DFin (int d) y" using dec_parse_str by (metis option.inject)
    with c(3) d(3) show "dval (sc_amount a) = dval (sc_amount b)" by simp
  next
    assume "dval (sc_amount a) = dval (sc_amount b)"
    with c(3) d(3) have "c = d \<and> x = y" by (intro canonical_unique [OF c(2) d(2)]) simp
    then show "dec_str (DFin (int c) x) = dec_str (DFin (int d) y)" by simp
  qed
  have "fingerprint_text o1 a = fingerprint_text o2 b \<longleftrightarrow>
      o1 = o2 \<and> dec_str (DFin (int c) x) = dec_str (DFin (int d) y) \<and> sc_target a = sc_target b"
  proof
    assume "fingerprint_text o1 a = fingerprint_text o2 b"
    then have "(o1 @ CHR ''|'' # dec_str (DFin (int c) x)) @ CHR ''|'' # currency_value (sc_target a)
        = (o2 @ CHR ''|'' # dec_str (DFin (int d) y)) @ CHR ''|'' # currency_value (sc_target b)"
      by (simp add: fingerprint_text_def c(1) d(1) del: dec_str.simps)
    from last_bar_split [OF this currency_value_bar_free currency_value_bar_free]
    have "o1 @ CHR ''|'' # dec_str (DFin (int c) x) = o2 @ CHR ''|'' # dec_str (DFin (int d) y)"
      "sc_target a = sc_target b" by simp_all
    with last_bar_split [OF _ dec_str_bar_free dec_str_bar_free]
    show "o1 = o2 \<and> dec_str (DFin (int c) x) = dec_str (DFin (int d) y) \<and> sc_target a = sc_target b" by blast
  qed (simp add: fingerprint_text_def c(1) d(1) del: dec_str.simps)
  with same have "fingerprint_text o1 a = fingerprint_text o2 b \<longleftrightarrow>
      o1 = o2 \<and> dval (sc_amount a) = dval (sc_amount b) \<and> sc_target a = sc_target b" by blast
  moreover have "fingerprint_text o1 a = fingerprint_text o2 b \<longrightarrow>
      request_fingerprint o1 a = request_fingerprint o2 b"
    by (simp add: request_fingerprint_def)
  ultimately show ?thesis by blast
qed

theorem fingerprint_text_identifies_request_witness:
  "request_fingerprint ''alice'' \<lparr>sc_amount = DFin 25000 (-2), sc_target = EUR\<rparr>
     = request_fingerprint ''alice'' \<lparr>sc_amount = DFin 25 1, sc_target = EUR\<rparr>"
proof -
  have "amount_accepted (DFin 25000 (-2))" "amount_accepted (DFin 25 1)" by code_simp+
  from fingerprint_text_identifies_request [of "\<lparr>sc_amount = DFin 25000 (-2), sc_target = EUR\<rparr>"
      "\<lparr>sc_amount = DFin 25 1, sc_target = EUR\<rparr>" "''alice''" "''alice''"] this
  show ?thesis by (simp add: power_int_def power2_eq_square)
qed

text \<open>
  C33: an accepted amount is stored without rounding: the column holds exactly its value in units
  of \<open>10 ^ -8\<close>, positive and within the column's 24 digits.
\<close>

theorem accepted_amount_stored_exactly:
  assumes "amount_accepted d"
  shows "\<exists>n. to_numeric 24 8 d = Inr n \<and> of_int n = dval d * 10 ^ 8 \<and> 0 < n \<and> n < 10 ^ 24"
proof -
  obtain m e c x where d: "d = DFin m e" "0 < m" "0 < c" "dval d = of_nat c * 10 powi x"
    "- 8 \<le> x" "int (ndigits c) + x \<le> 16"
    using accepted_canonical [OF assms] by metis
  define n where "n = int c * 10 ^ nat (x + 8)"
  have val: "of_int n = dval d * 10 ^ 8"
  proof -
    have "(10::rat) ^ nat (x + 8) = 10 powi (x + 8)" using d(5) by (simp add: power_int_def)
    then show ?thesis by (simp add: n_def d(4) power_int_add)
  qed
  have "int c < 10 ^ ndigits c" using ndigits_upper [of c] by (metis of_nat_less_iff of_nat_numeral of_nat_power)
  then have "n < 10 ^ ndigits c * 10 ^ nat (x + 8)" unfolding n_def by (intro mult_strict_right_mono) simp_all
  also have "\<dots> = 10 ^ (ndigits c + nat (x + 8))" by (simp add: power_add)
  also have "\<dots> \<le> 10 ^ 24" using d(5,6) by (intro power_increasing) auto
  finally have fit: "n < 10 ^ 24" .
  have "round_scale m (e + 8) = n"
  proof (cases "0 \<le> e + 8")
    case True
    then have "(10::rat) ^ nat (e + 8) = 10 powi (e + 8)" by (simp add: power_int_def)
    then have "(of_int (m * 10 ^ nat (e + 8)) :: rat) = of_int n"
      using val by (simp add: d(1) power_int_add)
    with True show ?thesis by (simp only: round_scale_def of_int_eq_iff if_True)
  next
    case False
    define D where "D = (10::int) ^ nat (- (e + 8))"
    have D: "0 < D" by (simp add: D_def)
    have "(of_int D :: rat) * 10 powi (e + 8) = 1"
    proof -
      have "(of_int D :: rat) = 10 powi (- (e + 8))" using False by (simp add: D_def power_int_def)
      then show ?thesis by (simp flip: power_int_add)
    qed
    then have "(of_int m :: rat) = of_int n * of_int D"
      unfolding val by (simp add: d(1) power_int_add)
        (metis (no_types, opaque_lifting) mult.assoc mult.commute mult.right_neutral)
    then have "m = n * D" by (metis of_int_eq_iff of_int_mult)
    moreover have "(2 * (n * D) + D) div (2 * D) = n"
    proof -
      have "2 * (n * D) + D = D + n * (2 * D)" by simp
      then show ?thesis using D by (simp only: div_mult_self1) (simp add: div_pos_pos_trivial)
    qed
    moreover have "round_scale m (e + 8) = sgn m * ((2 * \<bar>m\<bar> + D) div (2 * D))"
      using False by (simp only: round_scale_def D_def if_False)
    ultimately show ?thesis using d(2) by simp
  qed
  moreover have "0 < n" using d(3) by (simp add: n_def)
  ultimately show ?thesis
    using val fit by (simp add: d(1) numeric_fits_def Let_def)
qed

theorem accepted_amount_stored_exactly_witness:
  "\<exists>n. to_numeric 24 8 (DFin 25 1) = Inr n \<and> of_int n = dval (DFin 25 1) * 10 ^ 8"
proof -
  have "amount_accepted (DFin 25 1)" by code_simp
  from accepted_amount_stored_exactly [OF this] show ?thesis by blast
qed

end
