(* ===== verification/Service.thy ===== *)
theory Service
  imports Ledger Schemas Provider Rate_Feed
begin

text \<open>
  The settlement service of \<open>app/service.py\<close>.  Each \<open>session.begin()\<close> block is a transaction;
  the handlers run several of them with provider calls in between.  At every \<open>await\<close> between two
  such steps other requests, the reconciliation worker and other processes may act: a handler
  applies \<open>sv_others k\<close> to the world at its \<open>k\<close>-th such point.  Clock readings and the UUIDs
  drawn are fields of the environment, one per use.
\<close>

section \<open>The environment\<close>

type_synonym 'p world = "db \<times> 'p"

record 'p service =
  sv_initiate :: "nat \<Rightarrow> int \<Rightarrow> currency \<Rightarrow> int \<Rightarrow> 'p \<Rightarrow> (app_error + provider_result) \<times> 'p"
  sv_lookup :: "nat \<Rightarrow> 'p \<Rightarrow> app_error + provider_lookup"
  sv_others :: "nat \<Rightarrow> 'p world \<Rightarrow> 'p world"
  sv_clock :: "nat \<Rightarrow> int"
  sv_lease :: int
  sv_uuid :: "nat \<Rightarrow> post_ids"
  sv_new_id :: nat

definition lease_deadline :: "'p service \<Rightarrow> nat \<Rightarrow> int" where
  "lease_deadline sv k = sv_clock sv k + sv_lease sv"

record payout_claim =
  cl_settlement :: settlement_read
  cl_token :: int

section \<open>Reading\<close>

definition find_by_key :: "string \<Rightarrow> string \<Rightarrow> db \<Rightarrow> settlement option" where
  "find_by_key owner key db =
     List.find (\<lambda>s. (st_owner s, st_key s) = (owner, key)) (db_settlements db)"

definition get :: "nat \<Rightarrow> db \<Rightarrow> app_error + settlement_read" where
  "get i db =
     (case find_settlement i db of None \<Rightarrow> Inl SettlementNotFound | Some s \<Rightarrow> from_orm_settlement s)"

definition check_fingerprint :: "settlement \<Rightarrow> string \<Rightarrow> app_error + unit" where
  "check_fingerprint s fingerprint = guard_result (st_fingerprint s = fingerprint) IdempotencyConflict"

definition IDEMPOTENCY_CONSTRAINT :: string where
  "IDEMPOTENCY_CONSTRAINT = ''uq_settlements_owner_idempotency_key''"

definition is_idempotency_violation :: "app_error \<Rightarrow> bool" where
  "is_idempotency_violation e \<longleftrightarrow> e = DbError (UniqueViolation IDEMPOTENCY_CONSTRAINT)"

section \<open>Submission\<close>

text \<open>The new row; its numbers are converted to the scales of their columns by the insert.\<close>

definition new_settlement ::
  "nat \<Rightarrow> string \<Rightarrow> string \<Rightarrow> string \<Rightarrow> settlement_create \<Rightarrow> route_quote \<Rightarrow> app_error + settlement" where
  "new_settlement i owner key fingerprint command q =
     bind_result (to_numeric 24 8 (sc_amount command)) (\<lambda>amount.
     bind_result (to_numeric 24 8 (q_rate q)) (\<lambda>rate.
     bind_result (to_numeric 32 8 (dec_mul DEFAULT_CONTEXT (sc_amount command) (q_rate q))) (\<lambda>quoted.
       Inr \<lparr>st_id = i, st_owner = owner, st_key = key, st_fingerprint = fingerprint,
         st_amount = amount, st_target = sc_target command, st_route = map hop_json (q_hops q),
         st_version = q_version q, st_rate = rate, st_quoted = quoted, st_operation = i,
         st_status = S_RESERVED\<rparr>)))"

definition submit ::
  "post_ids \<Rightarrow> nat \<Rightarrow> string \<Rightarrow> string \<Rightarrow> string \<Rightarrow> settlement_create \<Rightarrow> route_quote \<Rightarrow> unit transaction" where
  "submit ids i owner key fingerprint command q db =
     bind_result (new_settlement i owner key fingerprint command q) (\<lambda>s.
     bind_result (insert_settlement s db) (\<lambda>db1.
     bind_result (reserve ids s db1) (\<lambda>db2. Inr ((), db2))))"

section \<open>Claims\<close>

definition claim_reserved :: "int \<Rightarrow> nat \<Rightarrow> payout_claim option transaction" where
  "claim_reserved deadline i db =
     (case find_settlement i db of
        None \<Rightarrow> Inl SettlementNotFound
      | Some s \<Rightarrow>
          if st_status s \<noteq> S_RESERVED then Inr (None, db)
          else bind_result (from_orm_settlement (s\<lparr>st_status := PAYOUT_IN_PROGRESS\<rparr>)) (\<lambda>read.
            bind_result
              (insert_attempt
                \<lparr>at_settlement = st_id s, at_operation = st_operation s, at_state = SUBMITTING,
                 at_token = 1, at_lease = deadline, at_outcome = None, at_reference = None\<rparr>
                (update_status i PAYOUT_IN_PROGRESS db)) (\<lambda>db'.
            Inr (Some \<lparr>cl_settlement = read, cl_token = 1\<rparr>, db'))))"

definition reconcilable :: "settlement_status \<Rightarrow> bool" where
  "reconcilable status \<longleftrightarrow> status = PAYOUT_IN_PROGRESS \<or> status = PENDING_RECONCILIATION"

definition claim_for_reconciliation ::
  "bool \<Rightarrow> int \<Rightarrow> int \<Rightarrow> nat \<Rightarrow> payout_claim option transaction" where
  "claim_for_reconciliation respect_schedule now deadline i db =
     (case find_settlement i db of
        None \<Rightarrow> Inl SettlementNotFound
      | Some s \<Rightarrow>
          if \<not> reconcilable (st_status s) then Inr (None, db)
          else (case find_attempt i db of
            None \<Rightarrow>
              bind_result (from_orm_settlement s) (\<lambda>read.
              bind_result
                (insert_attempt
                  \<lparr>at_settlement = st_id s, at_operation = st_operation s, at_state = CLAIMED,
                   at_token = 1, at_lease = deadline, at_outcome = None, at_reference = None\<rparr> db) (\<lambda>db'.
              Inr (Some \<lparr>cl_settlement = read, cl_token = 1\<rparr>, db')))
          | Some x \<Rightarrow>
              if at_state x = CLAIMED \<and> now < at_lease x then Inr (None, db)
              else if respect_schedule \<and> now < at_lease x then Inr (None, db)
              else bind_result (from_orm_settlement s) (\<lambda>read.
                bind_result
                  (update_attempt
                    (x\<lparr>at_token := at_token x + 1, at_state := CLAIMED, at_lease := deadline\<rparr>) db) (\<lambda>db'.
                Inr (Some \<lparr>cl_settlement = read, cl_token = at_token x + 1\<rparr>, db')))))"

text \<open>
  The due rows: settlement and attempt joined, waiting and with an expired lease, in the order of
  their leases; rows locked by others are skipped.
\<close>

definition due :: "int \<Rightarrow> settlement \<Rightarrow> attempt \<Rightarrow> bool" where
  "due now s x \<longleftrightarrow> at_settlement x = st_id s \<and> reconcilable (st_status s) \<and> at_lease x \<le> now \<and>
     (at_state x = SUBMITTING \<or> at_state x = RECONCILING)"

definition due_rows :: "(nat \<Rightarrow> bool) \<Rightarrow> int \<Rightarrow> nat \<Rightarrow> db \<Rightarrow> (settlement \<times> attempt) list" where
  "due_rows locked now limit db =
     take limit (sort_key (\<lambda>(s, x). (at_lease x, st_id s))
       [(s, x). s \<leftarrow> db_settlements db, x \<leftarrow> db_attempts db, due now s x, \<not> locked (st_id s)])"

fun claim_rows :: "(nat \<Rightarrow> int) \<Rightarrow> (settlement \<times> attempt) list \<Rightarrow> payout_claim list transaction" where
  "claim_rows deadline [] db = Inr ([], db)"
| "claim_rows deadline ((s, x) # rows) db =
     bind_result (from_orm_settlement s) (\<lambda>read.
     bind_result
       (update_attempt
         (x\<lparr>at_token := at_token x + 1, at_state := CLAIMED, at_lease := deadline (st_id s)\<rparr>) db) (\<lambda>db1.
     bind_result (claim_rows deadline rows db1) (\<lambda>(claims, db2).
       Inr (\<lparr>cl_settlement = read, cl_token = at_token x + 1\<rparr> # claims, db2))))"

definition claim_due_batch ::
  "(nat \<Rightarrow> bool) \<Rightarrow> int \<Rightarrow> (nat \<Rightarrow> int) \<Rightarrow> nat \<Rightarrow> payout_claim list transaction" where
  "claim_due_batch locked now deadline limit db = claim_rows deadline (due_rows locked now limit db) db"

section \<open>Finalization\<close>

text \<open>Status and attempt are written together, after the movement if there is one.\<close>

definition settle :: "settlement \<Rightarrow> settlement_status \<Rightarrow> attempt \<Rightarrow> settlement_read transaction" where
  "settle s status x db =
     bind_result (from_orm_settlement (s\<lparr>st_status := status\<rparr>)) (\<lambda>read.
     bind_result (update_attempt x (update_status (st_id s) status db)) (\<lambda>db'. Inr (read, db')))"

definition finalize_attempt ::
  "int \<Rightarrow> post_ids \<Rightarrow> nat \<Rightarrow> int \<Rightarrow> provider_result option \<Rightarrow> settlement_read transaction" where
  "finalize_attempt now ids i token result db =
     (case find_settlement i db of
        None \<Rightarrow> Inl SettlementNotFound
      | Some s \<Rightarrow>
          (case find_attempt i db of
             None \<Rightarrow> Inl SettlementNotFound
           | Some x \<Rightarrow>
               if at_token x \<noteq> token then Inl StaleAttemptToken
               else if st_status s = SUCCESS \<or> st_status s = FAILED
               then bind_result (from_orm_settlement s) (\<lambda>read. Inr (read, db))
               else (case result of
                 Some PAID \<Rightarrow>
                   bind_result (consume ids s db)
                     (settle s SUCCESS (x\<lparr>at_state := COMPLETED, at_outcome := Some OutcomePaid\<rparr>))
               | Some UNPAID \<Rightarrow>
                   bind_result (release ids s db)
                     (settle s FAILED (x\<lparr>at_state := COMPLETED, at_outcome := Some OutcomeUnpaid\<rparr>))
               | _ \<Rightarrow>
                   settle s PENDING_RECONCILIATION
                     (x\<lparr>at_state := RECONCILING,
                        at_outcome := Some (if result = Some AMBIGUOUS then OutcomeAmbiguous else OutcomeUnknown),
                        at_lease := now\<rparr>) db)))"

end
