(* ===== verification/Handlers.thy ===== *)
theory Handlers
  imports Service
begin

text \<open>
  The coroutines of \<open>SettlementService\<close>: \<open>create\<close>, \<open>reconcile\<close>, the reconciliation of a claim,
  one pass of the worker and its loop.  A handler maps the world it starts in to its result (a
  response or the exception it raises) and the world it leaves.
\<close>

type_synonym 'p handler_result = "(app_error + settlement_read) \<times> 'p world"

text \<open>The world after the other tasks have run at the \<open>k\<close>-th await.\<close>

abbreviation await :: "'p service \<Rightarrow> nat \<Rightarrow> 'p world \<Rightarrow> 'p world" where
  "await sv k w \<equiv> sv_others sv k w"

text \<open>A transaction on the world.\<close>

definition in_session :: "'a transaction \<Rightarrow> 'p world \<Rightarrow> (app_error + 'a) \<times> 'p world" where
  "in_session body w = (case transact body (fst w) of (r, db') \<Rightarrow> (r, (db', snd w)))"

text \<open>A provider call of a claim; any exception of \<open>initiate\<close> counts as no result.\<close>

definition call_initiate :: "'p service \<Rightarrow> payout_claim \<Rightarrow> 'p world \<Rightarrow> provider_result option \<times> 'p world" where
  "call_initiate sv claim w =
     (let s = cl_settlement claim
      in case sv_initiate sv (sr_id s) (sr_amount s) (sr_target s) (sr_quoted s) (snd w) of
           (Inl e, p') \<Rightarrow> (None, (fst w, p'))
         | (Inr result, p') \<Rightarrow> (Some result, (fst w, p')))"

definition get_in :: "nat \<Rightarrow> 'p world \<Rightarrow> 'p handler_result" where
  "get_in i w = (get i (fst w), w)"

section \<open>Creating a settlement\<close>

text \<open>From the claim of a reserved settlement to the end of \<open>create\<close>.\<close>

definition pay_reserved :: "'p service \<Rightarrow> nat \<Rightarrow> 'p world \<Rightarrow> 'p handler_result" where
  "pay_reserved sv i w =
     (case in_session (claim_reserved (lease_deadline sv 0) i) w of
        (Inl e, w1) \<Rightarrow> (Inl e, w1)
      | (Inr None, w1) \<Rightarrow> get_in i (await sv 2 w1)
      | (Inr (Some claim), w1) \<Rightarrow>
          (case call_initiate sv claim (await sv 2 w1) of
             (result, w2) \<Rightarrow>
               (case in_session (finalize_attempt (sv_clock sv 1) (sv_uuid sv 1) i (cl_token claim) result)
                      (await sv 3 w2) of
                  (Inr read, w3) \<Rightarrow> (Inr read, w3)
                | (Inl e, w3) \<Rightarrow>
                    if e = StaleAttemptToken then get_in i (await sv 4 w3) else (Inl e, w3))))"

text \<open>A settlement that exists under the key: conflict, finished answer, or payment of a reserved one.\<close>

definition resume :: "'p service \<Rightarrow> settlement \<Rightarrow> string \<Rightarrow> 'p world \<Rightarrow> 'p handler_result" where
  "resume sv existing fingerprint w =
     (case check_fingerprint existing fingerprint of
        Inl e \<Rightarrow> (Inl e, w)
      | Inr _ \<Rightarrow>
          if st_status existing \<noteq> S_RESERVED then (from_orm_settlement existing, w)
          else pay_reserved sv (st_id existing) w)"

definition create ::
  "'p service \<Rightarrow> rate_book \<Rightarrow> string \<Rightarrow> string \<Rightarrow> settlement_create \<Rightarrow> 'p world \<Rightarrow> 'p handler_result" where
  "create sv rates owner key command w =
     (case find_by_key owner key (fst w) of
        Some existing \<Rightarrow> resume sv existing (request_fingerprint owner command) (await sv 0 w)
      | None \<Rightarrow>
          (case quote rates (sc_target command) of
             Inl e \<Rightarrow> (Inl (RateError e), await sv 0 w)
           | Inr q \<Rightarrow>
               (case in_session
                       (submit (sv_uuid sv 0) (sv_new_id sv) owner key (request_fingerprint owner command) command q)
                       (await sv 0 w) of
                  (Inr _, w1) \<Rightarrow> pay_reserved sv (sv_new_id sv) (await sv 1 w1)
                | (Inl e, w1) \<Rightarrow>
                    if \<not> is_idempotency_violation e then (Inl e, w1)
                    else (case find_by_key owner key (fst (await sv 1 w1)) of
                      None \<Rightarrow> (Inl (AssertionError ''winner''), await sv 1 w1)
                    | Some winner \<Rightarrow>
                        resume sv winner (request_fingerprint owner command) (await sv 1 w1)))))"

section \<open>Reconciliation\<close>

text \<open>The result that a lookup, and a new request after \<open>NOT_FOUND\<close>, give.\<close>

definition look_up :: "'p service \<Rightarrow> payout_claim \<Rightarrow> 'p world \<Rightarrow> (app_error + provider_result option) \<times> 'p world" where
  "look_up sv claim w =
     (case sv_lookup sv (sr_id (cl_settlement claim)) (snd w) of
        Inl e \<Rightarrow> (Inl e, w)
      | Inr LOOKUP_PAID \<Rightarrow> (Inr (Some PAID), w)
      | Inr LOOKUP_UNPAID \<Rightarrow> (Inr (Some UNPAID), w)
      | Inr NOT_FOUND \<Rightarrow> (case call_initiate sv claim (await sv 6 w) of (result, w') \<Rightarrow> (Inr result, w'))
      | Inr _ \<Rightarrow> (Inr None, w))"

text \<open>The last handler of \<open>_reconcile_claim\<close>: give the claim back, then raise or answer.\<close>

definition give_back :: "'p service \<Rightarrow> payout_claim \<Rightarrow> bool \<Rightarrow> app_error \<Rightarrow> 'p world \<Rightarrow> 'p handler_result" where
  "give_back sv claim propagate_errors e w =
     (case in_session (finalize_attempt (sv_clock sv 3) (sv_uuid sv 3) (sr_id (cl_settlement claim))
             (cl_token claim) None) (await sv 8 w) of
        (Inl e', w1) \<Rightarrow>
          if e' \<noteq> StaleAttemptToken then (Inl e', w1)
          else if propagate_errors then (Inl e, w1)
          else get_in (sr_id (cl_settlement claim)) (await sv 9 w1)
      | (Inr _, w1) \<Rightarrow>
          if propagate_errors then (Inl e, w1)
          else get_in (sr_id (cl_settlement claim)) (await sv 9 w1))"

definition reconcile_claim :: "'p service \<Rightarrow> payout_claim \<Rightarrow> bool \<Rightarrow> 'p world \<Rightarrow> 'p handler_result" where
  "reconcile_claim sv claim propagate_errors w =
     (case look_up sv claim (await sv 5 w) of
        (Inl e, w1) \<Rightarrow> give_back sv claim propagate_errors e w1
      | (Inr result, w1) \<Rightarrow>
          (case in_session (finalize_attempt (sv_clock sv 2) (sv_uuid sv 2) (sr_id (cl_settlement claim))
                  (cl_token claim) result) (await sv 7 w1) of
             (Inr read, w2) \<Rightarrow> (Inr read, w2)
           | (Inl e, w2) \<Rightarrow>
               if e = StaleAttemptToken then get_in (sr_id (cl_settlement claim)) (await sv 8 w2)
               else give_back sv claim propagate_errors e w2))"

definition reconcile :: "'p service \<Rightarrow> nat \<Rightarrow> 'p world \<Rightarrow> 'p handler_result" where
  "reconcile sv i w =
     (case get i (fst w) of
        Inl e \<Rightarrow> (Inl e, w)
      | Inr current \<Rightarrow>
          if \<not> reconcilable (sr_status current) then (Inr current, w)
          else (case in_session (claim_for_reconciliation False (sv_clock sv 4) (lease_deadline sv 5) i)
                       (await sv 10 w) of
            (Inl e, w1) \<Rightarrow> (Inl e, w1)
          | (Inr None, w1) \<Rightarrow> get_in i (await sv 11 w1)
          | (Inr (Some claim), w1) \<Rightarrow> reconcile_claim sv claim True w1))"

text \<open>
  One pass of the worker over its claims, whose tasks are run one after the other here; what the
  tasks of the same pass do meanwhile is part of \<open>sv_others\<close>.  The first error is raised at the
  end (\<open>gather\<close> leaves the other tasks running).  \<open>per_task k\<close> is the environment of task \<open>k\<close>.
\<close>

fun reconcile_claims ::
  "(nat \<Rightarrow> 'p service) \<Rightarrow> payout_claim list \<Rightarrow> 'p world \<Rightarrow> app_error option \<times> 'p world" where
  "reconcile_claims per_task [] w = (None, w)"
| "reconcile_claims per_task (claim # claims) w =
     (case reconcile_claim (per_task (length claims)) claim False w of
        (r, w1) \<Rightarrow>
          (case reconcile_claims per_task claims w1 of
             (err, w2) \<Rightarrow> (case r of Inl e \<Rightarrow> (Some e, w2) | Inr _ \<Rightarrow> (err, w2))))"

definition run_reconciliation_once ::
  "(nat \<Rightarrow> 'p service) \<Rightarrow> 'p service \<Rightarrow> (nat \<Rightarrow> bool) \<Rightarrow> nat \<Rightarrow> 'p world \<Rightarrow> (app_error + nat) \<times> 'p world" where
  "run_reconciliation_once per_task sv locked limit w =
     (case in_session (claim_due_batch locked (sv_clock sv 0) (\<lambda>i. lease_deadline sv (Suc i)) limit) w of
        (Inl e, w1) \<Rightarrow> (Inl e, w1)
      | (Inr claims, w1) \<Rightarrow>
          (case reconcile_claims per_task claims w1 of
             (Some e, w2) \<Rightarrow> (Inl e, w2)
           | (None, w2) \<Rightarrow> (Inr (length claims), w2)))"

text \<open>The loop runs passes until the stop event; \<open>n\<close> is the number of passes it gets to run.\<close>

fun reconciliation_loop :: "(nat \<Rightarrow> 'p world \<Rightarrow> (app_error + nat) \<times> 'p world) \<Rightarrow> nat \<Rightarrow> 'p world \<Rightarrow> 'p world" where
  "reconciliation_loop pass 0 w = w"
| "reconciliation_loop pass (Suc n) w = reconciliation_loop pass n (snd (pass n w))"

end
