(* ===== verification/Service_Invariant.thy ===== *)
theory Service_Invariant
  imports Service Ledger_Properties Schema_Text
begin

text \<open>
  The invariant that ties settlements, journals, attempts, balances and the provider together,
  and that every transaction of the service keeps it.  \<open>auth\<close> is the provider's authority.
\<close>

section \<open>The invariant\<close>

definition outstanding :: "settlement_status \<Rightarrow> bool" where
  "outstanding status \<longleftrightarrow> status \<noteq> SUCCESS \<and> status \<noteq> FAILED"

definition outstanding_amount :: "string \<Rightarrow> settlement \<Rightarrow> int" where
  "outstanding_amount owner s = (if st_owner s = owner \<and> outstanding (st_status s) then st_amount s else 0)"

definition outstanding_total :: "string \<Rightarrow> settlement list \<Rightarrow> int" where
  "outstanding_total owner ss = sum_list (map (outstanding_amount owner) ss)"

text \<open>The reserved balance of an owner is what its unfinished settlements hold.\<close>

definition reserved_balances :: "db \<Rightarrow> bool" where
  "reserved_balances db \<longleftrightarrow> (\<forall>owner a. usd_account db (owner, RESERVED) = Some a \<longrightarrow>
     a_balance a = outstanding_total owner (db_settlements db))"

definition settlement_events :: "nat \<Rightarrow> db \<Rightarrow> journal_event set" where
  "settlement_events i db = j_event ` {j \<in> set (db_journals db). j_settlement j = Some i}"

definition expected_events :: "settlement_status \<Rightarrow> journal_event set" where
  "expected_events status =
     (case status of SUCCESS \<Rightarrow> {RESERVE, CONSUME} | FAILED \<Rightarrow> {RESERVE, RELEASE} | _ \<Rightarrow> {RESERVE})"

definition events_match :: "db \<Rightarrow> bool" where
  "events_match db \<longleftrightarrow>
     (\<forall>s \<in> set (db_settlements db). settlement_events (st_id s) db = expected_events (st_status s))"

definition attempts_match :: "db \<Rightarrow> bool" where
  "attempts_match db \<longleftrightarrow> (\<forall>s \<in> set (db_settlements db).
     (st_status s = S_RESERVED \<longleftrightarrow> find_attempt (st_id s) db = None) \<and>
     (\<forall>x. find_attempt (st_id s) db = Some x \<longrightarrow>
        (at_state x = COMPLETED \<longleftrightarrow> \<not> outstanding (st_status s)) \<and> at_operation x = st_id s))"

definition owners_have_accounts :: "db \<Rightarrow> bool" where
  "owners_have_accounts db \<longleftrightarrow> (\<forall>s \<in> set (db_settlements db).
     usd_account db (st_owner s, AVAILABLE) \<noteq> None \<and> usd_account db (st_owner s, RESERVED) \<noteq> None)"

definition routes_readable :: "db \<Rightarrow> bool" where
  "routes_readable db \<longleftrightarrow> (\<forall>s \<in> set (db_settlements db). \<exists>hops. read_hops (st_route s) = Inr hops)"

text \<open>Liabilities of customers against the one USD omnibus account.\<close>

definition chart_of_accounts :: "db \<Rightarrow> bool" where
  "chart_of_accounts db \<longleftrightarrow>
     (\<forall>a \<in> set (db_accounts db). (a_class a = ASSET \<longleftrightarrow> a_purpose a = OMNIBUS) \<and>
        (a_purpose a = OMNIBUS \<longrightarrow> a_owner a = ''system'')) \<and>
     usd_account db (''system'', OMNIBUS) \<noteq> None \<and> net_position USD db = 0"

definition authorities_match :: "(nat \<Rightarrow> provider_lookup option) \<Rightarrow> db \<Rightarrow> bool" where
  "authorities_match auth db \<longleftrightarrow> (\<forall>s \<in> set (db_settlements db).
     (st_status s = SUCCESS \<longrightarrow> auth (st_id s) = Some LOOKUP_PAID) \<and>
     (st_status s = FAILED \<longrightarrow> auth (st_id s) = Some LOOKUP_UNPAID))"

definition service_ok :: "(nat \<Rightarrow> provider_lookup option) \<Rightarrow> db \<Rightarrow> bool" where
  "service_ok auth db \<longleftrightarrow> ledger_ok db \<and> chart_of_accounts db \<and> reserved_balances db \<and>
     events_match db \<and> attempts_match db \<and> owners_have_accounts db \<and> routes_readable db \<and>
     authorities_match auth db"

lemmas service_defs = reserved_balances_def events_match_def attempts_match_def
  owners_have_accounts_def routes_readable_def authorities_match_def

section \<open>Frames\<close>

text \<open>What each predicate reads: a change of the other tables does not matter.\<close>

lemma usd_account_frame [simp]:
  "usd_account (db\<lparr>db_settlements := ss\<rparr>) = usd_account db"
  "usd_account (db\<lparr>db_journals := js\<rparr>) = usd_account db"
  "usd_account (db\<lparr>db_postings := ps\<rparr>) = usd_account db"
  "usd_account (db\<lparr>db_attempts := xs\<rparr>) = usd_account db"
  "usd_account (db\<lparr>db_inserted := is\<rparr>) = usd_account db"
  by (simp_all add: usd_account_def fun_eq_iff)

lemma find_attempt_frame [simp]:
  "find_attempt i (db\<lparr>db_accounts := as\<rparr>) = find_attempt i db"
  "find_attempt i (db\<lparr>db_settlements := ss\<rparr>) = find_attempt i db"
  "find_attempt i (db\<lparr>db_journals := js\<rparr>) = find_attempt i db"
  "find_attempt i (db\<lparr>db_postings := ps\<rparr>) = find_attempt i db"
  "find_attempt i (db\<lparr>db_inserted := is\<rparr>) = find_attempt i db"
  by (simp_all add: find_attempt_def)

lemma settlement_events_frame [simp]:
  "settlement_events i (db\<lparr>db_accounts := as\<rparr>) = settlement_events i db"
  "settlement_events i (db\<lparr>db_settlements := ss\<rparr>) = settlement_events i db"
  "settlement_events i (db\<lparr>db_postings := ps\<rparr>) = settlement_events i db"
  "settlement_events i (db\<lparr>db_attempts := xs\<rparr>) = settlement_events i db"
  "settlement_events i (db\<lparr>db_inserted := is\<rparr>) = settlement_events i db"
  by (simp_all add: settlement_events_def)

lemma net_position_frame [simp]:
  "net_position c (db\<lparr>db_settlements := ss\<rparr>) = net_position c db"
  "net_position c (db\<lparr>db_attempts := xs\<rparr>) = net_position c db"
  "net_position c (db\<lparr>db_inserted := is\<rparr>) = net_position c db"
  by (simp_all add: net_position_def)

lemma ledger_frame:
  "schema_ok (db\<lparr>db_settlements := ss, db_attempts := xs\<rparr>) \<Longrightarrow> ledger_ok db \<Longrightarrow>
     ledger_ok (db\<lparr>db_settlements := ss, db_attempts := xs\<rparr>)"
  by (simp add: ledger_ok_def books_ok_def entries_ok_def journal_postings_def)

lemma entry_frame [simp]:
  "db_settlements (entry_db ids settlement event d c amount db) = db_settlements db"
  "db_attempts (entry_db ids settlement event d c amount db) = db_attempts db"
  "find_attempt i (entry_db ids settlement event d c amount db) = find_attempt i db"
  "find_settlement i (entry_db ids settlement event d c amount db) = find_settlement i db"
  by (simp_all add: entry_db_def find_attempt_def find_settlement_def)

lemma entry_events:
  "settlement_events i (entry_db ids settlement event d c amount db) =
     settlement_events i db \<union> (if settlement = Some i then {event} else {})"
  by (simp add: settlement_events_def entry_db_def new_journal_def Collect_disj_eq Collect_conv_if image_Un
      conj_disj_distribL conj_disj_distribR)

lemma entry_chart_rows:
  assumes "\<forall>a \<in> set (db_accounts db). (a_class a = ASSET \<longleftrightarrow> a_purpose a = OMNIBUS) \<and>
        (a_purpose a = OMNIBUS \<longrightarrow> a_owner a = ''system'')"
  shows "\<forall>a \<in> set (db_accounts (entry_db ids settlement event d c amount db)).
        (a_class a = ASSET \<longleftrightarrow> a_purpose a = OMNIBUS) \<and> (a_purpose a = OMNIBUS \<longrightarrow> a_owner a = ''system'')"
  using assms by (auto simp: entry_db_def set_balance_def ball_upd_rows)

text \<open>One settlement of an identity.\<close>

lemma find_settlement_Some:
  "schema_ok db \<Longrightarrow> find_settlement i db = Some s \<longleftrightarrow> s \<in> set (db_settlements db) \<and> st_id s = i"
  using find_key_unique [of st_id "db_settlements db" s i] find_Some_set [of "\<lambda>s. st_id s = i" "db_settlements db" s]
  by (auto simp: find_settlement_def schema_defs)

lemma find_attempt_Some:
  "schema_ok db \<Longrightarrow> find_attempt i db = Some x \<longleftrightarrow> x \<in> set (db_attempts db) \<and> at_settlement x = i"
  using find_key_unique [of at_settlement "db_attempts db" x i]
    find_Some_set [of "\<lambda>x. at_settlement x = i" "db_attempts db" x]
  by (auto simp: find_attempt_def schema_defs)

lemma outstanding_total_status:
  assumes "schema_ok db" and "s \<in> set (db_settlements db)"
  shows "outstanding_total owner (db_settlements (update_status (st_id s) status db)) =
    outstanding_total owner (db_settlements db) - outstanding_amount owner s
      + outstanding_amount owner (s\<lparr>st_status := status\<rparr>)"
  using sum_upd_rows_key [of st_id "db_settlements db" s "outstanding_amount owner"] assms
  by (simp add: outstanding_total_def update_status_def schema_defs)

lemma status_rows:
  "set (db_settlements (update_status i status db)) =
     (\<lambda>s. if st_id s = i then s\<lparr>st_status := status\<rparr> else s) ` set (db_settlements db)"
  by (simp add: update_status_def set_upd_rows)

section \<open>Steps that change rows only\<close>

lemma find_settlement_status:
  "find_settlement j (update_status i status db) =
     map_option (\<lambda>s. if st_id s = i then s\<lparr>st_status := status\<rparr> else s) (find_settlement j db)"
  by (simp add: find_settlement_def update_status_def find_upd_rows)

lemma update_status_same:
  assumes "schema_ok db" and "s \<in> set (db_settlements db)"
  shows "update_status (st_id s) (st_status s) db = db"
proof -
  have "r = s" if "r \<in> set (db_settlements db)" "st_id r = st_id s" for r
    using assms that distinct_key_eq [of st_id "db_settlements db" r s] by (simp add: schema_defs)
  then have "(if st_id r = st_id s then r\<lparr>st_status := st_status s\<rparr> else r) = r"
    if "r \<in> set (db_settlements db)" for r
    using that by (cases "st_id r = st_id s"; cases s) auto
  then have "upd_rows (\<lambda>r. st_id r = st_id s) (st_status_update (\<lambda>_. st_status s)) (db_settlements db)
      = db_settlements db"
    by (simp add: upd_rows_def map_idI)
  then show ?thesis by (simp add: update_status_def)
qed

lemma find_attempt_upd:
  "find_attempt j (db\<lparr>db_attempts := upd_rows (\<lambda>y. at_settlement y = at_settlement x) (\<lambda>_. x) (db_attempts db)\<rparr>) =
     (if j = at_settlement x then map_option (\<lambda>_. x) (find_attempt j db) else find_attempt j db)"
proof -
  have "List.find (\<lambda>y. at_settlement y = j) (upd_rows (\<lambda>y. at_settlement y = at_settlement x) (\<lambda>_. x) t) =
      (if j = at_settlement x then map_option (\<lambda>_. x) (List.find (\<lambda>y. at_settlement y = j) t)
       else List.find (\<lambda>y. at_settlement y = j) t)" for t
    by (induction t) auto
  then show ?thesis by (simp add: find_attempt_def)
qed

lemma find_attempt_status [simp]: "find_attempt j (update_status i status db) = find_attempt j db"
  by (simp add: update_status_def)

lemma rows_step:
  assumes ok: "service_ok auth db" and s: "s \<in> set (db_settlements db)"
    and db': "db' = (update_status (st_id s) status db)\<lparr>db_attempts := xs\<rparr>"
    and sch: "schema_ok db'"
    and out: "outstanding (st_status s)" "outstanding status" "status \<noteq> S_RESERVED"
    and x: "find_attempt (st_id s) db' = Some x" "at_state x \<noteq> COMPLETED" "at_operation x = st_id s"
    and other: "\<And>j. j \<noteq> st_id s \<Longrightarrow> find_attempt j db' = find_attempt j db"
  shows "service_ok auth db'"
proof -
  have parts: "ledger_ok db" "schema_ok db" "chart_of_accounts db" "reserved_balances db" "events_match db"
    "attempts_match db" "owners_have_accounts db" "routes_readable db" "authorities_match auth db"
    using ok by (simp_all add: service_ok_def ledger_ok_def)
  have uniq: "r = s" if "r \<in> set (db_settlements db)" "st_id r = st_id s" for r
    using parts(2) s that distinct_key_eq [of st_id "db_settlements db" r s] by (simp add: schema_defs)
  have rows: "set (db_settlements db') = (\<lambda>r. if st_id r = st_id s then r\<lparr>st_status := status\<rparr> else r) `
      set (db_settlements db)"
    by (simp add: db' status_rows)
  have money: "db_accounts db' = db_accounts db" "db_journals db' = db_journals db" "db_postings db' = db_postings db"
    by (simp_all add: db' update_status_def)
  have 1: "ledger_ok db'"
    using parts(1) sch by (simp add: ledger_ok_def books_ok_def entries_ok_def journal_postings_def money)
  have acc: "usd_account db' = usd_account db" and ev: "\<And>i. settlement_events i db' = settlement_events i db"
    by (simp_all add: usd_account_def settlement_events_def money fun_eq_iff)
  have 2: "chart_of_accounts db'"
    using parts(3) by (simp add: chart_of_accounts_def acc money net_position_def)
  have "outstanding_total owner (db_settlements db') = outstanding_total owner (db_settlements db)" for owner
    using outstanding_total_status [OF parts(2) s, of owner status] out
    by (simp add: db' outstanding_amount_def)
  then have 3: "reserved_balances db'" using parts(4) by (simp add: reserved_balances_def acc)
  have exp: "expected_events status = {RESERVE}" if "outstanding status" for status
    using that by (cases status) (simp_all add: outstanding_def expected_events_def)
  have "settlement_events (st_id s) db = {RESERVE}"
    using parts(5) s exp [OF out(1)] by (simp add: events_match_def)
  then have 4: "events_match db'"
    using parts(5) out by (auto simp: events_match_def rows ev exp)
  have 5: "attempts_match db'"
    using parts(6) out x other uniq by (auto simp: attempts_match_def rows outstanding_def)
  have 6: "owners_have_accounts db'" "routes_readable db'"
    using parts(7,8) by (auto simp: owners_have_accounts_def routes_readable_def rows acc)
  have "authorities_match auth db'"
    using parts(9) out by (auto simp: authorities_match_def rows outstanding_def)
  with 1 2 3 4 5 6 show ?thesis by (simp add: service_ok_def)
qed

section \<open>Steps that move money\<close>

text \<open>The money side of the invariant after an entry of a settlement.\<close>

lemma chart_entry:
  assumes ok: "accounts_ok db" and "chart_of_accounts db"
    and "debit \<in> set (db_accounts db)" and "credit \<in> set (db_accounts db)"
    and "a_id debit \<noteq> a_id credit" and "a_currency debit = a_currency credit"
  shows "chart_of_accounts (entry_db ids settlement event debit credit amount db)"
  using assms(2) entry_chart_rows [of db] net_position_entry [OF ok assms(3-6)]
  by (simp add: chart_of_accounts_def usd_account_entry [OF assms(5)])

lemma customer_account:
  assumes "accounts_ok db" and "chart_of_accounts db" and "usd_account db (owner, purpose) = Some a"
    and "purpose \<noteq> OMNIBUS"
  shows "a_class a = LIABILITY"
proof -
  have a: "a \<in> set (db_accounts db)" "a_purpose a = purpose"
    using assms(3) by (simp_all add: usd_account_Some [OF assms(1)] purpose_key_def)
  then have "a_class a \<noteq> ASSET" using assms(2,4) by (auto simp: chart_of_accounts_def)
  then show ?thesis by (cases "a_class a") simp_all
qed

lemma finish_step:
  assumes ok: "service_ok auth db" and s: "s \<in> set (db_settlements db)" and out: "outstanding (st_status s)"
    and kind: "event = CONSUME \<and> ck = (''system'', OMNIBUS) \<and> status = SUCCESS \<and> auth (st_id s) = Some LOOKUP_PAID
      \<or> event = RELEASE \<and> ck = (st_owner s, AVAILABLE) \<and> status = FAILED \<and> auth (st_id s) = Some LOOKUP_UNPAID"
    and post: "post ids s event (st_owner s, RESERVED) ck db = Inr mid"
    and db': "db' = (update_status (st_id s) status mid)\<lparr>db_attempts := xs\<rparr>"
    and sch: "schema_ok db'"
    and x: "find_attempt (st_id s) db' = Some x" "at_state x = COMPLETED" "at_operation x = st_id s"
    and other: "\<And>j. j \<noteq> st_id s \<Longrightarrow> find_attempt j db' = find_attempt j db"
  shows "service_ok auth db'"
proof -
  have parts: "ledger_ok db" "schema_ok db" "chart_of_accounts db" "reserved_balances db" "events_match db"
    "attempts_match db" "owners_have_accounts db" "routes_readable db" "authorities_match auth db"
    and acc: "accounts_ok db"
    using ok by (simp_all add: service_ok_def ledger_ok_def schema_ok_def)
  have ne: "(st_owner s, RESERVED) \<noteq> ck" and fin: "status = SUCCESS \<or> status = FAILED" using kind by auto
  obtain debit credit where e: "usd_account db (st_owner s, RESERVED) = Some debit" "usd_account db ck = Some credit"
    "debit \<in> set (db_accounts db)" "credit \<in> set (db_accounts db)" "a_id debit \<noteq> a_id credit"
    "a_currency debit = a_currency credit"
    and mid: "mid = entry_db ids (Some (st_id s)) event debit credit (st_amount s) db"
    and entry: "post_entry ids (Some (st_id s)) event debit credit (st_amount s) db = Inr mid"
    using movement_entry [OF acc ne post] by metis
  have mid_ok: "ledger_ok mid" by (rule ledger_post_entry [OF parts(1) e(3-5) entry])
  have uniq: "r = s" if "r \<in> set (db_settlements db)" "st_id r = st_id s" for r
    using parts(2) s that distinct_key_eq [of st_id "db_settlements db" r s] by (simp add: schema_defs)
  have rows: "set (db_settlements db') = (\<lambda>r. if st_id r = st_id s then r\<lparr>st_status := status\<rparr> else r) `
      set (db_settlements db)"
    by (simp add: db' status_rows mid)
  have money: "db_accounts db' = db_accounts mid" "db_journals db' = db_journals mid" "db_postings db' = db_postings mid"
    by (simp_all add: db' update_status_def)
  have 1: "ledger_ok db'"
    using mid_ok sch by (simp add: ledger_ok_def books_ok_def entries_ok_def journal_postings_def money)
  have usd: "usd_account db' = usd_account mid" by (simp add: usd_account_def money fun_eq_iff)
  have 2: "chart_of_accounts db'"
    using chart_entry [OF acc parts(3) e(3-6)] by (simp add: chart_of_accounts_def usd money net_position_def mid)
  have some: "usd_account db' k \<noteq> None \<longleftrightarrow> usd_account db k \<noteq> None" for k
    by (simp add: usd mid usd_account_entry [OF e(5)])
  have total: "outstanding_total owner (db_settlements db') =
      outstanding_total owner (db_settlements db) - (if owner = st_owner s then st_amount s else 0)" for owner
    using outstanding_total_status [OF parts(2) s, of owner status] out fin
    by (auto simp: db' mid update_status_def outstanding_amount_def outstanding_def)
  have "a_class debit = LIABILITY" by (rule customer_account [OF acc parts(3) e(1)]) simp
  then have "usd_account db' (owner, RESERVED) = (if owner = st_owner s
      then Some (debit\<lparr>a_balance := a_balance debit - st_amount s\<rparr>) else usd_account db (owner, RESERVED))" for owner
    using kind by (auto simp: usd mid usd_account_moved [OF acc e(1,2) ne] posted_balance_def increases_def)
  then have 3: "reserved_balances db'"
    using parts(4) e(1) by (auto simp: reserved_balances_def total split: if_splits)
  have ev: "settlement_events i db' = settlement_events i db \<union> (if i = st_id s then {event} else {})" for i
    using entry_events [of i ids "Some (st_id s)" event debit credit "st_amount s" db]
    by (auto simp: settlement_events_def money mid)
  have "settlement_events (st_id s) db = {RESERVE}"
    using parts(5) s out by (cases "st_status s") (auto simp: events_match_def expected_events_def outstanding_def)
  then have 4: "events_match db'"
    using parts(5) kind by (auto simp: events_match_def rows ev expected_events_def)
  have 5: "attempts_match db'"
    using parts(6) fin x other uniq by (auto simp: attempts_match_def rows outstanding_def)
  have 6: "owners_have_accounts db'" "routes_readable db'"
    using parts(7,8) by (auto simp: owners_have_accounts_def routes_readable_def rows some simp del: not_None_eq)
  have "authorities_match auth db'"
    using parts(9) kind by (auto simp: authorities_match_def rows)
  with 1 2 3 4 5 6 show ?thesis by (simp add: service_ok_def)
qed

lemma submit_step:
  assumes ok: "service_ok auth db" and ins: "insert_settlement s db = Inr db1"
    and status: "st_status s = S_RESERVED" and route: "read_hops (st_route s) = Inr hops"
    and new: "find_attempt (st_id s) db = None"
    and post: "reserve ids s db1 = Inr db'"
  shows "service_ok auth db'"
proof -
  have parts: "ledger_ok db" "schema_ok db" "chart_of_accounts db" "reserved_balances db" "events_match db"
    "attempts_match db" "owners_have_accounts db" "routes_readable db" "authorities_match auth db"
    using ok by (simp_all add: service_ok_def ledger_ok_def)
  have db1: "db1 = db\<lparr>db_settlements := db_settlements db @ [s]\<rparr>" and fresh: "st_id s \<notin> st_id ` set (db_settlements db)"
    using ins by (simp_all add: insert_settlement_Inr find_settlement_def table_simps)
  have sch1: "schema_ok db1" by (rule schema_insert_settlement [OF parts(2) ins])
  then have led1: "ledger_ok db1"
    using parts(1) by (simp add: ledger_ok_def books_ok_def entries_ok_def journal_postings_def db1)
  have acc: "accounts_ok db1" using sch1 by (simp add: schema_ok_def)
  obtain debit credit where e: "usd_account db1 (st_owner s, AVAILABLE) = Some debit"
    "usd_account db1 (st_owner s, RESERVED) = Some credit"
    "debit \<in> set (db_accounts db1)" "credit \<in> set (db_accounts db1)" "a_id debit \<noteq> a_id credit"
    "a_currency debit = a_currency credit"
    and db': "db' = entry_db ids (Some (st_id s)) RESERVE debit credit (st_amount s) db1"
    and entry: "post_entry ids (Some (st_id s)) RESERVE debit credit (st_amount s) db1 = Inr db'"
    using movement_entry [OF acc _ post [unfolded reserve_def]] by (metis account_purpose.distinct(1) prod.inject)
  have 1: "ledger_ok db'" by (rule ledger_post_entry [OF led1 e(3-5) entry])
  have chart1: "chart_of_accounts db1" using parts(3) by (simp add: chart_of_accounts_def db1)
  have 2: "chart_of_accounts db'" using chart_entry [OF acc chart1 e(3-6)] by (simp add: db')
  have some: "usd_account db' k \<noteq> None \<longleftrightarrow> usd_account db1 k \<noteq> None" for k
    by (simp add: db' usd_account_entry [OF e(5)])
  have rows: "db_settlements db' = db_settlements db @ [s]" by (simp add: db' db1)
  have total: "outstanding_total owner (db_settlements db') =
      outstanding_total owner (db_settlements db) + (if owner = st_owner s then st_amount s else 0)" for owner
    by (simp add: rows outstanding_total_def outstanding_amount_def status outstanding_def)
  have "a_class credit = LIABILITY" by (rule customer_account [OF acc chart1 e(2)]) simp
  then have "usd_account db' (owner, RESERVED) = (if owner = st_owner s
      then Some (credit\<lparr>a_balance := a_balance credit + st_amount s\<rparr>) else usd_account db1 (owner, RESERVED))" for owner
    by (auto simp: db' usd_account_moved [OF acc e(1,2)] posted_balance_def increases_def)
  then have 3: "reserved_balances db'"
    using parts(4) e(2) by (auto simp: reserved_balances_def total db1 split: if_splits)
  have ev: "settlement_events i db' = settlement_events i db \<union> (if i = st_id s then {RESERVE} else {})" for i
    by (auto simp: db' db1 entry_events)
  have "\<forall>j \<in> set (db_journals db). j_settlement j \<noteq> Some (st_id s)"
    using parts(2) fresh by (auto simp: schema_defs)
  then have "settlement_events (st_id s) db = {}" by (auto simp: settlement_events_def)
  moreover have other: "st_id r \<noteq> st_id s" if "r \<in> set (db_settlements db)" for r
    using fresh that by (metis imageI)
  ultimately have 4: "events_match db'"
    using parts(5) by (auto simp: events_match_def rows ev status expected_events_def)
  have att: "find_attempt i db' = find_attempt i db" for i by (simp add: db' db1)
  have 5: "attempts_match db'"
    using parts(6) new by (auto simp: attempts_match_def rows att status)
  have 6: "owners_have_accounts db'" "routes_readable db'"
    using parts(7,8) e(1,2) route by (auto simp: owners_have_accounts_def routes_readable_def rows some db1 simp del: not_None_eq)
  have "authorities_match auth db'"
    using parts(9) by (auto simp: authorities_match_def rows status)
  with 1 2 3 4 5 6 show ?thesis by (simp add: service_ok_def)
qed

end
