(* ===== verification/Settlement_System.thy ===== *)
theory Settlement_System
  imports Service_Invariant Rate_Feed_Safety
begin

text \<open>
  The settlement service as an abstract state machine on the tables: a settlement is submitted
  with its reservation, its attempt advances, it is finished with its movement, and a transaction
  commits.  Every transaction of the service is a sequence of such steps; the steps keep
  \<open>service_ok\<close> and only let the tables evolve.
\<close>

section \<open>The abstract machine\<close>

text \<open>The order of the statuses; the two final ones are incomparable.\<close>

definition status_rank :: "settlement_status \<Rightarrow> nat" where
  "status_rank status = (case status of
     S_RESERVED \<Rightarrow> 0 | PAYOUT_IN_PROGRESS \<Rightarrow> 1 | PENDING_RECONCILIATION \<Rightarrow> 2 | SUCCESS \<Rightarrow> 3 | FAILED \<Rightarrow> 3)"

definition later :: "settlement_status \<Rightarrow> settlement_status \<Rightarrow> bool" where
  "later a b \<longleftrightarrow> a = b \<or> status_rank a < status_rank b"

lemma later_refl [simp]: "later a a"
  by (simp add: later_def)

lemma later_trans: "later a b \<Longrightarrow> later b c \<Longrightarrow> later a c"
  by (auto simp: later_def)

lemma later_final: "later a b \<Longrightarrow> a = SUCCESS \<or> a = FAILED \<Longrightarrow> b = a"
  by (cases b) (auto simp: later_def status_rank_def)

text \<open>A write of an attempt: a first row, or a row that replaces one with a token not larger.\<close>

definition put_attempt :: "attempt \<Rightarrow> db \<Rightarrow> db \<Rightarrow> bool" where
  "put_attempt x db db' \<longleftrightarrow> insert_attempt x db = Inr db' \<or>
     (update_attempt x db = Inr db' \<and>
       (\<exists>y. find_attempt (at_settlement x) db = Some y \<and> at_token y \<le> at_token x))"

inductive abstract_step :: "(nat \<Rightarrow> provider_lookup option) \<Rightarrow> db \<Rightarrow> db \<Rightarrow> bool"
  for auth :: "nat \<Rightarrow> provider_lookup option" where
  abs_submit: "insert_settlement s db = Inr mid \<Longrightarrow> st_status s = S_RESERVED \<Longrightarrow>
     read_hops (st_route s) = Inr hops \<Longrightarrow> reserve ids s mid = Inr db' \<Longrightarrow> abstract_step auth db db'"
| abs_attempt: "s \<in> set (db_settlements db) \<Longrightarrow> outstanding (st_status s) \<Longrightarrow> outstanding status \<Longrightarrow>
     status \<noteq> S_RESERVED \<Longrightarrow> later (st_status s) status \<Longrightarrow> at_settlement x = st_id s \<Longrightarrow>
     at_operation x = st_id s \<Longrightarrow> at_state x \<noteq> COMPLETED \<Longrightarrow>
     put_attempt x (update_status (st_id s) status db) db' \<Longrightarrow> abstract_step auth db db'"
| abs_paid: "s \<in> set (db_settlements db) \<Longrightarrow> outstanding (st_status s) \<Longrightarrow>
     auth (st_id s) = Some LOOKUP_PAID \<Longrightarrow> consume ids s db = Inr mid \<Longrightarrow>
     at_settlement x = st_id s \<Longrightarrow> at_operation x = st_id s \<Longrightarrow> at_state x = COMPLETED \<Longrightarrow>
     put_attempt x (update_status (st_id s) SUCCESS mid) db' \<Longrightarrow> abstract_step auth db db'"
| abs_unpaid: "s \<in> set (db_settlements db) \<Longrightarrow> outstanding (st_status s) \<Longrightarrow>
     auth (st_id s) = Some LOOKUP_UNPAID \<Longrightarrow> release ids s db = Inr mid \<Longrightarrow>
     at_settlement x = st_id s \<Longrightarrow> at_operation x = st_id s \<Longrightarrow> at_state x = COMPLETED \<Longrightarrow>
     put_attempt x (update_status (st_id s) FAILED mid) db' \<Longrightarrow> abstract_step auth db db'"
| abs_commit: "commit db = Inr db' \<Longrightarrow> abstract_step auth db db'"

section \<open>The steps keep the invariant\<close>

lemma put_attempt_rows:
  assumes "put_attempt x db db'" and "schema_ok db"
  obtains xs where "db' = db\<lparr>db_attempts := xs\<rparr>" and "schema_ok db'"
    and "find_attempt (at_settlement x) db' = Some x"
    and "\<And>j. j \<noteq> at_settlement x \<Longrightarrow> find_attempt j db' = find_attempt j db"
    and "\<And>y. find_attempt (at_settlement x) db = Some y \<Longrightarrow> at_token y \<le> at_token x"
proof -
  consider (ins) "insert_attempt x db = Inr db'"
    | (upd) y where "update_attempt x db = Inr db'" "find_attempt (at_settlement x) db = Some y" "at_token y \<le> at_token x"
    using assms(1) by (auto simp: put_attempt_def)
  then show ?thesis
  proof cases
    case ins
    then have new: "find_attempt (at_settlement x) db = None" "db' = db\<lparr>db_attempts := db_attempts db @ [x]\<rparr>"
      by (simp_all add: insert_attempt_Inr)
    moreover have "schema_ok db'" using schema_insert_attempt [OF assms(2) ins] .
    moreover have "find_attempt j db' = (if j = at_settlement x then Some x else find_attempt j db)" for j
      using new by (auto simp: find_attempt_def find_append split: option.split)
    ultimately show ?thesis using that [of "db_attempts db @ [x]"] by simp
  next
    case upd
    let ?xs = "upd_rows (\<lambda>y. at_settlement y = at_settlement x) (\<lambda>_. x) (db_attempts db)"
    have "db' = db\<lparr>db_attempts := ?xs\<rparr>" using upd(1) by (simp add: update_attempt_Inr)
    moreover have "schema_ok db'" using schema_update_attempt [OF assms(2) upd(1)] .
    ultimately show ?thesis using that [of ?xs] upd find_attempt_upd [of _ x db] by simp
  qed
qed

lemma service_commit: "service_ok auth db \<Longrightarrow> commit db = Inr db' \<Longrightarrow> service_ok auth db'"
  using ledger_commit [of db db']
  by (auto simp: service_ok_def commit_Inr service_defs chart_of_accounts_def)

lemma service_schema: "service_ok auth db \<Longrightarrow> schema_ok db"
  by (simp add: service_ok_def ledger_ok_def)

lemma movement_schema:
  assumes "schema_ok db" and "consume ids s db = Inr mid \<or> release ids s db = Inr mid"
  shows "schema_ok mid \<and> db_attempts mid = db_attempts db \<and> db_settlements mid = db_settlements db"
proof -
  have ok: "accounts_ok db" using assms(1) by (simp add: schema_ok_def)
  obtain event dk ck where post: "dk \<noteq> ck" "post ids s event dk ck db = Inr mid"
    using assms(2) movement_cases by metis
  from movement_entry [OF ok post] show ?thesis
    using schema_post_entry assms(1) by (metis entry_frame(1,2))
qed

lemma finished_rows:
  assumes sch: "schema_ok db" and mv: "consume ids s db = Inr mid \<or> release ids s db = Inr mid"
    and put: "put_attempt x (update_status (st_id s) status mid) db'"
  obtains xs where "db' = (update_status (st_id s) status mid)\<lparr>db_attempts := xs\<rparr>" and "schema_ok db'"
    and "find_attempt (at_settlement x) db' = Some x"
    and "\<And>j. j \<noteq> at_settlement x \<Longrightarrow> find_attempt j db' = find_attempt j db"
    and "\<And>y. find_attempt (at_settlement x) db = Some y \<Longrightarrow> at_token y \<le> at_token x"
proof -
  have mid: "schema_ok mid" "db_attempts mid = db_attempts db" using movement_schema [OF sch mv] by simp_all
  then have "find_attempt j (update_status (st_id s) status mid) = find_attempt j db" for j
    by (simp add: find_attempt_def update_status_def)
  with put_attempt_rows [OF put schema_update_status [OF mid(1)]] that show ?thesis by metis
qed

lemma abstract_step_ok:
  assumes "abstract_step auth db db'" and ok: "service_ok auth db"
  shows "service_ok auth db'"
  using assms(1)
proof cases
  case (abs_submit s mid hops ids)
  have "st_id s \<notin> st_id ` set (db_settlements db)"
    using abs_submit(1) by (simp add: insert_settlement_Inr find_settlement_def table_simps)
  then have "find_attempt (st_id s) db = None"
    using service_schema [OF ok] by (auto simp: find_attempt_def table_simps schema_defs)
  from submit_step [OF ok abs_submit(1-3) this abs_submit(4)] show ?thesis .
next
  case (abs_attempt s status x)
  have sch: "schema_ok (update_status (st_id s) status db)"
    by (rule schema_update_status [OF service_schema [OF ok]])
  from put_attempt_rows [OF abs_attempt(9) sch] obtain xs where
    "db' = (update_status (st_id s) status db)\<lparr>db_attempts := xs\<rparr>" "schema_ok db'"
    "find_attempt (at_settlement x) db' = Some x"
    "\<And>j. j \<noteq> at_settlement x \<Longrightarrow> find_attempt j db' = find_attempt j db"
    by (metis find_attempt_status)
  then show ?thesis
    using rows_step [OF ok abs_attempt(1), where status = status and xs = xs and x = x] abs_attempt by simp
next
  case (abs_paid s ids mid x)
  from finished_rows [OF service_schema [OF ok] disjI1 [OF abs_paid(4)] abs_paid(8)] show ?thesis
    using finish_step [OF ok abs_paid(1,2), where event = CONSUME and ck = "(''system'', OMNIBUS)" and status = SUCCESS and x = x] abs_paid
    by (metis consume_def)
next
  case (abs_unpaid s ids mid x)
  from finished_rows [OF service_schema [OF ok] disjI2 [OF abs_unpaid(4)] abs_unpaid(8)] show ?thesis
    using finish_step [OF ok abs_unpaid(1,2), where event = RELEASE and ck = "(st_owner s, AVAILABLE)" and status = FAILED and x = x] abs_unpaid
    by (metis release_def)
next
  case abs_commit
  with ok show ?thesis by (rule service_commit)
qed

section \<open>The steps only let the tables evolve\<close>

text \<open>
  No settlement disappears or changes but in its status, which moves forward; no token of an
  attempt decreases; journals and postings are only appended.
\<close>

definition settlements_evolve :: "db \<Rightarrow> db \<Rightarrow> bool" where
  "settlements_evolve db db' \<longleftrightarrow> (\<forall>i s. find_settlement i db = Some s \<longrightarrow>
     (\<exists>status. find_settlement i db' = Some (s\<lparr>st_status := status\<rparr>) \<and> later (st_status s) status))"

definition attempts_evolve :: "db \<Rightarrow> db \<Rightarrow> bool" where
  "attempts_evolve db db' \<longleftrightarrow> (\<forall>i x. find_attempt i db = Some x \<longrightarrow>
     (\<exists>x'. find_attempt i db' = Some x' \<and> at_token x \<le> at_token x'))"

definition books_evolve :: "db \<Rightarrow> db \<Rightarrow> bool" where
  "books_evolve db db' \<longleftrightarrow> (\<exists>js. db_journals db' = db_journals db @ js) \<and>
     (\<exists>ps. db_postings db' = db_postings db @ ps)"

definition evolves :: "db \<Rightarrow> db \<Rightarrow> bool" where
  "evolves db db' \<longleftrightarrow> settlements_evolve db db' \<and> attempts_evolve db db' \<and> books_evolve db db'"

lemma settlements_kept:
  assumes "\<And>i s. find_settlement i db = Some s \<Longrightarrow> find_settlement i db' = Some s"
  shows "settlements_evolve db db'"
  unfolding settlements_evolve_def
proof (intro allI impI)
  fix i s assume "find_settlement i db = Some s"
  with assms show "\<exists>status. find_settlement i db' = Some (s\<lparr>st_status := status\<rparr>) \<and> later (st_status s) status"
    by (intro exI [of _ "st_status s"]) simp
qed

lemma attempts_kept:
  "(\<And>i. find_attempt i db' = find_attempt i db) \<Longrightarrow> attempts_evolve db db'"
  by (simp add: attempts_evolve_def)

lemma evolves_refl [simp]: "evolves db db"
  by (simp add: evolves_def settlements_kept attempts_kept books_evolve_def)

lemma settlements_evolve_trans:
  assumes a: "settlements_evolve db db'" and b: "settlements_evolve db' db''"
  shows "settlements_evolve db db''"
  unfolding settlements_evolve_def
proof (intro allI impI)
  fix i s assume "find_settlement i db = Some s"
  then obtain status where 1: "find_settlement i db' = Some (s\<lparr>st_status := status\<rparr>)" "later (st_status s) status"
    using a by (auto simp: settlements_evolve_def)
  then obtain status' where "find_settlement i db'' = Some (s\<lparr>st_status := status'\<rparr>)" "later status status'"
    using b by (fastforce simp: settlements_evolve_def)
  with 1(2) show "\<exists>status. find_settlement i db'' = Some (s\<lparr>st_status := status\<rparr>) \<and> later (st_status s) status"
    by (blast intro: later_trans)
qed

lemma attempts_evolve_trans: "attempts_evolve db db' \<Longrightarrow> attempts_evolve db' db'' \<Longrightarrow> attempts_evolve db db''"
  unfolding attempts_evolve_def by (meson order_trans)

lemma books_evolve_trans: "books_evolve db db' \<Longrightarrow> books_evolve db' db'' \<Longrightarrow> books_evolve db db''"
  by (auto simp: books_evolve_def)

lemma evolves_trans: "evolves db db' \<Longrightarrow> evolves db' db'' \<Longrightarrow> evolves db db''"
  unfolding evolves_def
  using settlements_evolve_trans attempts_evolve_trans books_evolve_trans by blast

lemma status_evolves:
  assumes "schema_ok db" and "s \<in> set (db_settlements db)" and "later (st_status s) status"
    and rows: "db_settlements db' = db_settlements (update_status (st_id s) status db)"
  shows "settlements_evolve db db'"
  unfolding settlements_evolve_def
proof (intro allI impI)
  fix i r assume r: "find_settlement i db = Some r"
  have f: "find_settlement i db' = map_option (\<lambda>r. if st_id r = st_id s then r\<lparr>st_status := status\<rparr> else r)
      (find_settlement i db)"
    using find_settlement_status [of i "st_id s" status db] by (simp add: find_settlement_def rows)
  show "\<exists>status. find_settlement i db' = Some (r\<lparr>st_status := status\<rparr>) \<and> later (st_status r) status"
  proof (cases "st_id r = st_id s")
    case True
    with assms(1,2) r have "r = s" using find_settlement_Some [OF assms(1)] by (metis option.inject)
    with r assms(3) show ?thesis by (auto simp: f)
  next
    case False
    with r show ?thesis by (auto simp: f intro: exI [of _ "st_status r"])
  qed
qed

lemma tokens_evolve:
  assumes "find_attempt i db' = Some x"
    and "\<And>j. j \<noteq> i \<Longrightarrow> find_attempt j db' = find_attempt j db"
    and "\<And>y. find_attempt i db = Some y \<Longrightarrow> at_token y \<le> at_token x"
  shows "attempts_evolve db db'"
  unfolding attempts_evolve_def using assms by (metis order_refl)

lemma entry_books: "books_evolve db (entry_db ids settlement event debit credit amount db)"
  by (simp add: books_evolve_def entry_db_def)

lemma movement_books:
  assumes "accounts_ok db" and "debit_key \<noteq> credit_key" and "post ids s event debit_key credit_key db = Inr db'"
  shows "books_evolve db db' \<and> db_settlements db' = db_settlements db \<and> db_attempts db' = db_attempts db"
  using movement_entry [OF assms] by (metis (mono_tags, lifting) entry_frame(1,2) entry_books)

lemma finished_evolves:
  assumes sch: "schema_ok db" and s: "s \<in> set (db_settlements db)" and out: "outstanding (st_status s)"
    and fin: "status = SUCCESS \<or> status = FAILED"
    and mv: "consume ids s db = Inr mid \<or> release ids s db = Inr mid"
    and books: "books_evolve db mid" "db_settlements mid = db_settlements db"
    and put: "put_attempt x (update_status (st_id s) status mid) db'"
  shows "evolves db db'"
proof -
  from finished_rows [OF sch mv put] obtain xs where
    db': "db' = (update_status (st_id s) status mid)\<lparr>db_attempts := xs\<rparr>"
    and "find_attempt (at_settlement x) db' = Some x"
      "\<And>j. j \<noteq> at_settlement x \<Longrightarrow> find_attempt j db' = find_attempt j db"
      "\<And>y. find_attempt (at_settlement x) db = Some y \<Longrightarrow> at_token y \<le> at_token x"
    by metis
  then have "attempts_evolve db db'" by (intro tokens_evolve)
  moreover have "later (st_status s) status"
    using fin out by (cases "st_status s") (auto simp: later_def status_rank_def outstanding_def)
  then have "settlements_evolve db db'"
    by (rule status_evolves [OF sch s]) (simp add: db' update_status_def books(2))
  ultimately show ?thesis using books(1) by (simp add: evolves_def books_evolve_def db' update_status_def)
qed

lemma abstract_step_evolves:
  assumes "abstract_step auth db db'" and ok: "service_ok auth db"
  shows "evolves db db'"
proof -
  have sch: "schema_ok db" and acc: "accounts_ok db"
    using service_schema [OF ok] by (simp_all add: schema_ok_def)
  from assms(1) show ?thesis
  proof cases
    case (abs_submit s mid hops ids)
    have mid: "mid = db\<lparr>db_settlements := db_settlements db @ [s]\<rparr>" "schema_ok mid"
      using abs_submit(1) schema_insert_settlement [OF sch abs_submit(1)] by (simp_all add: insert_settlement_Inr)
    then have "books_evolve mid db' \<and> db_settlements db' = db_settlements mid \<and> db_attempts db' = db_attempts mid"
      using abs_submit(4) unfolding reserve_def schema_ok_def by (intro movement_books) auto
    moreover from this have "settlements_evolve db db'"
      by (intro settlements_kept) (simp add: mid(1) find_settlement_def find_append)
    ultimately show ?thesis
      by (simp add: mid(1) evolves_def attempts_kept books_evolve_def find_attempt_def)
  next
    case (abs_attempt s status x)
    from put_attempt_rows [OF abs_attempt(9) schema_update_status [OF sch]] obtain xs where
      db': "db' = (update_status (st_id s) status db)\<lparr>db_attempts := xs\<rparr>"
      and "find_attempt (at_settlement x) db' = Some x"
        "\<And>j. j \<noteq> at_settlement x \<Longrightarrow> find_attempt j db' = find_attempt j db"
        "\<And>y. find_attempt (at_settlement x) db = Some y \<Longrightarrow> at_token y \<le> at_token x"
      by (metis find_attempt_status)
    then have "attempts_evolve db db'" by (intro tokens_evolve)
    moreover have "settlements_evolve db db'"
      using status_evolves [OF sch abs_attempt(1,5)] by (simp add: db')
    ultimately show ?thesis by (simp add: evolves_def books_evolve_def db' update_status_def)
  next
    case (abs_paid s ids mid x)
    have "books_evolve db mid \<and> db_settlements mid = db_settlements db"
      using movement_books [OF acc _ abs_paid(4) [unfolded consume_def]] by simp
    then show ?thesis
      using finished_evolves [OF sch abs_paid(1,2), of SUCCESS] abs_paid by blast
  next
    case (abs_unpaid s ids mid x)
    have "books_evolve db mid \<and> db_settlements mid = db_settlements db"
      using movement_books [OF acc _ abs_unpaid(4) [unfolded release_def]] by simp
    then show ?thesis
      using finished_evolves [OF sch abs_unpaid(1,2), of FAILED] abs_unpaid by blast
  next
    case abs_commit
    then have db': "db' = db\<lparr>db_inserted := []\<rparr>" by (simp add: commit_Inr)
    then have "settlements_evolve db db'" by (intro settlements_kept) (simp add: find_settlement_def)
    then show ?thesis by (simp add: db' evolves_def attempts_kept books_evolve_def)
  qed
qed

lemma abstract_steps:
  assumes "(abstract_step auth)\<^sup>*\<^sup>* db db'" and "service_ok auth db"
  shows "service_ok auth db' \<and> evolves db db'"
  using assms(1)
proof (induction rule: rtranclp_induct)
  case (step db' db'')
  then show ?case
    using abstract_step_ok abstract_step_evolves evolves_trans by blast
qed (simp add: assms(2))

section \<open>Every transaction is a sequence of steps\<close>

abbreviation abstract_run :: "(nat \<Rightarrow> provider_lookup option) \<Rightarrow> db \<Rightarrow> db \<Rightarrow> bool" where
  "abstract_run auth \<equiv> (abstract_step auth)\<^sup>*\<^sup>*"

lemma transact_run:
  assumes "transact body db = (r, db')" and "\<And>a mid. body db = Inr (a, mid) \<Longrightarrow> abstract_run auth db mid"
  shows "abstract_run auth db db'"
  using assms
  by (auto simp: transact_def split: sum.splits prod.splits intro: rtranclp.rtrancl_into_rtrancl abs_commit)

text \<open>The quotes a submission may store: their rates are finite, as those of the rate book are.\<close>

definition quote_readable :: "route_quote \<Rightarrow> bool" where
  "quote_readable q \<longleftrightarrow> list_all (\<lambda>hop. is_finite (h_rate hop)) (q_hops q)"

lemma submit_run:
  assumes "quote_readable q" and "submit ids i owner key fingerprint command q db = Inr (u, db')"
  shows "abstract_run auth db db'"
proof -
  obtain s mid where s: "new_settlement i owner key fingerprint command q = Inr s"
    and "insert_settlement s db = Inr mid" "reserve ids s mid = Inr db'"
    using assms(2) by (auto simp: submit_def bind_result_eq_Inr)
  moreover have "st_status s = S_RESERVED" "st_route s = map hop_json (q_hops q)"
    using s by (auto simp: new_settlement_def bind_result_eq_Inr)
  moreover have "read_hops (map hop_json (q_hops q)) = Inr (q_hops q)"
    using assms(1) by (simp add: quote_readable_def list_all_iff read_stored_hops)
  ultimately have "abstract_step auth db db'" by (metis abs_submit)
  then show ?thesis by blast
qed

lemma service_settlement:
  assumes "service_ok auth db" and "find_settlement i db = Some s"
  shows "s \<in> set (db_settlements db)" and "st_id s = i" and "st_operation s = i"
    and "update_status i (st_status s) db = db"
    and "st_status s = S_RESERVED \<longleftrightarrow> find_attempt i db = None"
    and "find_attempt i db = Some x \<Longrightarrow> (at_state x = COMPLETED \<longleftrightarrow> \<not> outstanding (st_status s)) \<and>
           at_operation x = i \<and> at_settlement x = i"
proof -
  have sch: "schema_ok db" using service_schema [OF assms(1)] .
  show s: "s \<in> set (db_settlements db)" "st_id s = i"
    using assms(2) find_settlement_Some [OF sch] by simp_all
  then show "st_operation s = i" "update_status i (st_status s) db = db"
    using sch update_status_same [OF sch s(1)] by (auto simp: schema_defs)
  have "attempts_match db" using assms(1) by (simp add: service_ok_def)
  with s show "st_status s = S_RESERVED \<longleftrightarrow> find_attempt i db = None"
    and "find_attempt i db = Some x \<Longrightarrow> (at_state x = COMPLETED \<longleftrightarrow> \<not> outstanding (st_status s)) \<and>
           at_operation x = i \<and> at_settlement x = i"
    using find_attempt_Some [OF sch, of i x] by (auto simp: attempts_match_def)
qed

lemma claim_reserved_run:
  assumes ok: "service_ok auth db" and claim: "claim_reserved deadline i db = Inr (c, db')"
  shows "abstract_run auth db db'"
proof -
  obtain s where s: "find_settlement i db = Some s"
    using claim by (auto simp: claim_reserved_def split: option.splits)
  note row = service_settlement [OF ok s]
  show ?thesis
  proof (cases "st_status s = S_RESERVED")
    case False
    with claim s show ?thesis by (simp add: claim_reserved_def)
  next
    case True
    let ?x = "\<lparr>at_settlement = i, at_operation = i, at_state = SUBMITTING, at_token = 1,
      at_lease = deadline, at_outcome = None, at_reference = None\<rparr>"
    have "insert_attempt ?x (update_status i PAYOUT_IN_PROGRESS db) = Inr db'"
      using claim s True row by (auto simp: claim_reserved_def bind_result_eq_Inr)
    then have "abstract_step auth db db'"
      using row True by (intro abs_attempt [of s db PAYOUT_IN_PROGRESS ?x])
        (simp_all add: put_attempt_def outstanding_def later_def status_rank_def)
    then show ?thesis by blast
  qed
qed

text \<open>An attempt that is taken over: a new row with a larger token.\<close>

lemma update_attempt_run:
  assumes ok: "service_ok auth db" and s: "find_settlement i db = Some s"
    and x: "find_attempt i db = Some x" and x': "at_settlement x' = i" "at_operation x' = i" "at_state x' \<noteq> COMPLETED"
    "at_token x \<le> at_token x'"
    and st: "outstanding (st_status s)" "outstanding status" "status \<noteq> S_RESERVED" "later (st_status s) status"
    and upd: "update_attempt x' (update_status i status db) = Inr db'"
  shows "abstract_step auth db db'"
  using service_settlement [OF ok s] assms
  by (intro abs_attempt [of s db status x']) (auto simp: put_attempt_def)

lemma reconcilable_outstanding: "reconcilable status \<Longrightarrow> outstanding status \<and> status \<noteq> S_RESERVED"
  by (auto simp: reconcilable_def outstanding_def)

lemma claim_for_reconciliation_run:
  assumes ok: "service_ok auth db"
    and claim: "claim_for_reconciliation respect now deadline i db = Inr (c, db')"
  shows "abstract_run auth db db'"
proof -
  obtain s where s: "find_settlement i db = Some s"
    using claim by (auto simp: claim_for_reconciliation_def split: option.splits)
  note row = service_settlement [OF ok s]
  show ?thesis
  proof (cases "reconcilable (st_status s)")
    case False
    with claim s show ?thesis by (simp add: claim_for_reconciliation_def)
  next
    case True
    note out = reconcilable_outstanding [OF True]
    then obtain x where x: "find_attempt i db = Some x" using row(5) by auto
    let ?x = "x\<lparr>at_token := at_token x + 1, at_state := CLAIMED, at_lease := deadline\<rparr>"
    have "db' = db \<or> update_attempt ?x db = Inr db'"
      using claim s True x by (auto simp: claim_for_reconciliation_def bind_result_eq_Inr split: if_splits)
    moreover have "abstract_step auth db db'" if "update_attempt ?x db = Inr db'"
      using that row(4) row(6) [OF x] out
      by (intro update_attempt_run [OF ok s x, where x' = ?x and status = "st_status s"]) simp_all
    ultimately show ?thesis by blast
  qed
qed

text \<open>The rows of a batch are current, waiting, and of different settlements.\<close>

lemma distinct_parts:
  "distinct (map f xs) \<Longrightarrow> distinct (map f ys) \<Longrightarrow> f ` set xs \<subseteq> {a} \<Longrightarrow> f ` set ys \<subseteq> B \<Longrightarrow> a \<notin> B \<Longrightarrow>
     distinct (map f (xs @ ys))"
  by auto

lemma sorted_parts: "distinct (map f xs) \<Longrightarrow> distinct (map f (sort_key k xs))"
  using mset_eq_imp_distinct_iff [of "map f (sort_key k xs)" "map f xs"] by simp

lemma joined_distinct:
  assumes "distinct (map st_id ss)" and "distinct (map at_settlement xs)"
  shows "distinct (map (st_id \<circ> fst) [(s, x). s \<leftarrow> ss, x \<leftarrow> xs, due now s x, \<not> locked (st_id s)])"
  using assms(1)
proof (induction ss)
  case (Cons s ss)
  let ?row = "\<lambda>s. [(s, x). x \<leftarrow> xs, due now s x, \<not> locked (st_id s)]"
  have "map (st_id \<circ> fst) (?row s) = map (\<lambda>_. st_id s) (filter (\<lambda>x. due now s x \<and> \<not> locked (st_id s)) xs)" for s
    by (induction xs) simp_all
  moreover have "length (filter (\<lambda>x. due now s x \<and> \<not> locked (st_id s)) xs) \<le> 1"
    using assms(2)
  proof (induction xs)
    case (Cons x xs)
    have "filter (\<lambda>y. due now s y \<and> \<not> locked (st_id s)) xs = []" if "due now s x"
      using that Cons.prems by (auto simp: filter_empty_conv due_def rev_image_eqI)
    with Cons show ?case by auto
  qed simp
  ultimately have "distinct (map (st_id \<circ> fst) (?row s))"
    by (cases "filter (\<lambda>x. due now s x \<and> \<not> locked (st_id s)) xs") simp_all
  moreover have "(st_id \<circ> fst) ` set (concat (map ?row ss)) \<subseteq> st_id ` set ss"
    by (auto split: if_splits)
  moreover have "(st_id \<circ> fst) ` set (?row s) \<subseteq> {st_id s}" by auto
  moreover have "st_id s \<notin> st_id ` set ss" "distinct (map (st_id \<circ> fst) (concat (map ?row ss)))"
    using Cons by (simp_all add: comp_def)
  ultimately have "distinct (map (st_id \<circ> fst) (?row s @ concat (map ?row ss)))"
    by (intro distinct_parts) assumption+
  then show ?case by (simp only: list.map concat.simps)
qed simp

definition batch_row :: "db \<Rightarrow> settlement \<times> attempt \<Rightarrow> bool" where
  "batch_row db = (\<lambda>(s, x). find_settlement (st_id s) db = Some s \<and> find_attempt (st_id s) db = Some x \<and>
     reconcilable (st_status s))"

lemma due_rows_current:
  assumes "schema_ok db"
  shows "list_all (batch_row db) (due_rows locked now limit db)"
    and "distinct (map (st_id \<circ> fst) (due_rows locked now limit db))"
proof -
  let ?joined = "[(s, x). s \<leftarrow> db_settlements db, x \<leftarrow> db_attempts db, due now s x, \<not> locked (st_id s)]"
  have "set (due_rows locked now limit db) \<subseteq> set ?joined"
    unfolding due_rows_def by (rule subset_trans [OF set_take_subset]) simp
  moreover have "batch_row db row" if joined: "row \<in> set ?joined" for row
  proof -
    obtain s x where "row = (s, x)" "s \<in> set (db_settlements db)" "x \<in> set (db_attempts db)" "due now s x"
      using joined by (auto split: if_splits)
    then show ?thesis
      by (simp add: batch_row_def due_def find_settlement_Some [OF assms] find_attempt_Some [OF assms])
  qed
  ultimately show "list_all (batch_row db) (due_rows locked now limit db)"
    unfolding list_all_iff by blast
  have "distinct (map (st_id \<circ> fst) ?joined)"
    using assms by (intro joined_distinct) (simp_all add: schema_defs)
  then have "distinct (map (st_id \<circ> fst) (sort_key (\<lambda>(s, x). (at_lease x, st_id s)) ?joined))"
    by (rule sorted_parts)
  then show "distinct (map (st_id \<circ> fst) (due_rows locked now limit db))"
    unfolding due_rows_def take_map [symmetric] by (rule distinct_take)
qed

lemma claim_rows_run:
  assumes "claim_rows deadline rows db = Inr (claims, db')" and "service_ok auth db"
    and "list_all (batch_row db) rows" and "distinct (map (st_id \<circ> fst) rows)"
  shows "abstract_run auth db db'"
  using assms
proof (induction rows arbitrary: db claims)
  case (Cons row rows)
  obtain s x where row: "row = (s, x)" by (cases row)
  let ?x = "x\<lparr>at_token := at_token x + 1, at_state := CLAIMED, at_lease := deadline (st_id s)\<rparr>"
  obtain db1 claims' where upd: "update_attempt ?x db = Inr db1"
    and rest: "claim_rows deadline rows db1 = Inr (claims', db')"
    using Cons.prems(1) by (auto simp: row bind_result_eq_Inr)
  have s: "find_settlement (st_id s) db = Some s" "find_attempt (st_id s) db = Some x" "reconcilable (st_status s)"
    using Cons.prems(3) by (simp_all add: row batch_row_def)
  note facts = service_settlement [OF Cons.prems(2) s(1)]
  have step: "abstract_step auth db db1"
    using reconcilable_outstanding [OF s(3)] facts(4) facts(6) [OF s(2)] upd
    by (intro update_attempt_run [OF Cons.prems(2) s(1,2), where x' = ?x and status = "st_status s"]) simp_all
  have db1: "find_settlement i db1 = find_settlement i db"
    "i \<noteq> st_id s \<Longrightarrow> find_attempt i db1 = find_attempt i db" for i
    using upd find_attempt_upd [of i ?x db] facts(6) [OF s(2)]
    by (simp_all add: update_attempt_Inr find_settlement_def)
  have "st_id t \<noteq> st_id s" if "(t, y) \<in> set rows" for t y
    using Cons.prems(4) that by (force simp: row)
  then have "list_all (batch_row db1) rows"
    using Cons.prems(3) db1 by (fastforce simp: list_all_iff batch_row_def row)
  then have "abstract_run auth db1 db'"
    using Cons.IH [OF rest abstract_step_ok [OF step Cons.prems(2)]] Cons.prems(4) by simp
  with step show ?case by (rule converse_rtranclp_into_rtranclp)
qed simp

lemma claim_due_batch_run:
  assumes "service_ok auth db" and "claim_due_batch locked now deadline limit db = Inr (claims, db')"
  shows "abstract_run auth db db'"
  using claim_rows_run [OF assms(2) [unfolded claim_due_batch_def] assms(1)]
    due_rows_current [OF service_schema [OF assms(1)]] by blast

text \<open>A definite result must be the provider's authority.\<close>

definition confirmed :: "(nat \<Rightarrow> provider_lookup option) \<Rightarrow> nat \<Rightarrow> provider_result option \<Rightarrow> bool" where
  "confirmed auth i result \<longleftrightarrow> (result = Some PAID \<longrightarrow> auth i = Some LOOKUP_PAID) \<and>
     (result = Some UNPAID \<longrightarrow> auth i = Some LOOKUP_UNPAID)"

lemma settle_Inr:
  "settle s status x db = Inr (read, db') \<longleftrightarrow> from_orm_settlement (s\<lparr>st_status := status\<rparr>) = Inr read \<and>
     update_attempt x (update_status (st_id s) status db) = Inr db'"
  by (auto simp: settle_def bind_result_eq_Inr)

lemma finalize_run:
  assumes ok: "service_ok auth db" and conf: "confirmed auth i result"
    and fin: "finalize_attempt now ids i token result db = Inr (read, db')"
  shows "abstract_run auth db db'"
proof -
  obtain s where s: "find_settlement i db = Some s"
    using fin by (auto simp: finalize_attempt_def split: option.splits)
  obtain x where x: "find_attempt i db = Some x"
    using fin s by (auto simp: finalize_attempt_def split: option.splits)
  note row = service_settlement [OF ok s] service_settlement(6) [OF ok s x]
  show ?thesis
  proof (cases "outstanding (st_status s)")
    case False
    with fin s x show ?thesis
      by (auto simp: finalize_attempt_def outstanding_def bind_result_eq_Inr split: if_splits)
  next
    case out: True
    then have nf: "\<not> (st_status s = SUCCESS \<or> st_status s = FAILED)" by (simp add: outstanding_def)
    have tok: "at_token x = token" using fin s x by (auto simp: finalize_attempt_def split: if_splits)
    have moved: "put_attempt y (update_status (st_id s) status mid) db'"
      if "update_attempt y (update_status (st_id s) status mid) = Inr db'"
        "at_settlement y = i" "at_token y = at_token x" "db_attempts mid = db_attempts db" for y status mid
      using that x by (auto simp: put_attempt_def update_status_def find_attempt_def)
    have same: "db_attempts mid = db_attempts db" if "consume ids s db = Inr mid \<or> release ids s db = Inr mid" for mid
      using movement_schema [OF service_schema [OF ok] that] by simp
    consider (paid) "result = Some PAID" | (unpaid) "result = Some UNPAID"
      | (unknown) "result \<noteq> Some PAID" "result \<noteq> Some UNPAID" by blast
    then have "abstract_step auth db db'"
    proof cases
      case paid
      let ?x = "x\<lparr>at_state := COMPLETED, at_outcome := Some OutcomePaid\<rparr>"
      obtain mid where mid: "consume ids s db = Inr mid" "settle s SUCCESS ?x mid = Inr (read, db')"
        using fin s x nf tok paid by (auto simp: finalize_attempt_def bind_result_eq_Inr)
      then have "put_attempt ?x (update_status (st_id s) SUCCESS mid) db'"
        using moved [of ?x SUCCESS mid] same row by (simp add: settle_Inr)
      then show ?thesis
        using row out conf mid paid by (intro abs_paid [of s db auth ids mid ?x]) (simp_all add: confirmed_def)
    next
      case unpaid
      let ?x = "x\<lparr>at_state := COMPLETED, at_outcome := Some OutcomeUnpaid\<rparr>"
      obtain mid where mid: "release ids s db = Inr mid" "settle s FAILED ?x mid = Inr (read, db')"
        using fin s x nf tok unpaid by (auto simp: finalize_attempt_def bind_result_eq_Inr)
      then have "put_attempt ?x (update_status (st_id s) FAILED mid) db'"
        using moved [of ?x FAILED mid] same row by (simp add: settle_Inr)
      then show ?thesis
        using row out conf mid unpaid by (intro abs_unpaid [of s db auth ids mid ?x]) (simp_all add: confirmed_def)
    next
      case unknown
      let ?x = "x\<lparr>at_state := RECONCILING, at_outcome := Some (if result = Some AMBIGUOUS then OutcomeAmbiguous
        else OutcomeUnknown), at_lease := now\<rparr>"
      have "settle s PENDING_RECONCILIATION ?x db = Inr (read, db')"
        using fin s x nf tok unknown by (auto simp: finalize_attempt_def split: option.splits provider_result.splits)
      then have "update_attempt ?x (update_status i PENDING_RECONCILIATION db) = Inr db'"
        using row by (simp add: settle_Inr)
      then show ?thesis
        using row out x
        by (intro update_attempt_run [OF ok s x, where x' = ?x and status = PENDING_RECONCILIATION])
          (auto simp: outstanding_def later_def status_rank_def split: settlement_status.splits)
    qed
    then show ?thesis by blast
  qed
qed

end
