(* ===== verification/Settlement_World.thy ===== *)
theory Settlement_World
  imports Settlement_System Handlers Provider_Contract
begin

text \<open>
  The service together with its payout provider: a world is the database and the provider's
  state, and a world step is one transaction of any task or one payout request.  For every
  provider that meets the contract \<open>payout_provider\<close> the steps keep \<open>service_ok\<close> with the
  provider's own authority, and every handler is a sequence of steps.
\<close>

section \<open>Steps\<close>

inductive db_step :: "(nat \<Rightarrow> provider_lookup option) \<Rightarrow> db \<Rightarrow> db \<Rightarrow> bool"
  for auth :: "nat \<Rightarrow> provider_lookup option" where
  db_submit: "quote_readable q \<Longrightarrow>
     transact (submit ids i owner key fingerprint command q) db = (r, db') \<Longrightarrow> db_step auth db db'"
| db_claim: "transact (claim_reserved deadline i) db = (r, db') \<Longrightarrow> db_step auth db db'"
| db_reclaim: "transact (claim_for_reconciliation respect now deadline i) db = (r, db') \<Longrightarrow> db_step auth db db'"
| db_batch: "transact (claim_due_batch locked now deadlines limit) db = (r, db') \<Longrightarrow> db_step auth db db'"
| db_finalize: "confirmed auth i result \<Longrightarrow>
     transact (finalize_attempt now ids i token result) db = (r, db') \<Longrightarrow> db_step auth db db'"
| db_seed: "seed_main seed_ids owner amount db = (r, db') \<Longrightarrow> db_step auth db db'"

text \<open>A provider call of any client: the request of \<open>initiate\<close>, which may change the provider.\<close>

inductive world_step ::
  "(nat \<Rightarrow> int \<Rightarrow> currency \<Rightarrow> int \<Rightarrow> 'p \<Rightarrow> (app_error + provider_result) \<times> 'p) \<Rightarrow>
     ('p \<Rightarrow> nat \<Rightarrow> provider_lookup option) \<Rightarrow> 'p world \<Rightarrow> 'p world \<Rightarrow> bool"
  for initiate :: "nat \<Rightarrow> int \<Rightarrow> currency \<Rightarrow> int \<Rightarrow> 'p \<Rightarrow> (app_error + provider_result) \<times> 'p"
    and authority :: "'p \<Rightarrow> nat \<Rightarrow> provider_lookup option" where
  world_db: "db_step (authority p) db db' \<Longrightarrow> world_step initiate authority (db, p) (db', p)"
| world_initiate: "initiate i amount target quoted p = (r, p') \<Longrightarrow>
     world_step initiate authority (db, p) (db, p')"

inductive_cases world_stepE: "world_step initiate authority w w'"

definition world_ok :: "('p \<Rightarrow> nat \<Rightarrow> provider_lookup option) \<Rightarrow> ('p \<Rightarrow> bool) \<Rightarrow> 'p world \<Rightarrow> bool" where
  "world_ok authority valid w \<longleftrightarrow> valid (snd w) \<and> service_ok (authority (snd w)) (fst w)"

text \<open>A world starts with the accounts of the seed and no settlements.\<close>

inductive seeded_db :: "db \<Rightarrow> bool" where
  "seed_main ids owner amount empty_db = (Inr (), db) \<Longrightarrow> seeded_db db"

definition starts :: "('p \<Rightarrow> bool) \<Rightarrow> 'p world \<Rightarrow> bool" where
  "starts valid w \<longleftrightarrow> valid (snd w) \<and> seeded_db (fst w)"

section \<open>Seeding\<close>

lemma insert_accounts_rows:
  "insert_accounts as db = Inr db' \<Longrightarrow> db' = db\<lparr>db_accounts := db_accounts db @ as\<rparr>"
proof (induction as arbitrary: db)
  case (Cons a as)
  then obtain mid where "insert_account a db = Inr mid" "insert_accounts as mid = Inr db'"
    by (auto simp: bind_result_eq_Inr)
  then show ?case using Cons.IH [of mid] by (simp add: insert_account_Inr)
qed simp

text \<open>A seed that has run before changes nothing.\<close>

lemma seed_again:
  assumes ok: "service_ok auth db" and seed: "seed_demo_accounts ids owner amount db = Inr (u, db')"
  shows "db' = db"
proof -
  have "create_seed ids owner amount db = Inr db'' \<Longrightarrow> False" for db''
  proof -
    assume "create_seed ids owner amount db = Inr db''"
    then have new: "(''system'', USD, OMNIBUS) \<notin> account_key ` set (db_accounts db)"
      by (auto simp: create_seed_def Let_def bind_result_eq_Inr insert_account_Inr new_account_def account_key_def)
    obtain a where "usd_account db (''system'', OMNIBUS) = Some a"
      using ok by (auto simp: service_ok_def chart_of_accounts_def)
    then have "a \<in> set (db_accounts db)" "account_key a = (''system'', USD, OMNIBUS)"
      by (auto simp: usd_account_def purpose_key_def account_key_def dest: find_Some_set)
    with new show False by (metis imageI)
  qed
  with seed show ?thesis by (auto simp: seed_demo_accounts_def Let_def bind_result_eq_Inr split: if_splits)
qed

lemma opening_ok:
  assumes "create_seed ids owner amount empty_db = Inr db"
  shows "service_ok auth db"
proof -
  let ?rows = "[new_account (si_omnibus_usd ids) ''system'' USD ASSET OMNIBUS,
    new_account (si_omnibus_usdc ids) ''system'' USDC ASSET OMNIBUS,
    new_account (si_available ids) owner USD LIABILITY AVAILABLE,
    new_account (si_reserved ids) owner USD LIABILITY RESERVED]"
  let ?omnibus = "?rows ! 0" and ?available = "?rows ! 2"
  let ?db1 = "empty_db\<lparr>db_accounts := ?rows\<rparr>"
  have ins: "insert_accounts ?rows empty_db = Inr ?db1"
    and post: "post_entry (si_post ids) None OPENING ?omnibus ?available amount ?db1 = Inr db"
    using assms insert_accounts_rows [of ?rows empty_db]
    by (auto simp: create_seed_def Let_def bind_result_eq_Inr empty_db_def simp del: insert_accounts.simps)
  have led: "ledger_ok ?db1" using ledger_insert_accounts [OF ins empty_ledger] by (simp add: new_account_def)
  then have acc: "accounts_ok ?db1" by (simp add: ledger_ok_def schema_ok_def)
  have ne: "a_id ?omnibus \<noteq> a_id ?available"
    using acc by (auto simp: accounts_ok_def new_account_def)
  have db: "db = entry_db (si_post ids) None OPENING ?omnibus ?available amount ?db1"
    using post ne by (simp add: post_entry_Inr)
  have 1: "ledger_ok db" by (rule ledger_post_entry [OF led _ _ ne post]) simp_all
  have "chart_of_accounts ?db1"
    by (simp add: chart_of_accounts_def net_position_def net_value_def new_account_def usd_account_def purpose_key_def)
  then have 2: "chart_of_accounts db"
    unfolding db by (intro chart_entry [OF acc _ _ _ ne]) (simp_all add: new_account_def)
  have none: "db_settlements db = []" by (simp add: db empty_db_def)
  have ids: "si_reserved ids \<noteq> si_available ids" "si_reserved ids \<noteq> si_omnibus_usd ids"
    using acc by (auto simp: accounts_ok_def new_account_def)
  have "a_balance a = 0" if "usd_account db (o', RESERVED) = Some a" for o' a
    using that ids unfolding db usd_account_entry [OF ne]
    by (auto simp: usd_account_def purpose_key_def new_account_def split: if_splits)
  then have "reserved_balances db" by (simp add: reserved_balances_def none outstanding_total_def)
  with 1 2 none show ?thesis by (simp add: service_ok_def service_defs)
qed

lemma seeded_ok: "seeded_db db \<Longrightarrow> service_ok auth db"
proof (induction rule: seeded_db.induct)
  case (1 ids owner amount db)
  then obtain mid where "seed_demo_accounts ids owner amount empty_db = Inr ((), mid)" "commit mid = Inr db"
    by (auto simp: seed_main_def transact_Inr)
  then have "create_seed ids owner amount empty_db = Inr mid"
    by (auto simp: seed_demo_accounts_def Let_def bind_result_eq_Inr load_seed_accounts_def empty_db_def
        split: if_splits)
  then show ?case using opening_ok service_commit \<open>commit mid = Inr db\<close> by blast
qed

section \<open>Steps refine the abstract machine\<close>

lemma db_step_run:
  assumes "db_step auth db db'" and ok: "service_ok auth db"
  shows "abstract_run auth db db'"
  using assms(1)
proof cases
  case db_submit
  then show ?thesis by (auto intro: transact_run submit_run)
next
  case db_claim
  then show ?thesis by (auto intro: transact_run claim_reserved_run [OF ok])
next
  case db_reclaim
  then show ?thesis by (auto intro: transact_run claim_for_reconciliation_run [OF ok])
next
  case db_batch
  then show ?thesis by (auto intro: transact_run claim_due_batch_run [OF ok])
next
  case db_finalize
  then show ?thesis by (auto intro: transact_run finalize_run [OF ok])
next
  case db_seed
  then show ?thesis unfolding seed_main_def
    by (auto elim!: transact_run dest: seed_again [OF ok])
qed

lemma db_step_ok:
  assumes "db_step auth db db'" and "service_ok auth db"
  shows "service_ok auth db' \<and> evolves db db'"
  using abstract_steps [OF db_step_run [OF assms] assms(2)] .

lemma service_authority:
  assumes "service_ok auth db" and "\<And>j x. auth j = Some x \<Longrightarrow> auth' j = Some x"
  shows "service_ok auth' db"
  using assms by (auto simp: service_ok_def authorities_match_def)

section \<open>The contract gives the invariant\<close>

sublocale payout_provider \<subseteq> system: invariant_system
  "starts valid" "world_step initiate authority" "world_ok authority valid"
proof
  show "world_ok authority valid w" if "starts valid w" for w
    using that seeded_ok by (simp add: starts_def world_ok_def)
  show "world_ok authority valid w'" if "world_ok authority valid w" "world_step initiate authority w w'" for w w'
    using that(2,1)
  proof cases
    case world_db
    with that(1) db_step_ok show ?thesis by (auto simp: world_ok_def)
  next
    case (world_initiate i amount target quoted p r p' db)
    with that(1) initiate_valid initiate_stable show ?thesis
      by (auto simp: world_ok_def intro: service_authority)
  qed
qed

end
