(* ===== verification/Handler_Runs.thy ===== *)
theory Handler_Runs
  imports Settlement_World
begin

text \<open>
  Every handler of the service is a run of the world: a sequence of transactions of this and of
  the other tasks and of payout requests.  What holds along all runs therefore holds before,
  during and after every handler, whatever else happens at its awaits.
\<close>

section \<open>What the environment may do\<close>

text \<open>The provider of the service is the given one, and other tasks only do world steps.\<close>

definition serves ::
  "(nat \<Rightarrow> int \<Rightarrow> currency \<Rightarrow> int \<Rightarrow> 'p \<Rightarrow> (app_error + provider_result) \<times> 'p) \<Rightarrow>
     (nat \<Rightarrow> 'p \<Rightarrow> app_error + provider_lookup) \<Rightarrow> ('p \<Rightarrow> nat \<Rightarrow> provider_lookup option) \<Rightarrow> 'p service \<Rightarrow> bool" where
  "serves initiate lookup authority sv \<longleftrightarrow> sv_initiate sv = initiate \<and> sv_lookup sv = lookup \<and>
     (\<forall>k w. (world_step initiate authority)\<^sup>*\<^sup>* w (sv_others sv k w))"

lemma claim_reserved_id:
  assumes "claim_reserved deadline i db = Inr (Some claim, db')"
  shows "sr_id (cl_settlement claim) = i \<and> (\<exists>s. find_settlement i db = Some s)"
  using assms find_Some_set [of "\<lambda>s. st_id s = i" "db_settlements db"]
  by (auto simp: claim_reserved_def from_orm_settlement_def bind_result_eq_Inr find_settlement_def
      split: option.splits if_splits)

lemma in_session_eq:
  "in_session body w = (r, w') \<longleftrightarrow> (\<exists>db'. transact body (fst w) = (r, db') \<and> w' = (db', snd w))"
  by (auto simp: in_session_def split: prod.splits)

text \<open>The quotes of a book that publishes generated rates can be stored and read back.\<close>

definition readable_book :: "rate_book \<Rightarrow> bool" where
  "readable_book rates \<longleftrightarrow> (\<forall>c q. quote rates c = Inr q \<longrightarrow> quote_readable q)"

lemma quoted_readable: "readable_book rates \<Longrightarrow> quote rates c = Inr q \<Longrightarrow> quote_readable q"
  by (simp add: readable_book_def)

lemma book_readable:
  assumes "book_ok rates"
  shows "readable_book rates"
  unfolding readable_book_def
proof (intro allI impI)
  fix c q assume q: "quote rates c = Inr q"
  obtain snapshot where s: "rb_snapshot rates = Some snapshot" "map_of (s_routes snapshot) c = Some q"
    using q by (auto simp: quote_def split: option.splits)
  then have "compute_routes (generate_edges (s_version snapshot)) (s_version snapshot) USD = Inr (s_routes snapshot)"
    using assms by (simp add: book_ok_def snapshot_ok_def)
  then have "set (q_hops q) \<subseteq> hops_of (generate_edges (s_version snapshot))"
    unfolding compute_routes_def isolated_decimal_def using routing_context.quote_sound s(2) by blast
  moreover have "is_finite (h_rate hop)" if "hop \<in> hops_of (generate_edges (s_version snapshot))" for hop
    using that generated_edge_pos by (fastforce simp: hops_of_def edge_hop_def elim: dec_pos.elims)
  ultimately show "quote_readable q" by (auto simp: quote_readable_def list_all_iff)
qed

section \<open>Runs of a provider that meets the contract\<close>

context payout_provider
begin

abbreviation run where "run \<equiv> (world_step initiate authority)\<^sup>*\<^sup>*"
abbreviation ok where "ok \<equiv> world_ok authority valid"

lemma run_ok: "run w w' \<Longrightarrow> ok w \<Longrightarrow> ok w'"
  by (rule system.inv_rtranclp)

lemma reachable_invariant: "reachable (starts valid) (world_step initiate authority) w \<Longrightarrow> ok w"
  by (rule system.inv_reachable)

lemma step_evolves:
  assumes "world_step initiate authority w w'" and "ok w"
  shows "evolves (fst w) (fst w') \<and> (\<forall>j x. authority (snd w) j = Some x \<longrightarrow> authority (snd w') j = Some x)"
  using assms by cases (auto simp: world_ok_def dest: db_step_ok initiate_stable)

lemma run_evolves:
  assumes "run w w'" and "ok w"
  shows "evolves (fst w) (fst w') \<and> (\<forall>j x. authority (snd w) j = Some x \<longrightarrow> authority (snd w') j = Some x)"
  using assms
proof (induction rule: rtranclp_induct)
  case (step w' w'')
  then show ?case using step_evolves run_ok evolves_trans by blast
qed simp

lemma confirmed_later:
  "confirmed (authority (snd w)) i result \<Longrightarrow> run w w' \<Longrightarrow> ok w \<Longrightarrow> confirmed (authority (snd w')) i result"
  using run_evolves by (auto simp: confirmed_def)

lemma session_run:
  assumes "in_session body w = (r, w')"
    and "\<And>db'. transact body (fst w) = (r, db') \<Longrightarrow> db_step (authority (snd w)) (fst w) db'"
  shows "run w w'"
  using assms world_db [of authority "snd w" "fst w" _ initiate] by (auto simp: in_session_eq)

lemma await_run: "serves initiate lookup authority sv \<Longrightarrow> run w (await sv k w)"
  by (cases w) (simp add: serves_def)

lemma claim_run: "in_session (claim_reserved deadline i) w = (r, w') \<Longrightarrow> run w w'"
  by (rule session_run) (auto intro: db_claim)

lemma reclaim_run: "in_session (claim_for_reconciliation respect now deadline i) w = (r, w') \<Longrightarrow> run w w'"
  by (rule session_run) (auto intro: db_reclaim)

lemma batch_run: "in_session (claim_due_batch locked now deadlines limit) w = (r, w') \<Longrightarrow> run w w'"
  by (rule session_run) (auto intro: db_batch)

lemma submit_session_run:
  "quote_readable q \<Longrightarrow> in_session (submit ids i owner key fingerprint command q) w = (r, w') \<Longrightarrow> run w w'"
  by (rule session_run) (auto intro: db_submit)

lemma finalize_session_run:
  "confirmed (authority (snd w)) i result \<Longrightarrow>
     in_session (finalize_attempt now ids i token result) w = (r, w') \<Longrightarrow> run w w'"
  by (rule session_run) (auto intro: db_finalize)

lemma call_run:
  assumes "serves initiate lookup authority sv" and "ok w" and "call_initiate sv claim w = (result, w')"
  shows "run w w' \<and> confirmed (authority (snd w')) (sr_id (cl_settlement claim)) result"
proof -
  obtain db p where w: "w = (db, p)" by (cases w)
  let ?s = "cl_settlement claim"
  obtain r p' where call: "initiate (sr_id ?s) (sr_amount ?s) (sr_target ?s) (sr_quoted ?s) p = (r, p')"
    by (metis surj_pair)
  then have w': "w' = (db, p')" "result = (case r of Inl e \<Rightarrow> None | Inr x \<Rightarrow> Some x)"
    using assms(1,3) by (auto simp: call_initiate_def serves_def Let_def w split: sum.splits)
  have "valid p" using assms(2) by (simp add: world_ok_def w)
  then have "confirmed (authority p') (sr_id ?s) result"
    using initiate_paid initiate_unpaid call unfolding w'(2) confirmed_def by (cases r) auto
  with call w' show ?thesis by (auto simp: w intro: world_initiate)
qed

section \<open>The handlers\<close>

lemma pay_reserved_run:
  assumes sv: "serves initiate lookup authority sv" and "ok w" and "pay_reserved sv i w = (r, w')"
  shows "run w w'"
proof -
  obtain c w1 where c: "in_session (claim_reserved (lease_deadline sv 0) i) w = (c, w1)" by (metis surj_pair)
  then have 1: "run w w1" "ok w1" using claim_run run_ok assms(2) by blast+
  note await = await_run [OF sv]
  show ?thesis
  proof (cases c)
    case (Inl e)
    with c 1 assms(3) show ?thesis by (simp add: pay_reserved_def)
  next
    case (Inr claim)
    show ?thesis
    proof (cases claim)
      case None
      with c Inr assms(3) have "w' = await sv 2 w1" by (simp add: pay_reserved_def get_in_def)
      with 1 await show ?thesis by (metis rtranclp_trans)
    next
      case (Some cl)
      have id: "sr_id (cl_settlement cl) = i"
        using c claim_reserved_id by (auto simp: Inr Some in_session_eq transact_Inr)
      obtain result w2 where call: "call_initiate sv cl (await sv 2 w1) = (result, w2)" by (metis surj_pair)
      have 2: "run w1 w2" "ok w2" "confirmed (authority (snd w2)) i result"
        using call_run [OF sv _ call] run_ok [OF await 1(2)] await run_ok id by (metis rtranclp_trans)+
      obtain f w3 where fin: "in_session (finalize_attempt (sv_clock sv 1) (sv_uuid sv 1) i (cl_token cl) result)
          (await sv 3 w2) = (f, w3)" by (metis surj_pair)
      have 3: "run w2 w3"
        using finalize_session_run [OF confirmed_later [OF 2(3) await 2(2)] fin] await by (metis rtranclp_trans)
      have "w' = w3 \<or> w' = await sv 4 w3"
        using assms(3) fin by (auto simp: pay_reserved_def c Inr Some call get_in_def split: sum.splits if_splits)
      with 1(1) 2(1) 3 await show ?thesis by (metis rtranclp_trans)
    qed
  qed
qed

lemma resume_run:
  assumes "serves initiate lookup authority sv" and "ok w" and "resume sv s fingerprint w = (r, w')"
  shows "run w w'"
  using assms pay_reserved_run by (auto simp: resume_def split: sum.splits if_splits)

lemma create_run:
  assumes sv: "serves initiate lookup authority sv" and ok: "ok w" and book: "readable_book rates"
    and create: "create sv rates owner key command w = (r, w')"
  shows "run w w'"
proof -
  note await = await_run [OF sv]
  let ?w0 = "await sv 0 w" and ?fp = "request_fingerprint owner command"
  have ok0: "ok ?w0" using run_ok [OF await ok] .
  show ?thesis
  proof (cases "find_by_key owner key (fst w)")
    case (Some existing)
    then have "resume sv existing ?fp ?w0 = (r, w')" using create by (simp add: create_def)
    with resume_run [OF sv ok0] await show ?thesis by (metis rtranclp_trans)
  next
    case None
    show ?thesis
    proof (cases "quote rates (sc_target command)")
      case (Inl e)
      with None create have "w' = ?w0" by (simp add: create_def)
      with await show ?thesis by simp
    next
      case (Inr q)
      obtain u w1 where sub: "in_session (submit (sv_uuid sv 0) (sv_new_id sv) owner key ?fp command q) ?w0 = (u, w1)"
        by (metis surj_pair)
      have 1: "run w w1" "ok w1"
        using submit_session_run [OF quoted_readable [OF book Inr] sub] await run_ok [OF _ ok]
        by (metis rtranclp_trans)+
      have ok1: "run w (await sv 1 w1)" "ok (await sv 1 w1)"
        using 1 await run_ok by (metis rtranclp_trans)+
      consider "w' = w1" | "w' = await sv 1 w1" | "pay_reserved sv (sv_new_id sv) (await sv 1 w1) = (r, w')"
        | winner where "resume sv winner ?fp (await sv 1 w1) = (r, w')"
        using create None Inr sub by (auto simp: create_def split: sum.splits if_splits option.splits)
      then show ?thesis
        using 1 ok1 pay_reserved_run [OF sv ok1(2)] resume_run [OF sv ok1(2)] by cases (blast intro: rtranclp_trans)+
    qed
  qed
qed

lemma look_up_run:
  assumes sv: "serves initiate lookup authority sv" and ok: "ok w" and look: "look_up sv claim w = (r, w')"
  shows "run w w' \<and> (\<forall>result. r = Inr result \<longrightarrow> confirmed (authority (snd w')) (sr_id (cl_settlement claim)) result)"
proof -
  let ?i = "sr_id (cl_settlement claim)"
  have eq: "sv_lookup sv = lookup" and v: "valid (snd w)"
    using sv ok by (simp_all add: serves_def world_ok_def)
  consider (found) "lookup ?i (snd w) = Inr NOT_FOUND" | (paid) "lookup ?i (snd w) = Inr LOOKUP_PAID" "(r, w') = (Inr (Some PAID), w)"
    | (unpaid) "lookup ?i (snd w) = Inr LOOKUP_UNPAID" "(r, w') = (Inr (Some UNPAID), w)"
    | (none) "(r, w') = (Inr None, w) \<or> (\<exists>e. (r, w') = (Inl e, w))"
    using look by (auto simp: look_up_def eq split: sum.splits provider_lookup.splits)
  then show ?thesis
  proof cases
    case found
    obtain result w1 where call: "call_initiate sv claim (await sv 6 w) = (result, w1)" by (metis surj_pair)
    with found look have "r = Inr result" "w' = w1" by (auto simp: look_up_def eq)
    moreover have "run w w1 \<and> confirmed (authority (snd w1)) ?i result"
      using call_run [OF sv run_ok [OF await_run [OF sv] ok] call] await_run [OF sv] by (metis rtranclp_trans)
    ultimately show ?thesis by simp
  qed (use v lookup_paid lookup_unpaid in \<open>auto simp: confirmed_def\<close>)
qed

lemma unconfirmed: "confirmed auth i None"
  by (simp add: confirmed_def)

lemma give_back_run:
  assumes sv: "serves initiate lookup authority sv" and ok: "ok w"
    and give: "give_back sv claim propagate e w = (r, w')"
  shows "run w w'"
proof -
  note await = await_run [OF sv]
  obtain f w1 where fin: "in_session (finalize_attempt (sv_clock sv 3) (sv_uuid sv 3) (sr_id (cl_settlement claim))
      (cl_token claim) None) (await sv 8 w) = (f, w1)" by (metis surj_pair)
  have "run w w1" using finalize_session_run [OF unconfirmed fin] await by (metis rtranclp_trans)
  moreover have "w' = w1 \<or> w' = await sv 9 w1"
    using give fin by (auto simp: give_back_def get_in_def split: sum.splits if_splits)
  ultimately show ?thesis using await by (metis rtranclp_trans)
qed

lemma reconcile_claim_run:
  assumes sv: "serves initiate lookup authority sv" and ok: "ok w"
    and rec: "reconcile_claim sv claim propagate w = (r, w')"
  shows "run w w'"
proof -
  note await = await_run [OF sv]
  let ?i = "sr_id (cl_settlement claim)"
  obtain l w1 where look: "look_up sv claim (await sv 5 w) = (l, w1)" by (metis surj_pair)
  have 1: "run w w1" "ok w1" "\<And>result. l = Inr result \<Longrightarrow> confirmed (authority (snd w1)) ?i result"
    using look_up_run [OF sv run_ok [OF await ok] look] await run_ok [OF _ ok] by (metis rtranclp_trans)+
  show ?thesis
  proof (cases l)
    case (Inl e)
    with rec look have "give_back sv claim propagate e w1 = (r, w')" by (simp add: reconcile_claim_def)
    with give_back_run [OF sv 1(2)] 1(1) show ?thesis by (metis rtranclp_trans)
  next
    case (Inr result)
    obtain f w2 where fin: "in_session (finalize_attempt (sv_clock sv 2) (sv_uuid sv 2) ?i (cl_token claim) result)
        (await sv 7 w1) = (f, w2)" by (metis surj_pair)
    have 2: "run w w2"
      using finalize_session_run [OF confirmed_later [OF 1(3) [OF Inr] await 1(2)] fin] 1(1) await
      by (metis rtranclp_trans)
    have "w' = w2 \<or> w' = await sv 8 w2 \<or> (\<exists>e. give_back sv claim propagate e w2 = (r, w'))"
      using rec look fin Inr by (auto simp: reconcile_claim_def get_in_def split: sum.splits if_splits)
    with 2 await give_back_run [OF sv run_ok [OF 2 ok]] show ?thesis by (metis rtranclp_trans)
  qed
qed

lemma reconcile_run:
  assumes sv: "serves initiate lookup authority sv" and ok: "ok w" and rec: "reconcile sv i w = (r, w')"
  shows "run w w'"
proof -
  note await = await_run [OF sv]
  obtain c w1 where c: "in_session (claim_for_reconciliation False (sv_clock sv 4) (lease_deadline sv 5) i)
      (await sv 10 w) = (c, w1)" by (metis surj_pair)
  have 1: "run w w1" "ok w1" using reclaim_run [OF c] await run_ok [OF _ ok] by (metis rtranclp_trans)+
  have "w' = w \<or> w' = w1 \<or> w' = await sv 11 w1 \<or> (\<exists>claim. reconcile_claim sv claim True w1 = (r, w'))"
    using rec c by (auto simp: reconcile_def get_in_def split: sum.splits if_splits option.splits)
  with 1 await reconcile_claim_run [OF sv 1(2)] show ?thesis by (metis rtranclp_trans rtranclp.rtrancl_refl)
qed

lemma reconcile_claims_run:
  assumes sv: "\<And>k. serves initiate lookup authority (per_task k)" and "ok w"
    and "reconcile_claims per_task claims w = (r, w')"
  shows "run w w'"
  using assms(2,3)
proof (induction claims arbitrary: w r)
  case (Cons claim claims)
  obtain r1 w1 where 1: "reconcile_claim (per_task (length claims)) claim False w = (r1, w1)" by (metis surj_pair)
  obtain r2 w2 where 2: "reconcile_claims per_task claims w1 = (r2, w2)" by (metis surj_pair)
  have "w2 = w'" using Cons.prems(2) by (simp add: 1 2 split: sum.splits)
  note IH = Cons.IH [OF _ 2 [unfolded this]]
  have "run w w1" using reconcile_claim_run [OF sv Cons.prems(1) 1] .
  with IH run_ok Cons.prems(1) show ?case by (metis rtranclp_trans)
qed simp

lemma run_reconciliation_once_run:
  assumes sv: "\<And>k. serves initiate lookup authority (per_task k)" and ok: "ok w"
    and "run_reconciliation_once per_task sv locked limit w = (r, w')"
  shows "run w w'"
proof -
  obtain c w1 where c: "in_session (claim_due_batch locked (sv_clock sv 0) (\<lambda>i. lease_deadline sv (Suc i)) limit) w
      = (c, w1)" by (metis surj_pair)
  have 1: "run w w1" "ok w1" using batch_run [OF c] run_ok ok by blast+
  show ?thesis
  proof (cases c)
    case (Inl e)
    with assms(3) c 1 show ?thesis by (simp add: run_reconciliation_once_def)
  next
    case (Inr claims)
    obtain e w2 where 2: "reconcile_claims per_task claims w1 = (e, w2)" by (metis surj_pair)
    then have "w' = w2" using assms(3) c Inr by (simp add: run_reconciliation_once_def split: option.splits)
    with 1 reconcile_claims_run [OF sv 1(2) 2] show ?thesis by simp
  qed
qed

lemma reconciliation_loop_run:
  assumes "\<And>k w r w'. ok w \<Longrightarrow> pass k w = (r, w') \<Longrightarrow> run w w'" and "ok w"
  shows "run w (reconciliation_loop pass n w)"
  using assms(2)
proof (induction n arbitrary: w)
  case (Suc n)
  obtain r w1 where "pass n w = (r, w1)" by (metis surj_pair)
  moreover from this have "run w w1" using assms(1) Suc.prems by blast
  ultimately show ?case using Suc.IH [of w1] run_ok [OF _ Suc.prems] by (simp add: rtranclp_trans)
qed simp

end

end
