(* ===== verification/Settlement_Progress.thy ===== *)
theory Settlement_Progress
  imports Handler_Runs
begin

text \<open>
  When the transactions of the service succeed: with the invariant of the service a finalization
  under the current token always does, because the reservation covers the settlement, the omnibus
  account covers all customers, and the event has not been recorded yet.
\<close>

section \<open>Sums of balances\<close>

lemma sum_member_le:
  fixes f :: "'a \<Rightarrow> int"
  assumes "\<And>x. x \<in> set xs \<Longrightarrow> 0 \<le> f x" and "a \<in> set xs"
  shows "f a \<le> sum_list (map f xs)"
  using assms
proof (induction xs)
  case (Cons x xs)
  have "0 \<le> sum_list (map f xs)" using Cons.prems(1) by (intro sum_list_nonneg) auto
  with Cons show ?case by fastforce
qed simp

lemma sum_pair_le:
  fixes f :: "'a \<Rightarrow> int"
  assumes "\<And>x. x \<in> set xs \<Longrightarrow> 0 \<le> f x" and "a \<in> set xs" and "b \<in> set xs" and "a \<noteq> b"
  shows "f a + f b \<le> sum_list (map f xs)"
  using assms
proof (induction xs)
  case (Cons x xs)
  consider "a = x" "b \<in> set xs" | "b = x" "a \<in> set xs" | "a \<in> set xs" "b \<in> set xs"
    using Cons.prems by auto
  then show ?case
  proof cases
    case 1
    with sum_member_le [of xs f b] Cons.prems(1) show ?thesis by simp
  next
    case 2
    with sum_member_le [of xs f a] Cons.prems(1) show ?thesis by simp
  next
    case 3
    with Cons.IH Cons.prems(1,4) have "f a + f b \<le> sum_list (map f xs)" by simp
    moreover have "0 \<le> f x" using Cons.prems(1) by simp
    ultimately show ?thesis by simp
  qed
qed simp

lemma sum_single:
  fixes c :: int
  assumes "distinct xs" and "a \<in> set xs"
  shows "sum_list (map (\<lambda>x. if x = a then c else 0) xs) = c"
  using assms
proof (induction xs)
  case (Cons x xs)
  have "sum_list (map (\<lambda>x. if x = a then c else 0) xs) = 0" if "a \<notin> set xs"
    using that by (induction xs) auto
  with Cons show ?case by auto
qed simp

definition customer_balance :: "account \<Rightarrow> int" where
  "customer_balance a = (if a_currency a = USD \<and> a_class a = LIABILITY then a_balance a else 0)"

text \<open>The omnibus account holds what all customers own.\<close>

lemma omnibus_covers:
  assumes ok: "accounts_ok db" and chart: "chart_of_accounts db"
    and o: "usd_account db (''system'', OMNIBUS) = Some om"
  shows "a_class om = ASSET" and "a_balance om = sum_list (map customer_balance (db_accounts db))"
proof -
  have row: "om \<in> set (db_accounts db)" "a_currency om = USD" "purpose_key om = (''system'', OMNIBUS)"
    using o by (simp_all add: usd_account_Some [OF ok])
  then show cl: "a_class om = ASSET" using chart by (auto simp: chart_of_accounts_def purpose_key_def)
  have net: "net_value USD a = (if a = om then a_balance om else 0) - customer_balance a"
    if "a \<in> set (db_accounts db)" for a
  proof (cases "a_currency a = USD \<and> a_class a = ASSET")
    case True
    with that chart have "purpose_key a = (''system'', OMNIBUS)"
      by (auto simp: chart_of_accounts_def purpose_key_def)
    with True that have "usd_account db (''system'', OMNIBUS) = Some a" by (simp add: usd_account_Some [OF ok])
    with o True show ?thesis by (simp add: net_value_def customer_balance_def)
  next
    case False
    then have "a \<noteq> om" using row cl by auto
    with False show ?thesis by (cases "a_class a") (simp_all add: net_value_def customer_balance_def)
  qed
  have "distinct (db_accounts db)" using ok by (simp add: accounts_ok_def distinct_map)
  then have "sum_list (map (\<lambda>a. if a = om then a_balance om else 0) (db_accounts db)) = a_balance om"
    using row(1) by (rule sum_single)
  moreover have "sum_list (map (net_value USD) (db_accounts db)) =
      sum_list (map (\<lambda>a. (if a = om then a_balance om else 0) - customer_balance a) (db_accounts db))"
    using net by (intro arg_cong [of _ _ sum_list] map_cong) auto
  moreover have "net_position USD db = 0" using chart by (simp add: chart_of_accounts_def)
  ultimately show "a_balance om = sum_list (map customer_balance (db_accounts db))"
    by (simp add: net_position_def sum_list_subtractf)
qed

lemma customer_balance_nonneg: "accounts_ok db \<Longrightarrow> a \<in> set (db_accounts db) \<Longrightarrow> 0 \<le> customer_balance a"
  by (simp add: customer_balance_def accounts_ok_def)

text \<open>The reservation of an unfinished settlement is there.\<close>

lemma reservation_there:
  assumes ok: "service_ok auth db" and s: "s \<in> set (db_settlements db)" and "outstanding (st_status s)"
    and r: "usd_account db (st_owner s, RESERVED) = Some a"
  shows "st_amount s \<le> a_balance a"
proof -
  have pos: "0 \<le> outstanding_amount o' t" if "t \<in> set (db_settlements db)" for t o'
    using service_schema [OF ok] that by (fastforce simp: schema_defs outstanding_amount_def)
  have "outstanding_amount (st_owner s) s \<le> outstanding_total (st_owner s) (db_settlements db)"
    unfolding outstanding_total_def using pos s by (rule sum_member_le)
  moreover have "a_balance a = outstanding_total (st_owner s) (db_settlements db)"
    using ok r by (simp add: service_ok_def reserved_balances_def)
  ultimately show ?thesis using assms(3) by (simp add: outstanding_amount_def)
qed

section \<open>Movements that must succeed\<close>

text \<open>Fresh ids for the rows of a movement.\<close>

definition fresh_ids :: "post_ids \<Rightarrow> db \<Rightarrow> bool" where
  "fresh_ids ids db \<longleftrightarrow> pi_journal ids \<notin> j_id ` set (db_journals db) \<and>
     pi_debit ids \<notin> p_id ` set (db_postings db) \<and> pi_credit ids \<notin> p_id ` set (db_postings db) \<and>
     pi_debit ids \<noteq> pi_credit ids"

lemma fits_below: "numeric_fits n b \<Longrightarrow> 0 \<le> a \<Longrightarrow> a \<le> b \<Longrightarrow> numeric_fits n a"
  by (simp add: numeric_fits_def)

lemma new_event_fits:
  assumes ok: "service_ok auth db" and s: "s \<in> set (db_settlements db)" and "outstanding (st_status s)"
    and "fresh_ids ids db" and "event = CONSUME \<or> event = RELEASE"
  shows "entry_fits ids (Some (st_id s)) event db"
proof -
  have "settlement_events (st_id s) db = {RESERVE}"
    using ok s assms(3) by (cases "st_status s")
      (auto simp: service_ok_def events_match_def expected_events_def outstanding_def)
  moreover have "j_event j \<in> settlement_events (st_id s) db"
    if "j \<in> set (db_journals db)" "j_settlement j = Some (st_id s)" for j
    using that by (simp add: settlement_events_def)
  ultimately have "(Some (st_id s), event) \<notin> (\<lambda>j. (j_settlement j, j_event j)) ` set (db_journals db)"
    using assms(5) by fastforce
  with assms(4,5) s show ?thesis by (auto simp: entry_fits_def fresh_ids_def)
qed

lemma movement_succeeds:
  assumes ok: "service_ok auth db" and s: "s \<in> set (db_settlements db)" and out: "outstanding (st_status s)"
    and fresh: "fresh_ids ids db"
    and kind: "event = CONSUME \<and> ck = (''system'', OMNIBUS) \<or> event = RELEASE \<and> ck = (st_owner s, AVAILABLE)"
  obtains reserved credit where "usd_account db (st_owner s, RESERVED) = Some reserved"
    and "usd_account db ck = Some credit"
    and "post ids s event (st_owner s, RESERVED) ck db =
      Inr (entry_db ids (Some (st_id s)) event reserved credit (st_amount s) db)"
    and "posted_balance reserved DEBIT (st_amount s) = a_balance reserved - st_amount s"
    and "posted_balance credit CREDIT (st_amount s) =
      (if event = CONSUME then a_balance credit - st_amount s else a_balance credit + st_amount s)"
proof -
  have parts: "chart_of_accounts db" "schema_ok db" "accounts_ok db" "owners_have_accounts db"
    using ok by (simp_all add: service_ok_def ledger_ok_def schema_ok_def)
  obtain reserved where r: "usd_account db (st_owner s, RESERVED) = Some reserved"
    using parts(4) s by (auto simp: owners_have_accounts_def)
  obtain om where o: "usd_account db (''system'', OMNIBUS) = Some om"
    using parts(1) by (auto simp: chart_of_accounts_def)
  obtain credit where c: "usd_account db ck = Some credit"
    using kind o parts(4) s by (auto simp: owners_have_accounts_def)
  note total = omnibus_covers [OF parts(3,1) o]
  have rows: "reserved \<in> set (db_accounts db)" "credit \<in> set (db_accounts db)" "om \<in> set (db_accounts db)"
    "a_currency reserved = USD" "a_currency credit = USD"
    "purpose_key reserved = (st_owner s, RESERVED)" "purpose_key credit = ck"
    using r c o by (simp_all add: usd_account_Some [OF parts(3)])
  have bounds: "numeric_fits 24 (a_balance a) \<and> 0 \<le> a_balance a" if "a \<in> set (db_accounts db)" for a
    using parts(3) that by (simp add: accounts_ok_def)
  have amount: "0 < st_amount s" "st_amount s \<le> a_balance reserved"
    using parts(2) s reservation_there [OF ok s out r] by (auto simp: schema_defs)
  have rl: "a_class reserved = LIABILITY" by (rule customer_account [OF parts(3,1) r]) simp
  have le: "a_balance reserved \<le> a_balance om"
    using sum_member_le [of "db_accounts db" customer_balance reserved] customer_balance_nonneg [OF parts(3)] rows rl
    by (simp add: total(2) customer_balance_def)
  have ne: "(st_owner s, RESERVED) \<noteq> ck" using kind by auto
  have pb: "posted_balance reserved DEBIT (st_amount s) = a_balance reserved - st_amount s"
    by (simp add: posted_balance_def increases_def rl)
  have pc: "posted_balance credit CREDIT (st_amount s) =
      (if event = CONSUME then a_balance credit - st_amount s else a_balance credit + st_amount s) \<and>
    0 \<le> posted_balance credit CREDIT (st_amount s) \<and> numeric_fits 24 (posted_balance credit CREDIT (st_amount s))"
  proof (cases "event = CONSUME")
    case True
    with kind c o have "credit = om" by auto
    with True total(1) amount le bounds [OF rows(3)] show ?thesis
      by (auto simp: posted_balance_def increases_def intro: fits_below [of 24 "a_balance om"])
  next
    case False
    with kind have k: "event = RELEASE" "ck = (st_owner s, AVAILABLE)" by auto
    have cl: "a_class credit = LIABILITY"
      using customer_account [OF parts(3,1) c [unfolded k(2)]] by simp
    have "credit \<noteq> reserved" using rows k by (auto simp: purpose_key_def)
    then have "a_balance credit + a_balance reserved \<le> a_balance om"
      using sum_pair_le [of "db_accounts db" customer_balance credit reserved]
        customer_balance_nonneg [OF parts(3)] rows rl cl
      by (simp add: total(2) customer_balance_def)
    with False cl amount bounds [OF rows(3)] bounds [OF rows(2)] show ?thesis
      by (auto simp: posted_balance_def increases_def intro: fits_below [of 24 "a_balance om"])
  qed
  have "entry_fits ids (Some (st_id s)) event db"
    using new_event_fits [OF ok s out fresh] kind by blast
  moreover have "numeric_fits 24 (st_amount s)" "numeric_fits 24 (a_balance reserved - st_amount s)"
    using bounds [OF rows(1)] amount by (auto intro: fits_below [of 24 "a_balance reserved"])
  ultimately have "post ids s event (st_owner s, RESERVED) ck db =
      Inr (entry_db ids (Some (st_id s)) event reserved credit (st_amount s) db)"
    using r c amount pb pc [THEN conjunct2] by (simp add: post_Inr [OF parts(3) ne])
  with that r c pb pc show ?thesis by blast
qed

section \<open>Transactions that must commit\<close>

text \<open>Outside a transaction no deferred check is pending.\<close>

lemma transact_idle:
  assumes "transact body db = (r, db')" and "db_inserted db = []"
  shows "db_inserted db' = []"
  using assms by (auto simp: transact_def commit_Inr split: sum.splits prod.splits)

lemma db_step_idle: "db_step auth db db' \<Longrightarrow> db_inserted db = [] \<Longrightarrow> db_inserted db' = []"
  by (induction rule: db_step.induct) (auto intro: transact_idle simp: seed_main_def)

lemma seeded_idle: "seeded_db db \<Longrightarrow> db_inserted db = []"
  by (induction rule: seeded_db.induct) (auto simp: seed_main_def empty_db_def intro: transact_idle)

lemma reachable_idle:
  "reachable (starts valid) (world_step initiate authority) w \<Longrightarrow> db_inserted (fst w) = []"
proof (induction rule: reachable.induct)
  case (reach_step w w')
  from reach_step.hyps(2) reach_step.IH show ?case by cases (auto intro: db_step_idle)
qed (simp add: starts_def seeded_idle)

lemma commit_sound:
  assumes "ledger_ok db" and "set (db_inserted db) \<subseteq> j_id ` set (db_journals db)"
  shows "commit db = Inr (db\<lparr>db_inserted := []\<rparr>)"
proof -
  have "check_posted_journal i db = Inr ()" if "i \<in> set (db_inserted db)" for i
  proof -
    from that assms(2) obtain j where j: "j \<in> set (db_journals db)" "j_id j = i" by blast
    moreover have "find_journal i db = Some j"
      using assms(1) j by (auto simp: ledger_ok_def schema_defs find_journal_def intro: find_key_unique)
    ultimately show ?thesis using assms(1) by (auto simp: check_posted_journal_Inr ledger_ok_def entries_ok_def)
  qed
  then show ?thesis by (simp add: commit_Inr)
qed

lemma readable_settlement:
  assumes "service_ok auth db" and "s \<in> set (db_settlements db)"
  obtains read where "from_orm_settlement (s\<lparr>st_status := status\<rparr>) = Inr read" and "sr_status read = status"
    and "sr_id read = st_id s"
proof -
  obtain hops where "read_hops (st_route s) = Inr hops"
    using assms by (auto simp: service_ok_def routes_readable_def)
  with that show ?thesis by (simp add: from_orm_settlement_def)
qed

lemma same_attempt_update:
  assumes "schema_ok db" and x: "find_attempt i db = Some x"
    and x': "at_settlement x' = i" "at_operation x' = at_operation x" "at_token x' = at_token x"
      "at_reference x' = at_reference x"
  shows "update_attempt x' db = Inr (db\<lparr>db_attempts :=
    upd_rows (\<lambda>y. at_settlement y = i) (\<lambda>_. x') (db_attempts db)\<rparr>)"
proof -
  have row: "x \<in> set (db_attempts db)" "at_settlement x = i"
    using x find_attempt_Some [OF assms(1)] by simp_all
  have dist: "distinct (map at_operation (db_attempts db))" using assms(1) by (simp add: schema_defs)
  have "at_settlement y = i" if "y \<in> set (db_attempts db)" "at_operation y = at_operation x" for y
    using distinct_key_eq [OF dist that(1) row(1) that(2)] row(2) by simp
  moreover have "int8_fits (at_token x)" "0 < at_token x" "reference_fits x'"
    using assms(1) row x'(4) by (simp_all add: schema_defs reference_fits_def)
  ultimately show ?thesis using x' by (auto simp: update_attempt_Inr)
qed

text \<open>Status and attempt are always writable under the current token.\<close>

lemma settle_succeeds:
  assumes ok: "service_ok auth db" and s: "s \<in> set (db_settlements db)"
    and mid: "schema_ok mid" "db_attempts mid = db_attempts db"
    and x: "find_attempt (st_id s) db = Some x" and x': "at_settlement x' = st_id s"
      "at_operation x' = at_operation x" "at_token x' = at_token x" "at_reference x' = at_reference x"
  obtains read where "settle s status x' mid = Inr (read, (update_status (st_id s) status mid)\<lparr>db_attempts :=
      upd_rows (\<lambda>y. at_settlement y = st_id s) (\<lambda>_. x') (db_attempts db)\<rparr>)"
    and "sr_status read = status" and "sr_id read = st_id s"
proof -
  obtain read where "from_orm_settlement (s\<lparr>st_status := status\<rparr>) = Inr read" "sr_status read = status"
    "sr_id read = st_id s"
    by (rule readable_settlement [OF ok s])
  moreover have "find_attempt (st_id s) (update_status (st_id s) status mid) = Some x"
    using x mid(2) by (simp add: find_attempt_def update_status_def)
  from same_attempt_update [OF schema_update_status [OF mid(1)] this x']
  have "update_attempt x' (update_status (st_id s) status mid) = Inr ((update_status (st_id s) status mid)\<lparr>db_attempts :=
      upd_rows (\<lambda>y. at_settlement y = st_id s) (\<lambda>_. x') (db_attempts db)\<rparr>)"
    using mid(2) by (simp add: update_status_def)
  ultimately show ?thesis using that by (simp add: settle_Inr)
qed

lemma ledger_rows:
  assumes "ledger_ok mid" and "schema_ok db'"
    and "db_accounts db' = db_accounts mid" "db_journals db' = db_journals mid" "db_postings db' = db_postings mid"
  shows "ledger_ok db'"
  using assms by (simp add: ledger_ok_def books_ok_def entries_ok_def journal_postings_def)

lemma finalize_current:
  assumes "find_settlement i db = Some s" and "find_attempt i db = Some x" and "outstanding (st_status s)"
  shows "finalize_attempt now ids i (at_token x) (Some PAID) db = bind_result (consume ids s db)
      (settle s SUCCESS (x\<lparr>at_state := COMPLETED, at_outcome := Some OutcomePaid\<rparr>))"
    and "finalize_attempt now ids i (at_token x) (Some UNPAID) db = bind_result (release ids s db)
      (settle s FAILED (x\<lparr>at_state := COMPLETED, at_outcome := Some OutcomeUnpaid\<rparr>))"
  using assms by (auto simp: finalize_attempt_def outstanding_def)

text \<open>The movement of a definite result.\<close>

definition result_kind :: "settlement \<Rightarrow> provider_result \<Rightarrow> journal_event \<Rightarrow> purpose_key \<Rightarrow> settlement_status \<Rightarrow> bool" where
  "result_kind s result event ck status \<longleftrightarrow>
     result = PAID \<and> event = CONSUME \<and> ck = (''system'', OMNIBUS) \<and> status = SUCCESS \<or>
     result = UNPAID \<and> event = RELEASE \<and> ck = (st_owner s, AVAILABLE) \<and> status = FAILED"

lemma finalize_definite:
  assumes ok: "service_ok auth db" and idle: "db_inserted db = []"
    and s: "find_settlement i db = Some s" and x: "find_attempt i db = Some x" and out: "outstanding (st_status s)"
    and fresh: "fresh_ids ids db" and kind: "result_kind s result event ck status"
  obtains read db' reserved credit where
      "transact (finalize_attempt now ids i (at_token x) (Some result)) db = (Inr read, db')"
    and "sr_status read = status" and "sr_id read = i"
    and "find_settlement i db' = Some (s\<lparr>st_status := status\<rparr>)"
    and "usd_account db (st_owner s, RESERVED) = Some reserved" and "usd_account db ck = Some credit"
    and "\<forall>k. usd_account db' k =
      (if k = ck then Some (credit\<lparr>a_balance := (if event = CONSUME then a_balance credit - st_amount s
          else a_balance credit + st_amount s)\<rparr>)
       else if k = (st_owner s, RESERVED) then Some (reserved\<lparr>a_balance := a_balance reserved - st_amount s\<rparr>)
       else usd_account db k)"
proof -
  note row = service_settlement [OF ok s]
  have led: "ledger_ok db" and acc: "accounts_ok db" and sch: "schema_ok db"
    using ok by (simp_all add: service_ok_def ledger_ok_def schema_ok_def)
  have kind': "event = CONSUME \<and> ck = (''system'', OMNIBUS) \<or> event = RELEASE \<and> ck = (st_owner s, AVAILABLE)"
    and ne: "(st_owner s, RESERVED) \<noteq> ck" using kind by (auto simp: result_kind_def)
  obtain reserved credit where r: "usd_account db (st_owner s, RESERVED) = Some reserved"
    and c: "usd_account db ck = Some credit"
    and post: "post ids s event (st_owner s, RESERVED) ck db =
      Inr (entry_db ids (Some (st_id s)) event reserved credit (st_amount s) db)"
    and pb: "posted_balance reserved DEBIT (st_amount s) = a_balance reserved - st_amount s"
      "posted_balance credit CREDIT (st_amount s) =
        (if event = CONSUME then a_balance credit - st_amount s else a_balance credit + st_amount s)"
    by (rule movement_succeeds [OF ok row(1) out fresh kind'])
  define mid where "mid = entry_db ids (Some (st_id s)) event reserved credit (st_amount s) db"
  have mid_ok: "ledger_ok mid" using ledger_movement [OF led ne post] by (simp add: mid_def)
  then have mid_sch: "schema_ok mid" by (simp add: ledger_ok_def)
  have same: "db_attempts mid = db_attempts db" by (simp add: mid_def)
  define x' where "x' = x\<lparr>at_state := COMPLETED, at_outcome := Some (if result = PAID then OutcomePaid else OutcomeUnpaid)\<rparr>"
  have x': "at_settlement x' = st_id s" "at_operation x' = at_operation x" "at_token x' = at_token x"
    "at_reference x' = at_reference x" using row(2) row(6) [OF x] by (simp_all add: x'_def)
  have xs: "find_attempt (st_id s) db = Some x" using x row(2) by simp
  define db2 where "db2 = (update_status (st_id s) status mid)\<lparr>db_attempts :=
      upd_rows (\<lambda>y. at_settlement y = st_id s) (\<lambda>_. x') (db_attempts db)\<rparr>"
  obtain read where set: "settle s status x' mid = Inr (read, db2)" "sr_status read = status" "sr_id read = st_id s"
    using settle_succeeds [OF ok row(1) mid_sch same xs x'] unfolding db2_def by blast
  have "schema_ok db2"
    using set(1) schema_update_attempt [OF schema_update_status [OF mid_sch]] unfolding settle_Inr by blast
  then have "ledger_ok db2" by (rule ledger_rows [OF mid_ok]) (simp_all add: db2_def update_status_def)
  moreover have "set (db_inserted db2) \<subseteq> j_id ` set (db_journals db2)"
    by (simp add: db2_def update_status_def mid_def entry_db_def idle new_journal_def)
  ultimately have commit: "commit db2 = Inr (db2\<lparr>db_inserted := []\<rparr>)" by (rule commit_sound)
  have "finalize_attempt now ids i (at_token x) (Some result) db = Inr (read, db2)"
    using kind post set(1) finalize_current [OF s x out]
    by (auto simp: result_kind_def consume_def release_def mid_def [symmetric] x'_def)
  with commit have tr: "transact (finalize_attempt now ids i (at_token x) (Some result)) db = (Inr read, db2\<lparr>db_inserted := []\<rparr>)"
    by (simp add: transact_def)
  have "find_settlement i (update_status (st_id s) status mid) = Some (s\<lparr>st_status := status\<rparr>)"
    using s row(2) by (simp add: find_settlement_status mid_def)
  then have f: "find_settlement i (db2\<lparr>db_inserted := []\<rparr>) = Some (s\<lparr>st_status := status\<rparr>)"
    by (simp add: find_settlement_def db2_def)
  have u: "usd_account (db2\<lparr>db_inserted := []\<rparr>) k =
      (if k = ck then Some (credit\<lparr>a_balance := (if event = CONSUME then a_balance credit - st_amount s
          else a_balance credit + st_amount s)\<rparr>)
       else if k = (st_owner s, RESERVED) then Some (reserved\<lparr>a_balance := a_balance reserved - st_amount s\<rparr>)
       else usd_account db k)" for k
  proof -
    have "usd_account (db2\<lparr>db_inserted := []\<rparr>) k = usd_account mid k"
      by (simp add: usd_account_def db2_def update_status_def)
    then show ?thesis by (simp only: mid_def usd_account_moved [OF acc r c ne] pb)
  qed
  have "sr_id read = i" by (simp add: set(3) row(2))
  with that tr set(2) f r c u show ?thesis by blast
qed

section \<open>Claims and open results\<close>

lemma idle_commit: "db_inserted db = [] \<Longrightarrow> commit db = Inr db"
  by (simp add: commit_Inr)

text \<open>A result that is not definite leaves the money where it is.\<close>

lemma finalize_open:
  assumes ok: "service_ok auth db" and idle: "db_inserted db = []"
    and s: "find_settlement i db = Some s" and x: "find_attempt i db = Some x" and out: "outstanding (st_status s)"
    and result: "result \<noteq> Some PAID" "result \<noteq> Some UNPAID"
  obtains read db' where "transact (finalize_attempt now ids i (at_token x) result) db = (Inr read, db')"
    and "sr_status read = PENDING_RECONCILIATION" and "sr_id read = i"
    and "find_settlement i db' = Some (s\<lparr>st_status := PENDING_RECONCILIATION\<rparr>)"
    and "db_accounts db' = db_accounts db" and "db_journals db' = db_journals db" and "db_postings db' = db_postings db"
proof -
  note row = service_settlement [OF ok s]
  define x' where "x' = x\<lparr>at_state := RECONCILING, at_outcome := Some (if result = Some AMBIGUOUS then OutcomeAmbiguous
      else OutcomeUnknown), at_lease := now\<rparr>"
  have x': "at_settlement x' = st_id s" "at_operation x' = at_operation x" "at_token x' = at_token x"
    "at_reference x' = at_reference x" using row(2) row(6) [OF x] by (simp_all add: x'_def)
  have xs: "find_attempt (st_id s) db = Some x" using x row(2) by simp
  define db2 where "db2 = (update_status (st_id s) PENDING_RECONCILIATION db)\<lparr>db_attempts :=
      upd_rows (\<lambda>y. at_settlement y = st_id s) (\<lambda>_. x') (db_attempts db)\<rparr>"
  obtain read where set: "settle s PENDING_RECONCILIATION x' db = Inr (read, db2)"
    "sr_status read = PENDING_RECONCILIATION" "sr_id read = st_id s"
    using settle_succeeds [OF ok row(1) service_schema [OF ok] refl xs x'] unfolding db2_def by blast
  have "finalize_attempt now ids i (at_token x) result db = Inr (read, db2)"
    using set(1) s x out result
    by (auto simp: finalize_attempt_def outstanding_def x'_def split: option.splits provider_result.splits)
  moreover have "commit db2 = Inr db2" by (rule idle_commit) (simp add: db2_def update_status_def idle)
  ultimately have "transact (finalize_attempt now ids i (at_token x) result) db = (Inr read, db2)"
    by (simp add: transact_def)
  moreover have "find_settlement i (update_status (st_id s) PENDING_RECONCILIATION db) =
      Some (s\<lparr>st_status := PENDING_RECONCILIATION\<rparr>)"
    using s row(2) by (simp add: find_settlement_status)
  then have "find_settlement i db2 = Some (s\<lparr>st_status := PENDING_RECONCILIATION\<rparr>)"
    by (simp add: find_settlement_def db2_def)
  moreover have "sr_id read = i" by (simp add: set(3) row(2))
  ultimately show ?thesis using that set(2) by (simp add: db2_def update_status_def)
qed

text \<open>A reserved settlement can always be claimed.\<close>

lemma claim_succeeds:
  assumes ok: "service_ok auth db" and idle: "db_inserted db = []"
    and s: "find_settlement i db = Some s" and status: "st_status s = S_RESERVED"
  obtains claim db' x where "transact (claim_reserved deadline i) db = (Inr (Some claim), db')"
    and "cl_token claim = at_token x" and "sr_id (cl_settlement claim) = i"
    and "find_attempt i db' = Some x" and "find_settlement i db' = Some (s\<lparr>st_status := PAYOUT_IN_PROGRESS\<rparr>)"
    and "db_accounts db' = db_accounts db" and "db_journals db' = db_journals db" and "db_postings db' = db_postings db"
    and "from_orm_settlement (s\<lparr>st_status := PAYOUT_IN_PROGRESS\<rparr>) = Inr (cl_settlement claim)"
proof -
  note row = service_settlement [OF ok s]
  obtain read where read: "from_orm_settlement (s\<lparr>st_status := PAYOUT_IN_PROGRESS\<rparr>) = Inr read"
    "sr_id read = st_id s"
    using readable_settlement [OF ok row(1)] by metis
  define x where "x = \<lparr>at_settlement = st_id s, at_operation = st_operation s, at_state = SUBMITTING,
    at_token = 1, at_lease = deadline, at_outcome = None, at_reference = None\<rparr>"
  define mid where "mid = update_status i PAYOUT_IN_PROGRESS db"
  have none: "find_attempt i db = None" using row(5) status by simp
  have "i \<notin> at_operation ` set (db_attempts db)"
  proof
    assume "i \<in> at_operation ` set (db_attempts db)"
    then obtain y where y: "y \<in> set (db_attempts db)" "at_operation y = i" by blast
    have sch: "schema_ok db" using service_schema [OF ok] .
    then obtain t where t: "t \<in> set (db_settlements db)" "st_id t = at_settlement y"
      using y by (auto simp: schema_defs)
    then have "find_settlement (st_id t) db = Some t" "find_attempt (st_id t) db = Some y"
      using y find_settlement_Some [OF sch] find_attempt_Some [OF sch] by auto
    then have "at_operation y = st_id t" using service_settlement(6) [OF ok] by blast
    with y t \<open>find_attempt (st_id t) db = Some y\<close> none show False by simp
  qed
  moreover have "find_settlement i mid \<noteq> None" using s by (simp add: mid_def find_settlement_status)
  ultimately have ins: "insert_attempt x mid = Inr (mid\<lparr>db_attempts := db_attempts mid @ [x]\<rparr>)"
    using none row(2,3)
    by (simp add: insert_attempt_Inr x_def int8_fits_def mid_def find_attempt_def update_status_def)
  define db' where "db' = mid\<lparr>db_attempts := db_attempts mid @ [x]\<rparr>"
  have "commit db' = Inr db'" by (rule idle_commit) (simp add: db'_def mid_def update_status_def idle)
  then have tr: "transact (claim_reserved deadline i) db = (Inr (Some \<lparr>cl_settlement = read, cl_token = 1\<rparr>), db')"
    using s status read ins by (simp add: claim_reserved_def transact_def x_def mid_def db'_def)
  have "find_attempt i db' = Some x"
    using none row(2) by (simp add: find_attempt_def db'_def mid_def update_status_def find_append x_def)
  moreover have "find_settlement i mid = Some (s\<lparr>st_status := PAYOUT_IN_PROGRESS\<rparr>)"
    using s row(2) by (simp add: mid_def find_settlement_status)
  then have "find_settlement i db' = Some (s\<lparr>st_status := PAYOUT_IN_PROGRESS\<rparr>)"
    by (simp add: find_settlement_def db'_def)
  moreover have "at_token x = 1" by (simp add: x_def)
  ultimately show ?thesis
    using that [OF tr] read row(2) by (simp add: db'_def mid_def update_status_def)
qed

text \<open>A waiting settlement can be taken over, as long as its token can be increased.\<close>

lemma reclaim_succeeds:
  assumes ok: "service_ok auth db" and idle: "db_inserted db = []"
    and s: "find_settlement i db = Some s" and status: "reconcilable (st_status s)"
    and x: "find_attempt i db = Some x" and free: "at_state x \<noteq> CLAIMED \<or> at_lease x \<le> now"
    and token: "int8_fits (at_token x + 1)"
  obtains claim db' x' where "transact (claim_for_reconciliation False now deadline i) db = (Inr (Some claim), db')"
    and "cl_token claim = at_token x'" and "sr_id (cl_settlement claim) = i"
    and "find_attempt i db' = Some x'" and "find_settlement i db' = Some s"
    and "db_accounts db' = db_accounts db" and "db_journals db' = db_journals db" and "db_postings db' = db_postings db"
    and "db_inserted db' = []" and "from_orm_settlement s = Inr (cl_settlement claim)"
proof -
  note row = service_settlement [OF ok s]
  have sch: "schema_ok db" using service_schema [OF ok] .
  obtain read where read: "from_orm_settlement s = Inr read" "sr_id read = i"
    using readable_settlement [OF ok row(1), of "st_status s"] row(2) by auto
  define x' where "x' = x\<lparr>at_token := at_token x + 1, at_state := CLAIMED, at_lease := deadline\<rparr>"
  have xr: "x \<in> set (db_attempts db)" "at_settlement x = i" "at_operation x = i"
    using x find_attempt_Some [OF sch] row(6) [OF x] by simp_all
  have "at_settlement y = i" if "y \<in> set (db_attempts db)" "at_operation y = i" for y
    using distinct_key_eq [of at_operation "db_attempts db" y x] that xr sch by (simp add: schema_defs)
  moreover have "0 < at_token x" "reference_fits x" using sch xr(1) by (simp_all add: schema_defs)
  ultimately have upd: "update_attempt x' db = Inr (db\<lparr>db_attempts :=
      upd_rows (\<lambda>y. at_settlement y = i) (\<lambda>_. x') (db_attempts db)\<rparr>)"
    using token xr by (auto simp: update_attempt_Inr x'_def)
  define db' where "db' = db\<lparr>db_attempts := upd_rows (\<lambda>y. at_settlement y = i) (\<lambda>_. x') (db_attempts db)\<rparr>"
  have "commit db' = Inr db'" by (rule idle_commit) (simp add: db'_def idle)
  then have tr: "transact (claim_for_reconciliation False now deadline i) db =
      (Inr (Some \<lparr>cl_settlement = read, cl_token = at_token x + 1\<rparr>), db')"
    using s status x free read upd by (auto simp: claim_for_reconciliation_def transact_def x'_def db'_def)
  have "find_attempt i db' = Some x'"
    using find_attempt_upd [of i x' db] x xr by (simp add: db'_def x'_def)
  moreover have "find_settlement i db' = Some s" using s by (simp add: find_settlement_def db'_def)
  moreover have "at_token x' = at_token x + 1" by (simp add: x'_def)
  ultimately show ?thesis using that [OF tr, where x' = x'] read idle by (simp add: db'_def)
qed

end
