(* ===== verification/Handler_Outcomes.thy ===== *)
theory Handler_Outcomes
  imports Settlement_Progress
begin

text \<open>
  What the handlers answer.  A finalization under the current token succeeds and its effect on the
  balances is determined by the provider's result; undisturbed, \<open>create\<close> and \<open>reconcile\<close> end with
  the status that the provider's answer asks for; disturbed in any way, an answer is always the
  stored row of the requested settlement.
\<close>

section \<open>The outcome of a finalization\<close>

definition result_status :: "provider_result option \<Rightarrow> settlement_status" where
  "result_status result =
     (case result of Some PAID \<Rightarrow> SUCCESS | Some UNPAID \<Rightarrow> FAILED | _ \<Rightarrow> PENDING_RECONCILIATION)"

definition balance :: "db \<Rightarrow> purpose_key \<Rightarrow> int option" where
  "balance db k = map_option a_balance (usd_account db k)"

text \<open>A success takes the amount out of the reservation and the omnibus, a failure gives it back.\<close>

definition balance_change :: "settlement \<Rightarrow> settlement_status \<Rightarrow> purpose_key \<Rightarrow> int" where
  "balance_change s status k =
     (if status = SUCCESS \<and> (k = (''system'', OMNIBUS) \<or> k = (st_owner s, RESERVED)) then - st_amount s
      else if status = FAILED \<and> k = (st_owner s, RESERVED) then - st_amount s
      else if status = FAILED \<and> k = (st_owner s, AVAILABLE) then st_amount s
      else 0)"

lemma balance_change_status [simp]: "balance_change (s\<lparr>st_status := a\<rparr>) status k = balance_change s status k"
  by (auto simp: balance_change_def)

lemma finalize_outcome:
  assumes ok: "service_ok auth db" and idle: "db_inserted db = []"
    and s: "find_settlement i db = Some s" and x: "find_attempt i db = Some x" and out: "outstanding (st_status s)"
    and fresh: "fresh_ids ids db"
  obtains read db' where "transact (finalize_attempt now ids i (at_token x) result) db = (Inr read, db')"
    and "sr_status read = result_status result" and "sr_id read = i"
    and "find_settlement i db' = Some (s\<lparr>st_status := result_status result\<rparr>)"
    and "\<forall>k. balance db' k = map_option (\<lambda>b. b + balance_change s (result_status result) k) (balance db k)"
proof -
  consider (paid) "result = Some PAID" | (unpaid) "result = Some UNPAID"
    | (unknown) "result \<noteq> Some PAID" "result \<noteq> Some UNPAID" by blast
  then show ?thesis
  proof cases
    case paid
    have kind: "result_kind s PAID CONSUME (''system'', OMNIBUS) SUCCESS" by (simp add: result_kind_def)
    obtain read db' reserved credit where f:
      "transact (finalize_attempt now ids i (at_token x) (Some PAID)) db = (Inr read, db')"
      "sr_status read = SUCCESS" "sr_id read = i" "find_settlement i db' = Some (s\<lparr>st_status := SUCCESS\<rparr>)"
      "usd_account db (st_owner s, RESERVED) = Some reserved" "usd_account db (''system'', OMNIBUS) = Some credit"
      "\<forall>k. usd_account db' k =
        (if k = (''system'', OMNIBUS) then Some (credit\<lparr>a_balance := (if CONSUME = CONSUME then a_balance credit - st_amount s
            else a_balance credit + st_amount s)\<rparr>)
         else if k = (st_owner s, RESERVED) then Some (reserved\<lparr>a_balance := a_balance reserved - st_amount s\<rparr>)
         else usd_account db k)"
      by (rule finalize_definite [OF ok idle s x out fresh kind, of now])
    then show ?thesis
      by (intro that [of read db']) (auto simp: paid result_status_def balance_def balance_change_def option.map_ident)
  next
    case unpaid
    have kind: "result_kind s UNPAID RELEASE (st_owner s, AVAILABLE) FAILED" by (simp add: result_kind_def)
    obtain read db' reserved credit where f:
      "transact (finalize_attempt now ids i (at_token x) (Some UNPAID)) db = (Inr read, db')"
      "sr_status read = FAILED" "sr_id read = i" "find_settlement i db' = Some (s\<lparr>st_status := FAILED\<rparr>)"
      "usd_account db (st_owner s, RESERVED) = Some reserved" "usd_account db (st_owner s, AVAILABLE) = Some credit"
      "\<forall>k. usd_account db' k =
        (if k = (st_owner s, AVAILABLE) then Some (credit\<lparr>a_balance := (if RELEASE = CONSUME then a_balance credit - st_amount s
            else a_balance credit + st_amount s)\<rparr>)
         else if k = (st_owner s, RESERVED) then Some (reserved\<lparr>a_balance := a_balance reserved - st_amount s\<rparr>)
         else usd_account db k)"
      by (rule finalize_definite [OF ok idle s x out fresh kind, of now])
    then show ?thesis
      by (intro that [of read db']) (auto simp: unpaid result_status_def balance_def balance_change_def option.map_ident)
  next
    case unknown
    then have st: "result_status result = PENDING_RECONCILIATION"
      by (auto simp: result_status_def split: option.splits provider_result.splits)
    obtain read db' where
      "transact (finalize_attempt now ids i (at_token x) result) db = (Inr read, db')"
      "sr_status read = PENDING_RECONCILIATION" "sr_id read = i"
      "find_settlement i db' = Some (s\<lparr>st_status := PENDING_RECONCILIATION\<rparr>)" "db_accounts db' = db_accounts db"
      by (rule finalize_open [OF ok idle s x out unknown, of now ids]) blast
    then show ?thesis
      by (intro that [of read db'])
        (simp_all add: st balance_def balance_change_def usd_account_def option.map_comp comp_def)
  qed
qed

section \<open>Undisturbed handlers\<close>

definition undisturbed :: "'p service \<Rightarrow> bool" where
  "undisturbed sv \<longleftrightarrow> (\<forall>k w. sv_others sv k w = w)"

text \<open>The result that a call leaves with the service: any exception counts as none.\<close>

definition answer_of :: "app_error + provider_result \<Rightarrow> provider_result option" where
  "answer_of r = (case r of Inl e \<Rightarrow> None | Inr result \<Rightarrow> Some result)"

lemma orm_fields:
  assumes "from_orm_settlement s = Inr read"
  shows "sr_id read = st_id s" "sr_amount read = st_amount s" "sr_target read = st_target s"
    "sr_quoted read = st_quoted s" "sr_status read = st_status s"
  using assms by (auto simp: from_orm_settlement_def bind_result_eq_Inr)

lemma call_claim:
  assumes "from_orm_settlement (s\<lparr>st_status := status\<rparr>) = Inr (cl_settlement claim)" and "st_id s = i"
    and "sv_initiate sv i (st_amount s) (st_target s) (st_quoted s) p = (r, p')"
  shows "call_initiate sv claim (db, p) = (answer_of r, (db, p'))"
  using orm_fields [OF assms(1)] assms(2,3)
  by (simp add: call_initiate_def Let_def answer_of_def split: sum.splits)

lemma service_ok_step: "db_step auth db db' \<Longrightarrow> service_ok auth db \<Longrightarrow> service_ok auth db'"
  using db_step_ok by blast

lemma pay_reserved_outcome:
  assumes ok: "service_ok auth db" and idle: "db_inserted db = []" and quiet: "undisturbed sv"
    and s: "find_settlement i db = Some s" and status: "st_status s = S_RESERVED"
    and call: "sv_initiate sv i (st_amount s) (st_target s) (st_quoted s) p = (r, p')"
    and fresh: "fresh_ids (sv_uuid sv 1) db"
  obtains read db' where "pay_reserved sv i (db, p) = (Inr read, (db', p'))"
    and "sr_status read = result_status (answer_of r)" and "sr_id read = i"
    and "find_settlement i db' = Some (s\<lparr>st_status := result_status (answer_of r)\<rparr>)"
    and "\<forall>k. balance db' k = map_option (\<lambda>b. b + balance_change s (result_status (answer_of r)) k) (balance db k)"
proof -
  obtain claim db1 x where c: "transact (claim_reserved (lease_deadline sv 0) i) db = (Inr (Some claim), db1)"
    "cl_token claim = at_token x" "sr_id (cl_settlement claim) = i"
    "find_attempt i db1 = Some x" "find_settlement i db1 = Some (s\<lparr>st_status := PAYOUT_IN_PROGRESS\<rparr>)"
    "db_accounts db1 = db_accounts db" "db_journals db1 = db_journals db" "db_postings db1 = db_postings db"
    "from_orm_settlement (s\<lparr>st_status := PAYOUT_IN_PROGRESS\<rparr>) = Inr (cl_settlement claim)"
    by (rule claim_succeeds [OF ok idle s status, of "lease_deadline sv 0"]) blast
  have ok1: "service_ok auth db1" by (rule service_ok_step [OF db_claim [OF c(1)] ok])
  have idle1: "db_inserted db1 = []" by (rule transact_idle [OF c(1) idle])
  have fresh1: "fresh_ids (sv_uuid sv 1) db1" using fresh c by (simp add: fresh_ids_def)
  have id: "st_id s = i" using service_settlement [OF ok s] by simp
  obtain read db' where f:
    "transact (finalize_attempt (sv_clock sv 1) (sv_uuid sv 1) i (at_token x) (answer_of r)) db1 = (Inr read, db')"
    "sr_status read = result_status (answer_of r)" "sr_id read = i"
    "find_settlement i db' = Some (s\<lparr>st_status := PAYOUT_IN_PROGRESS, st_status := result_status (answer_of r)\<rparr>)"
    "\<forall>k. balance db' k = map_option (\<lambda>b. b + balance_change (s\<lparr>st_status := PAYOUT_IN_PROGRESS\<rparr>)
       (result_status (answer_of r)) k) (balance db1 k)"
    by (rule finalize_outcome [OF ok1 idle1 c(5,4) _ fresh1, of "sv_clock sv 1" "answer_of r"])
      (simp_all add: outstanding_def)
  have "pay_reserved sv i (db, p) = (Inr read, (db', p'))"
    using quiet c(1,2) f(1) call_claim [OF c(9) id call, of db1]
    by (simp add: pay_reserved_def in_session_def undisturbed_def)
  moreover have "balance db1 k = balance db k" for k by (simp add: balance_def usd_account_def c(6))
  ultimately show ?thesis
    using f by (intro that [of read db']) simp_all
qed

section \<open>Submission\<close>

definition reserve_change :: "settlement \<Rightarrow> purpose_key \<Rightarrow> int" where
  "reserve_change s k = (if k = (st_owner s, AVAILABLE) then - st_amount s
     else if k = (st_owner s, RESERVED) then st_amount s else 0)"

text \<open>The ids of two movements in a row.\<close>

definition fresh_pair :: "post_ids \<Rightarrow> post_ids \<Rightarrow> db \<Rightarrow> bool" where
  "fresh_pair a b db \<longleftrightarrow> fresh_ids a db \<and> fresh_ids b db \<and> pi_journal a \<noteq> pi_journal b \<and>
     {pi_debit a, pi_credit a} \<inter> {pi_debit b, pi_credit b} = {}"

lemma new_settlement_fields:
  assumes "new_settlement i owner key fingerprint command q = Inr s"
  shows "st_id s = i" "st_owner s = owner" "st_key s = key" "st_fingerprint s = fingerprint"
    "st_status s = S_RESERVED" "st_target s = sc_target command" "st_route s = map hop_json (q_hops q)"
  using assms by (auto simp: new_settlement_def bind_result_eq_Inr)

lemma submit_poor:
  assumes ok: "service_ok auth db" and new: "new_settlement i owner key fingerprint command q = Inr s"
    and ins: "insert_settlement s db = Inr mid"
    and a: "usd_account db (owner, AVAILABLE) = Some a" "usd_account db (owner, RESERVED) = Some r"
    and poor: "a_balance a < st_amount s"
  shows "transact (submit ids i owner key fingerprint command q) db = (Inl InsufficientFunds, db)"
proof -
  have "schema_ok mid" using schema_insert_settlement [OF service_schema [OF ok] ins] .
  then have acc: "accounts_ok mid" by (simp add: schema_ok_def)
  have "usd_account mid = usd_account db" using ins by (simp add: insert_settlement_Inr)
  then have "reserve ids s mid = Inl InsufficientFunds"
    using a poor new_settlement_fields [OF new] by (simp add: reserve_def post_eq [OF acc])
  then show ?thesis using new ins by (simp add: transact_def submit_def)
qed

lemma submit_succeeds:
  assumes ok: "service_ok auth db" and idle: "db_inserted db = []"
    and new: "new_settlement i owner key fingerprint command q = Inr s"
    and ins: "insert_settlement s db = Inr mid"
    and a: "usd_account db (owner, AVAILABLE) = Some a" "usd_account db (owner, RESERVED) = Some r"
    and rich: "st_amount s \<le> a_balance a" and fresh: "fresh_ids ids db"
  obtains db1 where "transact (submit ids i owner key fingerprint command q) db = (Inr (), db1)"
    and "find_settlement i db1 = Some s"
    and "\<forall>k. balance db1 k = map_option (\<lambda>b. b + reserve_change s k) (balance db k)"
    and "\<forall>ids'. fresh_pair ids ids' db \<longrightarrow> fresh_ids ids' db1"
proof -
  note f = new_settlement_fields [OF new]
  have led: "ledger_ok db" and sch: "schema_ok db" and chart: "chart_of_accounts db" and acc0: "accounts_ok db"
    using ok by (simp_all add: service_ok_def ledger_ok_def schema_ok_def)
  have mid: "mid = db\<lparr>db_settlements := db_settlements db @ [s]\<rparr>" "0 < st_amount s"
    and new_id: "i \<notin> st_id ` set (db_settlements db)"
    using ins f(1) by (simp_all add: insert_settlement_Inr find_settlement_def table_simps)
  have sch1: "schema_ok mid" by (rule schema_insert_settlement [OF sch ins])
  then have acc: "accounts_ok mid" and led1: "ledger_ok mid"
    using ledger_rows [OF led sch1] by (simp_all add: schema_ok_def mid)
  have u: "usd_account mid = usd_account db" by (simp add: mid)
  obtain om where o: "usd_account db (''system'', OMNIBUS) = Some om" using chart by (auto simp: chart_of_accounts_def)
  have rows: "a \<in> set (db_accounts db)" "r \<in> set (db_accounts db)" "om \<in> set (db_accounts db)"
    "a_currency a = USD" "a_currency r = USD" "purpose_key a = (owner, AVAILABLE)" "purpose_key r = (owner, RESERVED)"
    using a o by (simp_all add: usd_account_Some [OF acc0])
  have cl: "a_class a = LIABILITY" "a_class r = LIABILITY"
    using customer_account [OF acc0 chart] a by blast+
  have "a \<noteq> r" using rows by auto
  then have "a_balance a + a_balance r \<le> a_balance om"
    using sum_pair_le [of "db_accounts db" customer_balance a r] customer_balance_nonneg [OF acc0] rows cl
    by (simp add: omnibus_covers(2) [OF acc0 chart o] customer_balance_def)
  moreover have b: "numeric_fits 24 (a_balance y) \<and> 0 \<le> a_balance y" if "y \<in> set (db_accounts db)" for y
    using acc0 that by (simp add: accounts_ok_def)
  ultimately have fits: "numeric_fits 24 (a_balance r + st_amount s)" "numeric_fits 24 (a_balance a - st_amount s)"
    "numeric_fits 24 (st_amount s)" "0 \<le> a_balance r"
    using b [OF rows(1)] b [OF rows(2)] b [OF rows(3)] rich mid(2)
    by (auto intro: fits_below [of 24 "a_balance om"] fits_below [of 24 "a_balance a"])
  have "\<forall>j \<in> set (db_journals db). j_settlement j \<noteq> Some i"
    using sch new_id by (auto simp: schema_defs)
  then have entry: "entry_fits ids (Some (st_id s)) RESERVE mid"
    using fresh f(1) by (auto simp: entry_fits_def fresh_ids_def mid)
  define db2 where "db2 = entry_db ids (Some (st_id s)) RESERVE a r (st_amount s) mid"
  have ne: "(owner, AVAILABLE) \<noteq> (owner, RESERVED)" by simp
  have post: "post ids s RESERVE (owner, AVAILABLE) (owner, RESERVED) mid = Inr db2"
    using entry a rich mid(2) fits cl
    by (simp add: post_Inr [OF acc ne] u posted_balance_def increases_def db2_def)
  have "ledger_ok db2" using ledger_movement [OF led1 ne post] by simp
  moreover have "set (db_inserted db2) \<subseteq> j_id ` set (db_journals db2)"
    by (simp add: db2_def entry_db_def mid idle new_journal_def)
  ultimately have "commit db2 = Inr (db2\<lparr>db_inserted := []\<rparr>)" by (rule commit_sound)
  then have tr: "transact (submit ids i owner key fingerprint command q) db = (Inr (), db2\<lparr>db_inserted := []\<rparr>)"
    using new ins post f(2) by (simp add: transact_def submit_def reserve_def)
  have "find_settlement i db = None" using new_id by (simp add: find_settlement_def table_simps)
  then have "find_settlement i (db2\<lparr>db_inserted := []\<rparr>) = Some s"
    using f(1) by (simp add: find_settlement_def db2_def mid find_append)
  moreover have "balance (db2\<lparr>db_inserted := []\<rparr>) k = map_option (\<lambda>b. b + reserve_change s k) (balance db k)" for k
    using a f(2) cl usd_account_moved [OF acc, of "(owner, AVAILABLE)" a "(owner, RESERVED)" r ids "Some (st_id s)" RESERVE "st_amount s" k]
    by (auto simp: balance_def db2_def u reserve_change_def posted_balance_def increases_def option.map_ident)
  moreover have "fresh_ids ids' (db2\<lparr>db_inserted := []\<rparr>)" if "fresh_pair ids ids' db" for ids'
    using that by (auto simp: fresh_pair_def fresh_ids_def db2_def entry_db_def mid entry_postings_def
        new_posting_def new_journal_def)
  ultimately show ?thesis using that [OF tr] by blast
qed

lemma create_fresh:
  assumes "find_by_key owner key db = None" and "quote rates (sc_target command) = Inr q" and "undisturbed sv"
  shows "transact (submit (sv_uuid sv 0) (sv_new_id sv) owner key (request_fingerprint owner command) command q) db = (Inr (), db1) \<Longrightarrow>
      create sv rates owner key command (db, p) = pay_reserved sv (sv_new_id sv) (db1, p)"
    and "transact (submit (sv_uuid sv 0) (sv_new_id sv) owner key (request_fingerprint owner command) command q) db = (Inl e, db1) \<Longrightarrow>
      \<not> is_idempotency_violation e \<Longrightarrow> create sv rates owner key command (db, p) = (Inl e, (db1, p))"
  using assms by (simp_all add: create_def undisturbed_def in_session_def)

text \<open>What an undisturbed request for a new settlement does, from the books to the payout.\<close>

lemma create_outcome:
  assumes ok: "service_ok auth db" and idle: "db_inserted db = []" and quiet: "undisturbed sv"
    and none: "find_by_key owner key db = None"
    and q: "quote rates (sc_target command) = Inr q" and readable: "quote_readable q"
    and new: "new_settlement (sv_new_id sv) owner key (request_fingerprint owner command) command q = Inr s"
    and ins: "insert_settlement s db = Inr mid"
    and a: "usd_account db (owner, AVAILABLE) = Some a" "usd_account db (owner, RESERVED) = Some b"
    and fresh: "fresh_pair (sv_uuid sv 0) (sv_uuid sv 1) db"
    and call: "sv_initiate sv (st_id s) (st_amount s) (st_target s) (st_quoted s) p = (r, p')"
  shows "a_balance a < st_amount s \<Longrightarrow> create sv rates owner key command (db, p) = (Inl InsufficientFunds, (db, p))"
    and "st_amount s \<le> a_balance a \<Longrightarrow> \<exists>read db'. create sv rates owner key command (db, p) = (Inr read, (db', p')) \<and>
      sr_status read = result_status (answer_of r) \<and> sr_id read = sv_new_id sv \<and>
      find_settlement (sv_new_id sv) db' = Some (s\<lparr>st_status := result_status (answer_of r)\<rparr>) \<and>
      (\<forall>k. balance db' k = map_option (\<lambda>n. n + reserve_change s k + balance_change s (result_status (answer_of r)) k)
         (balance db k))"
proof -
  note f = new_settlement_fields [OF new]
  show "create sv rates owner key command (db, p) = (Inl InsufficientFunds, (db, p))" if "a_balance a < st_amount s"
    by (rule create_fresh(2) [OF none q quiet submit_poor [OF ok new ins a that]]) (simp add: is_idempotency_violation_def)
  assume rich: "st_amount s \<le> a_balance a"
  obtain db1 where sub: "transact (submit (sv_uuid sv 0) (sv_new_id sv) owner key (request_fingerprint owner command)
      command q) db = (Inr (), db1)" "find_settlement (sv_new_id sv) db1 = Some s"
    "\<forall>k. balance db1 k = map_option (\<lambda>b. b + reserve_change s k) (balance db k)"
    "\<forall>ids'. fresh_pair (sv_uuid sv 0) ids' db \<longrightarrow> fresh_ids ids' db1"
    using submit_succeeds [OF ok idle new ins a rich] fresh by (metis fresh_pair_def)
  have ok1: "service_ok auth db1" by (rule service_ok_step [OF db_submit [OF readable sub(1)] ok])
  have idle1: "db_inserted db1 = []" by (rule transact_idle [OF sub(1) idle])
  have fresh1: "fresh_ids (sv_uuid sv 1) db1" using sub(4) fresh by blast
  obtain read db' where pay: "pay_reserved sv (sv_new_id sv) (db1, p) = (Inr read, (db', p'))"
    "sr_status read = result_status (answer_of r)" "sr_id read = sv_new_id sv"
    "find_settlement (sv_new_id sv) db' = Some (s\<lparr>st_status := result_status (answer_of r)\<rparr>)"
    "\<forall>k. balance db' k = map_option (\<lambda>b. b + balance_change s (result_status (answer_of r)) k) (balance db1 k)"
    by (rule pay_reserved_outcome [OF ok1 idle1 quiet sub(2) f(5) call [unfolded f(1)] fresh1])
  have "create sv rates owner key command (db, p) = (Inr read, (db', p'))"
    using create_fresh(1) [OF none q quiet sub(1)] pay(1) by simp
  moreover have "balance db' k = map_option (\<lambda>n. n + reserve_change s k + balance_change s (result_status (answer_of r)) k)
      (balance db k)" for k
    using pay(5) [THEN spec, of k] sub(3) [THEN spec, of k] by (simp add: option.map_comp comp_def)
  ultimately show "\<exists>read db'. create sv rates owner key command (db, p) = (Inr read, (db', p')) \<and>
      sr_status read = result_status (answer_of r) \<and> sr_id read = sv_new_id sv \<and>
      find_settlement (sv_new_id sv) db' = Some (s\<lparr>st_status := result_status (answer_of r)\<rparr>) \<and>
      (\<forall>k. balance db' k = map_option (\<lambda>n. n + reserve_change s k + balance_change s (result_status (answer_of r)) k)
         (balance db k))"
    using pay(2-4) by blast
qed

section \<open>Reconciliation\<close>

text \<open>The result that a lookup leads to, with a new request when the provider has no operation.\<close>

definition lookup_answer :: "provider_lookup \<Rightarrow> app_error + provider_result \<Rightarrow> provider_result option" where
  "lookup_answer l r = (case l of LOOKUP_PAID \<Rightarrow> Some PAID | LOOKUP_UNPAID \<Rightarrow> Some UNPAID
     | NOT_FOUND \<Rightarrow> answer_of r | _ \<Rightarrow> None)"

lemma reconcile_outcome:
  assumes ok: "service_ok auth db" and idle: "db_inserted db = []" and quiet: "undisturbed sv"
    and s: "find_settlement i db = Some s" and status: "reconcilable (st_status s)"
    and x: "find_attempt i db = Some x" and free: "at_state x \<noteq> CLAIMED \<or> at_lease x \<le> sv_clock sv 4"
    and token: "int8_fits (at_token x + 1)"
    and look: "sv_lookup sv i p = Inr l"
    and call: "sv_initiate sv i (st_amount s) (st_target s) (st_quoted s) p = (r, p')"
    and fresh: "fresh_ids (sv_uuid sv 2) db"
  obtains read db' where "reconcile sv i (db, p) = (Inr read, (db', if l = NOT_FOUND then p' else p))"
    and "sr_status read = result_status (lookup_answer l r)" and "sr_id read = i"
    and "find_settlement i db' = Some (s\<lparr>st_status := result_status (lookup_answer l r)\<rparr>)"
    and "\<forall>k. balance db' k = map_option (\<lambda>b. b + balance_change s (result_status (lookup_answer l r)) k) (balance db k)"
proof -
  obtain claim db1 x' where c: "transact (claim_for_reconciliation False (sv_clock sv 4) (lease_deadline sv 5) i) db
      = (Inr (Some claim), db1)"
    "cl_token claim = at_token x'" "sr_id (cl_settlement claim) = i"
    "find_attempt i db1 = Some x'" "find_settlement i db1 = Some s"
    "db_accounts db1 = db_accounts db" "db_journals db1 = db_journals db" "db_postings db1 = db_postings db"
    "db_inserted db1 = []" "from_orm_settlement s = Inr (cl_settlement claim)"
    by (rule reclaim_succeeds [OF ok idle s status x free token, of "lease_deadline sv 5"]) blast
  have ok1: "service_ok auth db1" by (rule service_ok_step [OF db_reclaim [OF c(1)] ok])
  have fresh1: "fresh_ids (sv_uuid sv 2) db1" using fresh c by (simp add: fresh_ids_def)
  have id: "st_id s = i" using service_settlement [OF ok s] by simp
  have out: "outstanding (st_status s)" using reconcilable_outstanding [OF status] by simp
  obtain read db' where f:
    "transact (finalize_attempt (sv_clock sv 2) (sv_uuid sv 2) i (at_token x') (lookup_answer l r)) db1 = (Inr read, db')"
    "sr_status read = result_status (lookup_answer l r)" "sr_id read = i"
    "find_settlement i db' = Some (s\<lparr>st_status := result_status (lookup_answer l r)\<rparr>)"
    "\<forall>k. balance db' k = map_option (\<lambda>b. b + balance_change s (result_status (lookup_answer l r)) k) (balance db1 k)"
    by (rule finalize_outcome [OF ok1 c(9,5,4) out fresh1, of "sv_clock sv 2" "lookup_answer l r"])
  have same: "s\<lparr>st_status := st_status s\<rparr> = s" by simp
  have "look_up sv claim (db1, p) = (Inr (lookup_answer l r), (db1, if l = NOT_FOUND then p' else p))"
    using look quiet c(3) call_claim [where s = s and status = "st_status s" and claim = claim and i = i and sv = sv and p = p and r = r and p' = p' and db = db1] c(10) id call
    by (cases l) (simp_all add: look_up_def lookup_answer_def undisturbed_def)
  moreover have "get i db = Inr (cl_settlement claim)" using s c(10) by (simp add: get_def)
  moreover have "sr_status (cl_settlement claim) = st_status s" using orm_fields [OF c(10)] by simp
  ultimately have "reconcile sv i (db, p) = (Inr read, (db', if l = NOT_FOUND then p' else p))"
    using quiet status c(1,2,3) f(1)
    by (simp add: reconcile_def reconcile_claim_def in_session_def undisturbed_def)
  moreover have "balance db1 k = balance db k" for k by (simp add: balance_def usd_account_def c(6))
  ultimately show ?thesis
    using f by (intro that [of read db']) simp_all
qed

section \<open>Answers\<close>

text \<open>An answer is the stored row, at its present or an earlier status.\<close>

definition answers :: "nat \<Rightarrow> settlement_read \<Rightarrow> db \<Rightarrow> bool" where
  "answers i read db \<longleftrightarrow> (\<exists>s status. find_settlement i db = Some s \<and>
     from_orm_settlement (s\<lparr>st_status := status\<rparr>) = Inr read \<and> later status (st_status s))"

definition keyed :: "string \<Rightarrow> string \<Rightarrow> string \<Rightarrow> nat \<Rightarrow> db \<Rightarrow> bool" where
  "keyed owner key fingerprint i db \<longleftrightarrow> (\<exists>s. find_settlement i db = Some s \<and> st_owner s = owner \<and>
     st_key s = key \<and> st_fingerprint s = fingerprint)"

lemma answers_evolve: "answers i read db \<Longrightarrow> evolves db db' \<Longrightarrow> answers i read db'"
  by (fastforce simp: answers_def evolves_def settlements_evolve_def intro: later_trans)

lemma keyed_evolve: "keyed owner key fp i db \<Longrightarrow> evolves db db' \<Longrightarrow> keyed owner key fp i db'"
  by (fastforce simp: keyed_def evolves_def settlements_evolve_def)

lemma row_answers: "find_settlement i db = Some s \<Longrightarrow> from_orm_settlement s = Inr read \<Longrightarrow> answers i read db"
  unfolding answers_def by (rule exI [of _ s], rule exI [of _ "st_status s"]) simp

lemma get_answers: "get i db = Inr read \<Longrightarrow> answers i read db"
  by (auto simp: get_def split: option.splits intro: row_answers)

lemma find_by_key_row:
  "schema_ok db \<Longrightarrow> find_by_key owner key db = Some s \<Longrightarrow>
     find_settlement (st_id s) db = Some s \<and> st_owner s = owner \<and> st_key s = key"
  by (auto simp: find_by_key_def find_settlement_Some dest: find_Some_set)

lemma settle_answers:
  assumes "settle s status x mid = Inr (read, db')" and "find_settlement i mid = Some s" and "st_id s = i"
  shows "answers i read db'"
proof -
  have upd: "update_attempt x (update_status i status mid) = Inr db'"
    and read: "from_orm_settlement (s\<lparr>st_status := status\<rparr>) = Inr read"
    using assms(1,3) by (simp_all add: settle_Inr)
  have "find_settlement i db' = find_settlement i (update_status i status mid)"
    using upd by (simp add: update_attempt_Inr find_settlement_def)
  also have "\<dots> = Some (s\<lparr>st_status := status\<rparr>)" using assms(2,3) by (simp add: find_settlement_status)
  finally show ?thesis using read by (rule row_answers)
qed

lemma finalize_answers:
  assumes ok: "service_ok auth db" and "transact (finalize_attempt now ids i token result) db = (Inr read, db')"
  shows "answers i read db'"
proof -
  obtain mid where fin: "finalize_attempt now ids i token result db = Inr (read, mid)"
    and db': "db' = mid\<lparr>db_inserted := []\<rparr>"
    using assms(2) by (auto simp: transact_Inr commit_Inr)
  obtain s where s: "find_settlement i db = Some s" using fin by (auto simp: finalize_attempt_def split: option.splits)
  obtain x where x: "find_attempt i db = Some x" using fin s by (auto simp: finalize_attempt_def split: option.splits)
  have id: "st_id s = i" using service_settlement [OF ok s] by simp
  have moved: "find_settlement i m = Some s" if "consume ids s db = Inr m \<or> release ids s db = Inr m" for m
    using movement_schema [OF service_schema [OF ok] that] s by (simp add: find_settlement_def)
  have "answers i read mid"
    using fin s x settle_answers [OF _ s id] settle_answers [OF _ moved id] row_answers [OF s]
    by (auto simp: finalize_attempt_def bind_result_eq_Inr split: if_splits option.splits provider_result.splits)
  then show ?thesis by (simp add: answers_def db' find_settlement_def)
qed

context payout_provider
begin

lemma run_keeps:
  assumes "run w w'" and "ok w"
  shows "answers i read (fst w) \<Longrightarrow> answers i read (fst w')"
    and "keyed owner key fp i (fst w) \<Longrightarrow> keyed owner key fp i (fst w')"
  using run_evolves [OF assms] answers_evolve keyed_evolve by blast+

lemma session_finalize_answers:
  assumes "in_session (finalize_attempt now ids i token result) w = (Inr read, w')" and "ok w"
  shows "answers i read (fst w')"
  using assms finalize_answers by (auto simp: in_session_eq world_ok_def)

lemma get_in_answers: "get_in i w = (Inr read, w') \<Longrightarrow> answers i read (fst w')"
  by (auto simp: get_in_def get_answers)

lemma pay_reserved_answers:
  assumes sv: "serves initiate lookup authority sv" and ok: "ok w" and pay: "pay_reserved sv i w = (Inr read, w')"
  shows "answers i read (fst w')"
proof -
  obtain c w1 where c: "in_session (claim_reserved (lease_deadline sv 0) i) w = (c, w1)" by (metis surj_pair)
  have ok1: "ok w1" using claim_run [OF c] run_ok ok by blast
  note await = await_run [OF sv]
  consider (got) "get_in i (await sv 2 w1) = (Inr read, w')"
    | (claim) cl where "c = Inr (Some cl)"
    using pay c by (auto simp: pay_reserved_def split: sum.splits option.splits)
  then show ?thesis
  proof cases
    case got
    then show ?thesis by (rule get_in_answers)
  next
    case claim
    obtain result w2 where call: "call_initiate sv cl (await sv 2 w1) = (result, w2)" by (metis surj_pair)
    have ok2: "ok (await sv 3 w2)" using call_run [OF sv run_ok [OF await ok1] call] run_ok await ok1 by metis
    obtain f w3 where fin: "in_session (finalize_attempt (sv_clock sv 1) (sv_uuid sv 1) i (cl_token cl) result)
        (await sv 3 w2) = (f, w3)" by (metis surj_pair)
    then have "(f = Inr read \<and> w' = w3) \<or> get_in i (await sv 4 w3) = (Inr read, w')"
      using pay c claim call by (auto simp: pay_reserved_def split: sum.splits if_splits)
    then show ?thesis using session_finalize_answers [OF _ ok2] fin get_in_answers by blast
  qed
qed

lemma resume_answers:
  assumes sv: "serves initiate lookup authority sv" and ok: "ok w"
    and row: "find_settlement (st_id s) db = Some s" "evolves db (fst w)"
    and res: "resume sv s fingerprint w = (Inr read, w')"
  shows "answers (st_id s) read (fst w') \<and> st_fingerprint s = fingerprint"
proof -
  have fp: "st_fingerprint s = fingerprint"
    using res by (auto simp: resume_def check_fingerprint_def guard_result_def split: if_splits)
  have "answers (st_id s) read (fst w')"
  proof (cases "st_status s = S_RESERVED")
    case True
    with res fp have "pay_reserved sv (st_id s) w = (Inr read, w')" by (simp add: resume_def check_fingerprint_def)
    then show ?thesis by (rule pay_reserved_answers [OF sv ok])
  next
    case False
    with res fp have "from_orm_settlement s = Inr read" "w' = w" by (simp_all add: resume_def check_fingerprint_def)
    with row show ?thesis using row_answers answers_evolve by blast
  qed
  with fp show ?thesis by simp
qed

text \<open>A settlement found under its key, answered after other tasks have run.\<close>

lemma found_answers:
  assumes sv: "serves initiate lookup authority sv" and ok: "ok w" and later: "run w w1"
    and found: "find_by_key owner key (fst w) = Some s" and res: "resume sv s fingerprint w1 = (Inr read, w')"
  shows "\<exists>i. keyed owner key fingerprint i (fst w') \<and> answers i read (fst w')"
proof -
  have "schema_ok (fst w)" using ok service_schema by (auto simp: world_ok_def)
  then have row: "find_settlement (st_id s) (fst w) = Some s" "st_owner s = owner" "st_key s = key"
    using find_by_key_row found by blast+
  have ev: "evolves (fst w) (fst w1)" "ok w1" using run_evolves [OF later ok] run_ok [OF later ok] by simp_all
  have a: "answers (st_id s) read (fst w')" "st_fingerprint s = fingerprint"
    using resume_answers [OF sv ev(2) row(1) ev(1) res] by simp_all
  then have "keyed owner key fingerprint (st_id s) (fst w)" using row by (simp add: keyed_def)
  moreover have "run w w'" using later resume_run [OF sv ev(2) res] by (rule rtranclp_trans)
  ultimately show ?thesis using a(1) run_keeps(2) [OF _ ok] by blast
qed

lemma submit_keyed:
  assumes ok: "ok w" and "in_session (submit ids i owner key fingerprint command q) w = (Inr u, w')"
  shows "keyed owner key fingerprint i (fst w')"
proof -
  obtain mid where mid: "submit ids i owner key fingerprint command q (fst w) = Inr (u, mid)"
    "fst w' = mid\<lparr>db_inserted := []\<rparr>"
    using assms(2) by (auto simp: in_session_eq transact_Inr commit_Inr)
  obtain s db1 where s: "new_settlement i owner key fingerprint command q = Inr s"
    "insert_settlement s (fst w) = Inr db1" "reserve ids s db1 = Inr mid"
    using mid(1) by (auto simp: submit_def bind_result_eq_Inr)
  have sch: "schema_ok db1"
    using schema_insert_settlement [OF _ s(2)] ok service_schema by (auto simp: world_ok_def)
  then have "books_evolve db1 mid \<and> db_settlements mid = db_settlements db1 \<and> db_attempts mid = db_attempts db1"
    using s(3) unfolding reserve_def schema_ok_def by (intro movement_books) auto
  moreover have "find_settlement i db1 = Some s"
    using find_settlement_Some [OF sch, of i s] s(2) new_settlement_fields [OF s(1)]
    by (auto simp: insert_settlement_Inr)
  ultimately show ?thesis
    using new_settlement_fields [OF s(1)] mid(2) by (simp add: keyed_def find_settlement_def)
qed

lemma create_answers:
  assumes sv: "serves initiate lookup authority sv" and ok: "ok w" and book: "readable_book rates"
    and create: "create sv rates owner key command w = (Inr read, w')"
  shows "\<exists>i. keyed owner key (request_fingerprint owner command) i (fst w') \<and> answers i read (fst w')"
proof -
  note await = await_run [OF sv]
  let ?w0 = "await sv 0 w" and ?fp = "request_fingerprint owner command"
  have ok0: "ok ?w0" using run_ok [OF await ok] .
  show ?thesis
  proof (cases "find_by_key owner key (fst w)")
    case (Some s)
    then have "resume sv s ?fp ?w0 = (Inr read, w')" using create by (simp add: create_def)
    then show ?thesis using found_answers [OF sv ok await Some] by blast
  next
    case None
    then obtain q where q: "quote rates (sc_target command) = Inr q"
      using create by (auto simp: create_def split: sum.splits)
    obtain u w1 where sub: "in_session (submit (sv_uuid sv 0) (sv_new_id sv) owner key ?fp command q) ?w0 = (u, w1)"
      by (metis surj_pair)
    have ok1: "ok w1" using submit_session_run [OF quoted_readable [OF book q] sub] run_ok ok0 by blast
    have ok2: "ok (await sv 1 w1)" using run_ok [OF await ok1] .
    show ?thesis
    proof (cases u)
      case (Inr v)
      then have pay: "pay_reserved sv (sv_new_id sv) (await sv 1 w1) = (Inr read, w')"
        using create None q sub by (simp add: create_def)
      have "keyed owner key ?fp (sv_new_id sv) (fst w1)" using submit_keyed [OF ok0] sub Inr by blast
      then have "keyed owner key ?fp (sv_new_id sv) (fst w')"
        using run_keeps(2) [OF _ ok1] await pay_reserved_run [OF sv ok2 pay] by (metis rtranclp_trans)
      with pay_reserved_answers [OF sv ok2 pay] show ?thesis by blast
    next
      case (Inl e)
      then obtain s where "find_by_key owner key (fst (await sv 1 w1)) = Some s"
        "resume sv s ?fp (await sv 1 w1) = (Inr read, w')"
        using create None q sub by (auto simp: create_def split: if_splits option.splits)
      then show ?thesis using found_answers [OF sv ok2 rtranclp.rtrancl_refl] by blast
    qed
  qed
qed

end

end
