(* ===== verification/Settlement_Demo.thy ===== *)
theory Settlement_Demo
  imports Handler_Outcomes
begin

text \<open>
  One settlement of the demo customer, step by step: submitted, claimed, requested from the durable
  provider (which pays its first operation), and finished; and a second one that stays open.  The
  theorems of the service are applied to these worlds.
\<close>

definition demo_quote :: route_quote where
  "demo_quote = \<lparr>q_version = 1, q_target = EUR, q_rate = DFin 919 (-3),
     q_hops = [\<lparr>h_source = USD, h_target = EUR, h_lp = ''LP_A'', h_rate = DFin 919 (-3)\<rparr>]\<rparr>"

definition demo_command :: settlement_create where
  "demo_command = \<lparr>sc_amount = DFin 25000 (-2), sc_target = EUR\<rparr>"

definition demo_entry :: "nat \<Rightarrow> post_ids" where
  "demo_entry n = \<lparr>pi_journal = n, pi_debit = n + 1, pi_credit = n + 2\<rparr>"

definition demo_submit :: "unit transaction" where
  "demo_submit = submit (demo_entry 200) 7 ''demo-customer'' ''k1'' ''f1'' demo_command demo_quote"

definition submitted_db :: db where
  "submitted_db = snd (transact demo_submit demo_db)"

definition claimed_db :: db where
  "claimed_db = snd (transact (claim_reserved 1000 7) submitted_db)"

definition paid_db :: db where
  "paid_db = snd (transact (finalize_attempt 500 (demo_entry 300) 7 1 (Some PAID)) claimed_db)"

definition pending_db :: db where
  "pending_db = snd (transact (finalize_attempt 500 (demo_entry 300) 7 1 None) claimed_db)"

definition reclaimed_db :: db where
  "reclaimed_db = snd (transact (claim_for_reconciliation False 600 2000 7) pending_db)"

lemmas demo_dbs = demo_db_def submitted_db_def claimed_db_def paid_db_def pending_db_def reclaimed_db_def
  demo_submit_def

lemma demo_submitted: "transact demo_submit demo_db = (Inr (), submitted_db)"
proof -
  have "fst (transact demo_submit demo_db) = Inr ()" unfolding demo_dbs by code_simp
  then show ?thesis by (simp add: submitted_db_def prod_eq_iff)
qed

text \<open>Each transaction succeeds and leaves the status, the token and the balances it should.\<close>

fun succeeds :: "(app_error + 'a) \<times> db \<Rightarrow> bool" where
  "succeeds (Inr _, _) = True"
| "succeeds (Inl _, _) = False"

lemma succeeds_eq: "succeeds (transact body db) \<Longrightarrow> \<exists>a. transact body db = (Inr a, snd (transact body db))"
  by (cases "transact body db" rule: succeeds.cases) simp_all

lemma demo_claimed: "succeeds (transact (claim_reserved 1000 7) submitted_db)"
  unfolding demo_dbs by code_simp

lemma demo_paid: "succeeds (transact (finalize_attempt 500 (demo_entry 300) 7 1 (Some PAID)) claimed_db)"
  unfolding demo_dbs by code_simp

lemma demo_pending: "succeeds (transact (finalize_attempt 500 (demo_entry 300) 7 1 None) claimed_db)"
  unfolding demo_dbs by code_simp

lemma demo_reclaimed: "succeeds (transact (claim_for_reconciliation False 600 2000 7) pending_db)"
  unfolding demo_dbs by code_simp

lemma demo_rows:
  "map_option st_status (find_settlement 7 paid_db) = Some SUCCESS"
  "map_option st_status (find_settlement 7 pending_db) = Some PENDING_RECONCILIATION"
  "map_option a_balance (usd_account pending_db (''demo-customer'', RESERVED)) = Some 25000000000"
  "map_option at_token (find_attempt 7 reclaimed_db) = Some 2"
  unfolding demo_dbs by code_simp+

lemma paid_row: "\<exists>s. s \<in> set (db_settlements paid_db) \<and> st_status s = SUCCESS \<and> st_id s = 7"
  using demo_rows(1) find_Some_set [of "\<lambda>s. st_id s = 7" "db_settlements paid_db"]
  by (auto simp: find_settlement_def)

section \<open>Reachable worlds of the durable provider\<close>

abbreviation durable_step :: "provider_config \<Rightarrow> durable_provider world \<Rightarrow> durable_provider world \<Rightarrow> bool" where
  "durable_step cfg \<equiv> world_step (durable_initiate cfg) durable_authority"

abbreviation reachable_world :: "provider_config \<Rightarrow> durable_provider world \<Rightarrow> bool" where
  "reachable_world cfg \<equiv> reachable (starts durable_valid) (durable_step cfg)"

text \<open>The contract of the provider makes the worlds an invariant system.\<close>

lemma reachable_ok:
  assumes "config_ok cfg" and "reachable_world cfg w"
  shows "world_ok durable_authority durable_valid w"
  by (rule payout_provider.reachable_invariant [OF durable_contract [OF assms(1)] assms(2)])

lemma random_config_ok: "config_ok random_config"
  by (simp add: config_ok_def random_config_def)

lemma demo_start: "reachable_world random_config (demo_db, new_durable_provider)"
  by (rule reach_init) (use seeded new_durable_valid in \<open>auto simp: starts_def intro: seeded_db.intros\<close>)

lemma demo_db_step:
  assumes "reachable_world cfg (db, p)" and "db_step (durable_authority p) db db'"
  shows "reachable_world cfg (db', p)"
  using reach_step [OF assms(1) world_db [of durable_authority, OF assms(2)]] .

lemma submitted_reachable: "reachable_world random_config (submitted_db, new_durable_provider)"
  by (rule demo_db_step [OF demo_start db_submit [OF _ demo_submitted [unfolded demo_submit_def]]])
    (simp add: quote_readable_def demo_quote_def)

lemma claimed_reachable: "reachable_world random_config (claimed_db, new_durable_provider)"
  using succeeds_eq [OF demo_claimed] unfolding claimed_db_def
  by (metis demo_db_step submitted_reachable db_claim)

lemma pending_reachable: "reachable_world random_config (pending_db, new_durable_provider)"
  using succeeds_eq [OF demo_pending] unfolding pending_db_def
  by (metis demo_db_step claimed_reachable db_finalize confirmed_def option.distinct(1))

lemma reclaimed_reachable: "reachable_world random_config (reclaimed_db, new_durable_provider)"
  using succeeds_eq [OF demo_reclaimed] unfolding reclaimed_db_def
  by (metis demo_db_step pending_reachable db_reclaim)

lemma first_call_eq: "durable_initiate random_config 7 100 EUR 92 new_durable_provider = (Inr PAID, snd first_call)"
  by (rule trans [OF first_call_def [symmetric] first_call_paid])

lemma called_reachable: "reachable_world random_config (claimed_db, snd first_call)"
  by (rule reach_step [OF claimed_reachable world_initiate [where initiate = "durable_initiate random_config", OF first_call_eq]])

lemma first_call_authority: "durable_authority (snd first_call) 7 = Some LOOKUP_PAID"
  by (rule durable_random.initiate_paid [OF new_durable_valid first_call_eq])

lemma paid_reachable: "reachable_world random_config (paid_db, snd first_call)"
  using succeeds_eq [OF demo_paid] first_call_authority unfolding paid_db_def
  by (metis demo_db_step called_reachable db_finalize confirmed_def option.inject provider_result.distinct(1))

lemma reclaimed_run:
  "(durable_step random_config)\<^sup>*\<^sup>* (pending_db, new_durable_provider) (reclaimed_db, new_durable_provider)"
  using succeeds_eq [OF demo_reclaimed] unfolding reclaimed_db_def by (metis world_db db_reclaim r_into_rtranclp)

section \<open>An undisturbed request\<close>

definition demo_book :: rate_book where
  "demo_book = \<lparr>rb_snapshot = Some \<lparr>s_version = 1, s_routes = [(EUR, demo_quote)]\<rparr>, rb_task = Publishing\<rparr>"

definition demo_service :: "durable_provider service" where
  "demo_service = \<lparr>sv_initiate = durable_initiate random_config, sv_lookup = durable_lookup,
     sv_others = (\<lambda>k w. w), sv_clock = (\<lambda>k. 1000), sv_lease = 10,
     sv_uuid = (\<lambda>k. demo_entry (200 + 100 * k)), sv_new_id = 7\<rparr>"

definition demo_row :: "string \<Rightarrow> settlement" where
  "demo_row fingerprint = \<lparr>st_id = 7, st_owner = ''demo-customer'', st_key = ''k1'', st_fingerprint = fingerprint,
     st_amount = 25000000000, st_target = EUR, st_route = map hop_json (q_hops demo_quote), st_version = 1,
     st_rate = 91900000, st_quoted = 22975000000, st_operation = 7, st_status = S_RESERVED\<rparr>"

lemma demo_new: "new_settlement 7 ''demo-customer'' ''k1'' fingerprint demo_command demo_quote = Inr (demo_row fingerprint)"
proof -
  have "to_numeric 24 8 (sc_amount demo_command) = Inr 25000000000" "to_numeric 24 8 (q_rate demo_quote) = Inr 91900000"
    "to_numeric 32 8 (dec_mul DEFAULT_CONTEXT (sc_amount demo_command) (q_rate demo_quote)) = Inr 22975000000"
    unfolding demo_command_def demo_quote_def by code_simp+
  then show ?thesis
    by (simp add: new_settlement_def demo_row_def) (simp add: demo_command_def demo_quote_def)
qed

lemma demo_rows_empty: "db_settlements demo_db = []" "db_attempts demo_db = []"
  "map j_id (db_journals demo_db) = [5]" "map p_id (db_postings demo_db) = [6, 7]"
  unfolding demo_db_def by code_simp+

lemma demo_accounts:
  "map_option a_balance (usd_account demo_db (''demo-customer'', AVAILABLE)) = Some 10000000000000"
  "map_option a_balance (usd_account demo_db (''demo-customer'', RESERVED)) = Some 0"
  unfolding demo_db_def by code_simp+

lemma demo_ins: "insert_settlement (demo_row fingerprint) demo_db = Inr (demo_db\<lparr>db_settlements := [demo_row fingerprint]\<rparr>)"
  by (simp add: insert_settlement_Inr demo_row_def demo_rows_empty find_settlement_def int4_fits_def numeric_fits_def)

lemma demo_quiet: "undisturbed demo_service"
  by (simp add: undisturbed_def demo_service_def)

lemma demo_serves: "serves (durable_initiate random_config) durable_lookup durable_authority demo_service"
  by (simp add: serves_def demo_service_def)

lemma demo_readable: "quote_readable demo_quote" "readable_book demo_book"
  by (auto simp: quote_readable_def demo_quote_def readable_book_def demo_book_def quote_def
      split: option.splits if_splits)

lemma demo_fresh: "fresh_pair (sv_uuid demo_service 0) (sv_uuid demo_service 1) demo_db"
proof -
  have "j_id ` set (db_journals demo_db) = {5}" "p_id ` set (db_postings demo_db) = {6, 7}"
    using demo_rows_empty(3,4) by (metis list.set(1,2) list.set_map)+
  then show ?thesis by (simp add: fresh_pair_def fresh_ids_def demo_service_def demo_entry_def)
qed

text \<open>The mock ignores the amounts, so the first request for operation 7 is the demo's first call.\<close>

lemma first_call_any: "durable_initiate random_config 7 a c q new_durable_provider = (Inr PAID, snd first_call)"
  using first_call_eq by (simp add: durable_initiate_def)

lemma demo_quoted: "quote demo_book (sc_target demo_command) = Inr demo_quote"
  by (simp add: quote_def demo_book_def demo_command_def)

lemma demo_created:
  "\<exists>read db'. create demo_service demo_book ''demo-customer'' ''k1'' demo_command (demo_db, new_durable_provider)
      = (Inr read, (db', snd first_call)) \<and> sr_status read = SUCCESS"
proof -
  obtain a b where ab: "usd_account demo_db (''demo-customer'', AVAILABLE) = Some a" "a_balance a = 10000000000000"
    "usd_account demo_db (''demo-customer'', RESERVED) = Some b"
    using demo_accounts by auto
  have ok: "service_ok (durable_authority new_durable_provider) demo_db" and idle: "db_inserted demo_db = []"
    using reachable_ok [OF random_config_ok demo_start] reachable_idle [OF demo_start] by (simp_all add: world_ok_def)
  let ?fp = "request_fingerprint ''demo-customer'' demo_command"
  have none: "find_by_key ''demo-customer'' ''k1'' demo_db = None"
    by (simp add: find_by_key_def demo_rows_empty)
  have new: "new_settlement (sv_new_id demo_service) ''demo-customer'' ''k1'' ?fp demo_command demo_quote = Inr (demo_row ?fp)"
    using demo_new by (simp add: demo_service_def)
  have call: "sv_initiate demo_service (st_id (demo_row ?fp)) (st_amount (demo_row ?fp)) (st_target (demo_row ?fp))
      (st_quoted (demo_row ?fp)) new_durable_provider = (Inr PAID, snd first_call)"
    using first_call_any by (simp add: demo_service_def demo_row_def)
  have "st_amount (demo_row ?fp) \<le> a_balance a" by (simp add: demo_row_def ab(2))
  from create_outcome(2) [OF ok idle demo_quiet none demo_quoted demo_readable(1) new demo_ins ab(1,3) demo_fresh call this]
  show ?thesis by (fastforce simp: result_status_def answer_of_def)
qed

end
