(* ===== verification/Settlement_Properties.thy ===== *)
theory Settlement_Properties
  imports Settlement_Demo
begin

text \<open>
  What holds in every world that the service and the durable provider can reach, by any
  interleaving of transactions and payout requests of any number of tasks and processes.
\<close>

section \<open>Helper lemmas\<close>

lemma reachable_parts:
  assumes "config_ok cfg" and "reachable_world cfg (db, p)"
  shows "ledger_ok db" and "schema_ok db" and "chart_of_accounts db" and "reserved_balances db"
    and "events_match db" and "attempts_match db" and "authorities_match (durable_authority p) db"
    and "service_ok (durable_authority p) db" and "durable_valid p"
  using reachable_ok [OF assms] by (simp_all add: world_ok_def service_ok_def ledger_ok_def)

lemma reachable_run: "reachable_world cfg w \<Longrightarrow> (durable_step cfg)\<^sup>*\<^sup>* w w' \<Longrightarrow> reachable_world cfg w'"
  by (rule rtranclp_induct [of "durable_step cfg" w w']) (auto intro: reach_step)

lemma durable_run_evolves:
  assumes "config_ok cfg" and "reachable_world cfg w" and "(durable_step cfg)\<^sup>*\<^sup>* w w'"
  shows "evolves (fst w) (fst w')"
  using payout_provider.run_evolves [OF durable_contract [OF assms(1)] assms(3) reachable_ok [OF assms(1,2)]] by simp

text \<open>The journals of a settlement, each event at most once.\<close>

definition settlement_journals :: "nat \<Rightarrow> db \<Rightarrow> journal list" where
  "settlement_journals i db = filter (\<lambda>j. j_settlement j = Some i) (db_journals db)"

lemma settlement_journals_distinct:
  assumes "schema_ok db"
  shows "distinct (map j_event (settlement_journals i db))"
proof -
  have "distinct (map (\<lambda>j. (j_settlement j, j_event j)) (settlement_journals i db))"
    using assms distinct_filter_conj [of "\<lambda>j. (j_settlement j, j_event j)" "\<lambda>j. j_settlement j \<noteq> None"
        "db_journals db" "\<lambda>j. j_settlement j = Some i"]
    by (simp add: settlement_journals_def schema_defs conj_commute cong: conj_cong)
  moreover have "map (\<lambda>j. (j_settlement j, j_event j)) (settlement_journals i db)
      = map (Pair (Some i)) (map j_event (settlement_journals i db))"
    by (auto simp: settlement_journals_def)
  ultimately show ?thesis by (metis distinct_map)
qed

lemma ledger_audit:
  assumes "ledger_ok db"
  shows "assert_ledger_invariants [] db = Inr ()"
proof -
  have "side_total DEBIT c (journal_postings i db) = side_total CREDIT c (journal_postings i db)" for i c
  proof (cases "journal_postings i db")
    case Nil
    then show ?thesis by (simp add: side_total_def)
  next
    case (Cons p ps)
    then have "p \<in> set (db_postings db)" "p_journal p = i"
      using list.set_intros(1) [of p ps] by (auto simp: journal_postings_def simp flip: Cons)
    then have "i \<in> j_id ` set (db_journals db)" using assms by (auto simp: ledger_ok_def schema_defs)
    then have "balanced (journal_postings i db)" using assms by (auto simp: ledger_ok_def entries_ok_def)
    then show ?thesis using currency_UNIV by (auto simp: balanced_def list_all_iff)
  qed
  then show ?thesis using assms by (simp add: audit_Inr ledger_ok_def)
qed

section \<open>Money\<close>

text \<open>
  C1: in every reachable world the reserved balance of a customer is exactly the sum of the amounts
  of the customer's unfinished settlements: no reservation leaks and none is released twice.
\<close>

theorem reserved_is_outstanding:
  assumes "config_ok cfg" and "reachable_world cfg (db, p)"
    and "usd_account db (owner, RESERVED) = Some a"
  shows "a_balance a = sum_list (map st_amount
    (filter (\<lambda>s. st_owner s = owner \<and> st_status s \<noteq> SUCCESS \<and> st_status s \<noteq> FAILED) (db_settlements db)))"
proof -
  have "outstanding_total owner ss = sum_list (map st_amount
      (filter (\<lambda>s. st_owner s = owner \<and> st_status s \<noteq> SUCCESS \<and> st_status s \<noteq> FAILED) ss))" for ss
    by (induction ss) (auto simp: outstanding_total_def outstanding_amount_def outstanding_def)
  then show ?thesis using reachable_parts(4) [OF assms(1,2)] assms(3) by (simp add: reserved_balances_def)
qed

theorem reserved_is_outstanding_witness:
  "\<exists>a. usd_account pending_db (''demo-customer'', RESERVED) = Some a \<and> a_balance a = 25000000000 \<and>
     sum_list (map st_amount (filter (\<lambda>s. st_owner s = ''demo-customer'' \<and> st_status s \<noteq> SUCCESS \<and>
       st_status s \<noteq> FAILED) (db_settlements pending_db))) = 25000000000"
  using demo_rows(3) reserved_is_outstanding [OF random_config_ok pending_reachable, of "''demo-customer''"] by auto

text \<open>
  C21: in every reachable world the ledger audit passes, every committed journal is posted and
  balanced, and the USD held for customers is exactly the USD in the omnibus account.
\<close>

theorem reachable_ledger_sound:
  assumes "config_ok cfg" and "reachable_world cfg (db, p)"
  shows "assert_ledger_invariants [] db = Inr () \<and> entries_ok db \<and>
    sum_list (map a_balance (filter (\<lambda>a. a_currency a = USD \<and> a_class a = LIABILITY) (db_accounts db))) =
    sum_list (map a_balance (filter (\<lambda>a. a_currency a = USD \<and> a_class a = ASSET) (db_accounts db)))"
proof -
  have "net_position USD db = 0" using reachable_parts(3) [OF assms] by (simp add: chart_of_accounts_def)
  moreover have "sum_list (map (net_value USD) as) =
      sum_list (map a_balance (filter (\<lambda>a. a_currency a = USD \<and> a_class a = ASSET) as)) -
      sum_list (map a_balance (filter (\<lambda>a. a_currency a = USD \<and> a_class a = LIABILITY) as))" for as
    by (induction as) (auto simp: net_value_def split: account_class.splits)
  moreover have "assert_ledger_invariants [] db = Inr ()"
    using reachable_parts(1) [OF assms] by (rule ledger_audit)
  ultimately show ?thesis using reachable_parts(1) [OF assms] by (simp add: net_position_def ledger_ok_def)
qed

theorem reachable_ledger_sound_witness: "assert_ledger_invariants [] paid_db = Inr ()"
  using reachable_ledger_sound [OF random_config_ok paid_reachable] by simp

text \<open>
  C2: in every reachable world the journals of a settlement are exactly those of its status, each
  event once: a reservation while it is unfinished, a reservation and a consumption when it
  succeeded, a reservation and a release when it failed.
\<close>

theorem journals_follow_status:
  assumes "config_ok cfg" and "reachable_world cfg (db, p)" and "s \<in> set (db_settlements db)"
  shows "distinct (map j_event (settlement_journals (st_id s) db)) \<and>
    set (map j_event (settlement_journals (st_id s) db)) =
      (case st_status s of SUCCESS \<Rightarrow> {RESERVE, CONSUME} | FAILED \<Rightarrow> {RESERVE, RELEASE} | _ \<Rightarrow> {RESERVE})"
proof
  show "distinct (map j_event (settlement_journals (st_id s) db))"
    using settlement_journals_distinct [OF reachable_parts(2) [OF assms(1,2)]] .
  show "set (map j_event (settlement_journals (st_id s) db)) =
      (case st_status s of SUCCESS \<Rightarrow> {RESERVE, CONSUME} | FAILED \<Rightarrow> {RESERVE, RELEASE} | _ \<Rightarrow> {RESERVE})"
    using reachable_parts(5) [OF assms(1,2)] assms(3)
    by (simp add: events_match_def settlement_events_def settlement_journals_def expected_events_def)
qed

theorem journals_follow_status_witness:
  "\<exists>s. s \<in> set (db_settlements paid_db) \<and> st_status s = SUCCESS \<and>
     set (map j_event (settlement_journals (st_id s) paid_db)) = {RESERVE, CONSUME}"
proof -
  obtain s where "s \<in> set (db_settlements paid_db)" "st_status s = SUCCESS"
    using paid_row by blast
  with journals_follow_status [OF random_config_ok paid_reachable this(1)] show ?thesis by auto
qed

text \<open>
  C3: in every reachable world a settlement that succeeded is paid at the provider and one that
  failed is unpaid there: the service never closes a settlement against the provider's authority.
\<close>

theorem final_status_is_authority:
  assumes "config_ok cfg" and "reachable_world cfg (db, p)" and "s \<in> set (db_settlements db)"
  shows "(st_status s = SUCCESS \<longrightarrow> durable_lookup (st_id s) p = Inr LOOKUP_PAID) \<and>
    (st_status s = FAILED \<longrightarrow> durable_lookup (st_id s) p = Inr LOOKUP_UNPAID)"
proof -
  have "durable_lookup i p = Inr x" if "durable_authority p i = Some x" for i x
    using that by (auto simp: durable_lookup_def durable_authority_def)
  then show ?thesis
    using reachable_parts(7) [OF assms(1,2)] assms(3) by (simp add: authorities_match_def)
qed

theorem final_status_is_authority_witness: "durable_lookup 7 (snd first_call) = Inr LOOKUP_PAID"
proof -
  obtain s where s: "s \<in> set (db_settlements paid_db)" "st_status s = SUCCESS" "st_id s = 7"
    using paid_row by blast
  with final_status_is_authority [OF random_config_ok paid_reachable s(1)] show ?thesis by simp
qed

section \<open>Histories\<close>

text \<open>
  C6: from any reachable world on, whatever happens, a settlement keeps its identity, owner, key,
  amounts and route, its status only moves forward, and once it succeeded or failed its row never
  changes again.
\<close>

theorem settlements_only_move_forward:
  assumes "config_ok cfg" and "reachable_world cfg w" and "(durable_step cfg)\<^sup>*\<^sup>* w w'"
    and "find_settlement i (fst w) = Some s"
  shows "\<exists>status. find_settlement i (fst w') = Some (s\<lparr>st_status := status\<rparr>) \<and>
    (status = st_status s \<or> status_rank (st_status s) < status_rank status) \<and>
    (st_status s = SUCCESS \<or> st_status s = FAILED \<longrightarrow> find_settlement i (fst w') = Some s)"
proof -
  obtain status where st: "find_settlement i (fst w') = Some (s\<lparr>st_status := status\<rparr>)" "later (st_status s) status"
    using durable_run_evolves [OF assms(1-3)] assms(4) by (auto simp: evolves_def settlements_evolve_def)
  moreover have "s\<lparr>st_status := st_status s\<rparr> = s" by simp
  ultimately show ?thesis using later_final [OF st(2)] by (auto simp: later_def)
qed

theorem settlements_only_move_forward_witness:
  "\<exists>s status. find_settlement 7 pending_db = Some s \<and> find_settlement 7 reclaimed_db = Some (s\<lparr>st_status := status\<rparr>)"
proof -
  obtain s where s: "find_settlement 7 pending_db = Some s"
    using demo_rows(2) by auto
  from settlements_only_move_forward [OF random_config_ok pending_reachable reclaimed_run, of 7 s] s
  show ?thesis by (simp, blast)
qed

text \<open>
  C5: a superseded task can do nothing: once an attempt has a larger token than the one a task
  holds, a finalization by that task raises \<open>StaleAttemptToken\<close> and changes nothing, in this and in
  every later world, whatever result it brings.
\<close>

theorem stale_token_rejected:
  assumes "config_ok cfg" and "reachable_world cfg w" and "(durable_step cfg)\<^sup>*\<^sup>* w w'"
    and "find_attempt i (fst w) = Some x" and "token < at_token x"
  shows "transact (finalize_attempt now ids i token result) (fst w') = (Inl StaleAttemptToken, fst w')"
proof -
  obtain x' where x': "find_attempt i (fst w') = Some x'" "at_token x \<le> at_token x'"
    using durable_run_evolves [OF assms(1-3)] assms(4) by (auto simp: evolves_def attempts_evolve_def)
  have "schema_ok (fst w')"
    using reachable_parts(2) [OF assms(1), of "fst w'" "snd w'"] reachable_run [OF assms(2,3)] by simp
  then have "i \<in> st_id ` set (db_settlements (fst w'))"
    using x'(1) find_attempt_Some [of "fst w'" i x'] by (auto simp: schema_defs)
  then have "find_settlement i (fst w') \<noteq> None" by (simp only: find_settlement_def find_some_key)
  then show ?thesis using x' assms(5) by (auto simp: finalize_attempt_def transact_def)
qed

theorem stale_token_rejected_witness:
  "transact (finalize_attempt 700 (demo_entry 300) 7 1 (Some PAID)) reclaimed_db = (Inl StaleAttemptToken, reclaimed_db)"
proof -
  obtain x where "find_attempt 7 reclaimed_db = Some x" "at_token x = 2" using demo_rows(4) by auto
  then show ?thesis
    using stale_token_rejected [OF random_config_ok reclaimed_reachable rtranclp.rtrancl_refl, of 7 x 1] by simp
qed

text \<open>How often the status of a settlement changes along a list of worlds.\<close>

fun status_changes :: "nat \<Rightarrow> settlement_status \<Rightarrow> 'p world list \<Rightarrow> nat" where
  "status_changes i status [] = 0"
| "status_changes i status (w # ws) =
     (case find_settlement i (fst w) of
        None \<Rightarrow> status_changes i status ws
      | Some s \<Rightarrow> (if st_status s = status then 0 else 1) + status_changes i (st_status s) ws)"

text \<open>Consecutive worlds of a run.\<close>

fun chain :: "('s \<Rightarrow> 's \<Rightarrow> bool) \<Rightarrow> 's \<Rightarrow> 's list \<Rightarrow> bool" where
  "chain step w [] = True"
| "chain step w (w' # ws) = (step\<^sup>*\<^sup>* w w' \<and> chain step w' ws)"

lemma status_changes_rank:
  assumes "config_ok cfg" and "reachable_world cfg w" and "chain (durable_step cfg) w ws"
    and "find_settlement i (fst w) = Some s"
  shows "status_changes i (st_status s) ws + status_rank (st_status s) \<le> 3"
  using assms(2-4)
proof (induction ws arbitrary: w s)
  case Nil
  then show ?case by (cases "st_status s") (simp_all add: status_rank_def)
next
  case (Cons w' ws)
  then have run: "(durable_step cfg)\<^sup>*\<^sup>* w w'" and rest: "chain (durable_step cfg) w' ws" by simp_all
  obtain status where st: "find_settlement i (fst w') = Some (s\<lparr>st_status := status\<rparr>)" "later (st_status s) status"
    using durable_run_evolves [OF assms(1) Cons.prems(1) run] Cons.prems(3)
    by (auto simp: evolves_def settlements_evolve_def)
  have "status_changes i status ws + status_rank status \<le> 3"
    using Cons.IH [OF reachable_run [OF Cons.prems(1) run] rest st(1)] by simp
  with st show ?case by (auto simp: later_def)
qed

text \<open>
  The status of a settlement changes at most three times in any run, so no settlement moves
  through the states forever.
\<close>

lemma statuses_settle:
  assumes "config_ok cfg" and "reachable_world cfg w" and "chain (durable_step cfg) w ws"
    and "find_settlement i (fst w) = Some s"
  shows "status_changes i (st_status s) ws \<le> 3 - status_rank (st_status s)"
  using status_changes_rank [OF assms] by simp

section \<open>Refinement\<close>

text \<open>
  C13: the service implements the abstract machine: from a correct database every transaction of
  the service (a submission, a claim, a takeover, a batch of claims, a finalization with a result
  the provider stands for, a seed) is a sequence of abstract steps, each of which submits one
  settlement with its reservation, advances one attempt, finishes one settlement with its one
  movement, or commits; a transaction that raises is the empty sequence.
\<close>

theorem transactions_refine_machine:
  assumes "service_ok auth db" and "db_step auth db db'"
  shows "(abstract_step auth)\<^sup>*\<^sup>* db db'"
  using db_step_run assms by blast

theorem transactions_refine_machine_witness:
  "(abstract_step (durable_authority new_durable_provider))\<^sup>*\<^sup>* claimed_db pending_db"
proof -
  have "db_step (durable_authority new_durable_provider) claimed_db pending_db"
    using succeeds_eq [OF demo_pending] unfolding pending_db_def
    by (metis db_finalize confirmed_def option.distinct(1))
  with transactions_refine_machine reachable_parts(8) [OF random_config_ok claimed_reachable] show ?thesis by blast
qed

text \<open>
  C14: the handlers implement the world: from a reachable world \<open>create\<close>, \<open>reconcile\<close>, a pass of the
  worker and its loop lead to reachable worlds, whatever other tasks do at their awaits, and
  whether they return or raise; so every invariant of the reachable worlds holds for the coroutines.
\<close>

theorem handlers_stay_reachable:
  assumes "config_ok cfg" and "reachable_world cfg w" and "readable_book rates"
    and "\<And>k. serves (durable_initiate cfg) durable_lookup durable_authority (per_task k)"
    and "serves (durable_initiate cfg) durable_lookup durable_authority sv"
  shows "reachable_world cfg (snd (create sv rates owner key command w)) \<and>
    reachable_world cfg (snd (reconcile sv i w)) \<and>
    reachable_world cfg (snd (run_reconciliation_once per_task sv locked limit w)) \<and>
    reachable_world cfg (reconciliation_loop (\<lambda>n. run_reconciliation_once per_task sv locked limit) passes w)"
proof -
  note c = durable_contract [OF assms(1)] and ok = reachable_ok [OF assms(1,2)]
  note reach = reachable_run [OF assms(2)]
  have 1: "reachable_world cfg (snd (create sv rates owner key command w))"
    by (rule reach, rule payout_provider.create_run [OF c assms(5) ok assms(3)], rule prod.collapse [symmetric])
  have 2: "reachable_world cfg (snd (reconcile sv i w))"
    by (rule reach, rule payout_provider.reconcile_run [OF c assms(5) ok], rule prod.collapse [symmetric])
  have 3: "reachable_world cfg (snd (run_reconciliation_once per_task sv locked limit w))"
    by (rule reach, rule payout_provider.run_reconciliation_once_run [OF c assms(4) ok], rule prod.collapse [symmetric])
  have 4: "reachable_world cfg (reconciliation_loop (\<lambda>n. run_reconciliation_once per_task sv locked limit) passes w)"
  proof (rule reach, rule payout_provider.reconciliation_loop_run [OF c _ ok])
    fix k :: nat and v r v'
    assume "world_ok durable_authority durable_valid v" "run_reconciliation_once per_task sv locked limit v = (r, v')"
    then show "(durable_step cfg)\<^sup>*\<^sup>* v v'" by (rule payout_provider.run_reconciliation_once_run [OF c assms(4)])
  qed
  show ?thesis by (intro conjI 1 2 3 4)
qed

theorem handlers_stay_reachable_witness:
  "reachable_world random_config (snd (reconcile demo_service 7 (pending_db, new_durable_provider)))"
  using handlers_stay_reachable [OF random_config_ok pending_reachable demo_readable(2),
      of "\<lambda>k. demo_service" demo_service] demo_serves by blast

end
