(* ===== verification/Service_Properties.thy ===== *)
theory Service_Properties
  imports Settlement_Properties
begin

text \<open>
  What a caller of the service gets: the outcome of a finalization, of an undisturbed \<open>create\<close> and
  \<open>reconcile\<close>, and the answers of requests under one idempotency key, disturbed in any way.
\<close>

section \<open>Outcomes\<close>

text \<open>
  C7: a finalization under the current token never fails for lack of money or of room in a column:
  in every reachable world it finishes an unfinished settlement with the status of the result, and
  takes the amount out of the reservation and the omnibus (paid), gives it back to the customer
  (unpaid), or leaves all balances as they were.
\<close>

theorem finalization_succeeds:
  assumes "config_ok cfg" and "reachable_world cfg (db, p)"
    and "find_settlement i db = Some s" and "st_status s \<noteq> SUCCESS" and "st_status s \<noteq> FAILED"
    and "find_attempt i db = Some x" and "fresh_ids ids db"
  shows "\<exists>read db'. transact (finalize_attempt now ids i (at_token x) result) db = (Inr read, db') \<and>
    sr_status read = result_status result \<and>
    find_settlement i db' = Some (s\<lparr>st_status := result_status result\<rparr>) \<and>
    (\<forall>k. balance db' k = map_option (\<lambda>b. b + balance_change s (result_status result) k) (balance db k))"
proof -
  have idle: "db_inserted db = []" using reachable_idle [OF assms(2)] by simp
  have out: "outstanding (st_status s)" using assms(4,5) by (simp add: outstanding_def)
  show ?thesis
    by (rule finalize_outcome [OF reachable_parts(8) [OF assms(1,2)] idle assms(3,6) out assms(7), of now result]) blast
qed

lemma claimed_row: "\<exists>s x. find_settlement 7 claimed_db = Some s \<and> st_status s = PAYOUT_IN_PROGRESS \<and>
    find_attempt 7 claimed_db = Some x \<and> at_token x = 1"
proof -
  have "map_option st_status (find_settlement 7 claimed_db) = Some PAYOUT_IN_PROGRESS"
    and "map_option at_token (find_attempt 7 claimed_db) = Some 1"
    unfolding demo_dbs by code_simp+
  then show ?thesis by auto
qed

lemma claimed_fresh: "fresh_ids (demo_entry 300) claimed_db"
  unfolding demo_dbs fresh_ids_def demo_entry_def by code_simp

theorem finalization_succeeds_witness:
  "\<exists>read db'. transact (finalize_attempt 500 (demo_entry 300) 7 1 (Some UNPAID)) claimed_db = (Inr read, db') \<and>
     sr_status read = FAILED"
proof -
  obtain s x where r: "find_settlement 7 claimed_db = Some s" "st_status s = PAYOUT_IN_PROGRESS"
    "find_attempt 7 claimed_db = Some x" "at_token x = 1"
    using claimed_row by blast
  then show ?thesis
    using finalization_succeeds [OF random_config_ok claimed_reachable r(1) _ _ r(3) claimed_fresh, of 500 "Some UNPAID"]
    by (auto simp: result_status_def)
qed

text \<open>
  C8: an undisturbed request under a new key, for which the book has a quote and the schema a row:
  with too little money it raises \<open>InsufficientFunds\<close> and changes nothing; otherwise it answers the
  new settlement with the status that the provider's answer asks for (paid: \<open>SUCCESS\<close>, unpaid:
  \<open>FAILED\<close>, an ambiguous answer or any exception: \<open>PENDING_RECONCILIATION\<close>), and the balances
  change by the reservation and then by that status.
\<close>

theorem create_undisturbed:
  assumes "config_ok cfg" and "reachable_world cfg (db, p)" and "undisturbed sv"
    and "find_by_key owner key db = None"
    and "quote rates (sc_target command) = Inr q" and "quote_readable q"
    and "new_settlement (sv_new_id sv) owner key (request_fingerprint owner command) command q = Inr s"
    and "insert_settlement s db = Inr mid"
    and "usd_account db (owner, AVAILABLE) = Some a" and "usd_account db (owner, RESERVED) = Some b"
    and "fresh_pair (sv_uuid sv 0) (sv_uuid sv 1) db"
    and "sv_initiate sv (st_id s) (st_amount s) (st_target s) (st_quoted s) p = (r, p')"
  shows "if a_balance a < st_amount s then create sv rates owner key command (db, p) = (Inl InsufficientFunds, (db, p))
    else \<exists>read db'. create sv rates owner key command (db, p) = (Inr read, (db', p')) \<and>
      sr_status read = result_status (answer_of r) \<and> sr_id read = sv_new_id sv \<and>
      find_settlement (sv_new_id sv) db' = Some (s\<lparr>st_status := result_status (answer_of r)\<rparr>) \<and>
      (\<forall>k. balance db' k = map_option (\<lambda>n. n + reserve_change s k + balance_change s (result_status (answer_of r)) k)
         (balance db k))"
proof -
  have idle: "db_inserted db = []" using reachable_idle [OF assms(2)] by simp
  note out = create_outcome [OF reachable_parts(8) [OF assms(1,2)] idle assms(3-12)]
  show ?thesis using out by (cases "a_balance a < st_amount s") auto
qed

theorem create_undisturbed_witness:
  "fst (create (demo_service\<lparr>sv_initiate := (\<lambda>i a c q p. (Inl PayoutTimeout, p))\<rparr>) demo_book ''demo-customer'' ''k1''
     demo_command (demo_db, new_durable_provider)) \<noteq> Inl InsufficientFunds"
proof -
  obtain a b where ab: "usd_account demo_db (''demo-customer'', AVAILABLE) = Some a" "a_balance a = 10000000000000"
    "usd_account demo_db (''demo-customer'', RESERVED) = Some b"
    using demo_accounts by auto
  let ?sv = "demo_service\<lparr>sv_initiate := (\<lambda>i a c q p. (Inl PayoutTimeout, p))\<rparr>"
    and ?fp = "request_fingerprint ''demo-customer'' demo_command"
  have sv: "undisturbed ?sv" "sv_new_id ?sv = 7" "sv_uuid ?sv = sv_uuid demo_service"
    by (simp_all add: undisturbed_def demo_service_def)
  have none: "find_by_key ''demo-customer'' ''k1'' demo_db = None" by (simp add: find_by_key_def demo_rows_empty)
  have new: "new_settlement (sv_new_id ?sv) ''demo-customer'' ''k1'' ?fp demo_command demo_quote = Inr (demo_row ?fp)"
    using demo_new sv(2) by simp
  have call: "sv_initiate ?sv (st_id (demo_row ?fp)) (st_amount (demo_row ?fp)) (st_target (demo_row ?fp))
      (st_quoted (demo_row ?fp)) new_durable_provider = (Inl PayoutTimeout, new_durable_provider)" by simp
  have fresh: "fresh_pair (sv_uuid ?sv 0) (sv_uuid ?sv 1) demo_db" using demo_fresh sv(3) by simp
  have "\<not> a_balance a < st_amount (demo_row ?fp)" by (simp add: demo_row_def ab(2))
  with create_undisturbed [OF random_config_ok demo_start sv(1) none demo_quoted demo_readable(1) new demo_ins
      ab(1,3) fresh call]
  show ?thesis by auto
qed

text \<open>
  C15: an undisturbed reconciliation of a waiting settlement, whose attempt is free, finishes it
  with what the provider's lookup says: paid is \<open>SUCCESS\<close>, unpaid is \<open>FAILED\<close>, an operation the
  provider does not know is requested again and gets the status of that answer, and an unknown
  one stays \<open>PENDING_RECONCILIATION\<close>.
\<close>

theorem reconcile_undisturbed:
  assumes "config_ok cfg" and "reachable_world cfg (db, p)" and "undisturbed sv"
    and "find_settlement i db = Some s" and "reconcilable (st_status s)"
    and "find_attempt i db = Some x" and "at_state x \<noteq> CLAIMED \<or> at_lease x \<le> sv_clock sv 4"
    and "int8_fits (at_token x + 1)" and "sv_lookup sv i p = Inr l"
    and "sv_initiate sv i (st_amount s) (st_target s) (st_quoted s) p = (r, p')"
    and "fresh_ids (sv_uuid sv 2) db"
  shows "\<exists>read db'. reconcile sv i (db, p) = (Inr read, (db', if l = NOT_FOUND then p' else p)) \<and>
    sr_status read = result_status (lookup_answer l r) \<and>
    find_settlement i db' = Some (s\<lparr>st_status := result_status (lookup_answer l r)\<rparr>) \<and>
    (\<forall>k. balance db' k = map_option (\<lambda>b. b + balance_change s (result_status (lookup_answer l r)) k) (balance db k))"
proof -
  have idle: "db_inserted db = []" using reachable_idle [OF assms(2)] by simp
  show ?thesis by (rule reconcile_outcome [OF reachable_parts(8) [OF assms(1,2)] idle assms(3-11)]) blast
qed

lemma pending_row: "\<exists>s x. find_settlement 7 pending_db = Some s \<and> st_status s = PENDING_RECONCILIATION \<and>
    find_attempt 7 pending_db = Some x \<and> at_state x = RECONCILING \<and> at_token x = 1"
proof -
  have "map_option st_status (find_settlement 7 pending_db) = Some PENDING_RECONCILIATION"
    and "map_option (\<lambda>x. (at_state x, at_token x)) (find_attempt 7 pending_db) = Some (RECONCILING, 1)"
    unfolding demo_dbs by code_simp+
  then show ?thesis by auto
qed

lemma pending_fresh: "fresh_ids (demo_entry 400) pending_db"
  unfolding demo_dbs fresh_ids_def demo_entry_def by code_simp

theorem reconcile_undisturbed_witness:
  "\<exists>read w. reconcile demo_service 7 (pending_db, new_durable_provider) = (Inr read, w) \<and> sr_status read = SUCCESS"
proof -
  obtain s x where r: "find_settlement 7 pending_db = Some s" "st_status s = PENDING_RECONCILIATION"
    "find_attempt 7 pending_db = Some x" "at_state x = RECONCILING" "at_token x = 1"
    using pending_row by blast
  have "sv_lookup demo_service 7 new_durable_provider = Inr NOT_FOUND"
    by (simp add: demo_service_def durable_lookup_def find_operation_def new_durable_provider_def)
  moreover have "sv_initiate demo_service 7 (st_amount s) (st_target s) (st_quoted s) new_durable_provider
      = (Inr PAID, snd first_call)" using first_call_any by (simp add: demo_service_def)
  moreover have "fresh_ids (sv_uuid demo_service 2) pending_db" using pending_fresh by (simp add: demo_service_def)
  ultimately show ?thesis
    using reconcile_undisturbed [OF random_config_ok pending_reachable demo_quiet r(1) _ r(3)] r(2,4,5)
    by (fastforce simp: reconcilable_def int8_fits_def lookup_answer_def answer_of_def result_status_def)
qed

section \<open>Failure\<close>

text \<open>A submission that commits leaves the settlement ready to be paid.\<close>

lemma submitted_succeeds:
  assumes ok: "service_ok auth db" and idle: "db_inserted db = []"
    and sub: "transact (submit ids i owner key fingerprint command q) db = (Inr (), db1)"
    and fresh: "fresh_pair ids ids' db"
  obtains s where "find_settlement i db1 = Some s" and "st_status s = S_RESERVED" and "fresh_ids ids' db1"
proof -
  obtain s mid mid2 where new: "new_settlement i owner key fingerprint command q = Inr s"
    and ins: "insert_settlement s db = Inr mid" and res: "reserve ids s mid = Inr mid2"
    using sub by (auto simp: transact_Inr submit_def bind_result_eq_Inr)
  have "schema_ok mid" using schema_insert_settlement [OF service_schema [OF ok] ins] .
  then have acc: "accounts_ok mid" by (simp add: schema_ok_def)
  have u: "usd_account mid = usd_account db" using ins by (simp add: insert_settlement_Inr)
  note f = new_settlement_fields [OF new]
  have ne: "(owner, AVAILABLE) \<noteq> (owner, RESERVED)" by simp
  obtain a r where a: "usd_account db (owner, AVAILABLE) = Some a" "usd_account db (owner, RESERVED) = Some r"
    and rich: "st_amount s \<le> a_balance a"
    using res unfolding reserve_def f(2) post_Inr [OF acc ne] u by blast
  have "fresh_ids ids db" using fresh by (simp add: fresh_pair_def)
  then obtain db2 where "transact (submit ids i owner key fingerprint command q) db = (Inr (), db2)"
    "find_settlement i db2 = Some s" "\<forall>ids'. fresh_pair ids ids' db \<longrightarrow> fresh_ids ids' db2"
    by (rule submit_succeeds [OF ok idle new ins a rich]) blast
  with sub fresh f(5) that show ?thesis by auto
qed

text \<open>
  C9: \<open>create\<close> is all or nothing: if an undisturbed request raises anything (no quote, too little money,
  a conflicting key, a row the schema refuses), then neither the database nor the provider has
  changed; after the reservation is committed it cannot fail any more.
\<close>

theorem failed_create_changes_nothing:
  assumes "config_ok cfg" and "reachable_world cfg (db, p)" and "undisturbed sv" and "readable_book rates"
    and "fresh_pair (sv_uuid sv 0) (sv_uuid sv 1) db"
    and "create sv rates owner key command (db, p) = (Inl e, w')"
  shows "w' = (db, p)"
proof -
  have idle: "db_inserted db = []" using reachable_idle [OF assms(2)] by simp
  note ok = reachable_parts(8) [OF assms(1,2)]
  have quiet: "sv_others sv k w = w" for k w using assms(3) unfolding undisturbed_def by blast
  have pays: "\<exists>read. fst (pay_reserved sv i (db1, p)) = Inr read"
    if db1: "service_ok (durable_authority p) db1" "db_inserted db1 = []" "find_settlement i db1 = Some s"
      "st_status s = S_RESERVED" "fresh_ids (sv_uuid sv 1) db1" for i s db1
  proof -
    obtain r p' where "sv_initiate sv i (st_amount s) (st_target s) (st_quoted s) p = (r, p')" by (metis surj_pair)
    then show ?thesis by (rule pay_reserved_outcome [OF db1(1,2) assms(3) db1(3,4) _ db1(5)]) simp
  qed
  show ?thesis
  proof (cases "find_by_key owner key db")
    case (Some s)
    then have res: "resume sv s (request_fingerprint owner command) (db, p) = (Inl e, w')"
      using assms(6) by (simp add: create_def quiet)
    show ?thesis
    proof (cases "st_status s = S_RESERVED")
      case True
      have "find_settlement (st_id s) db = Some s" using find_by_key_row [OF service_schema [OF ok] Some] by simp
      from pays [OF ok idle this True] assms(5) show ?thesis
        using res True by (fastforce simp: resume_def fresh_pair_def split: sum.splits)
    next
      case False
      with res show ?thesis by (auto simp: resume_def split: sum.splits)
    qed
  next
    case None
    show ?thesis
    proof (cases "quote rates (sc_target command)")
      case (Inl _)
      with None assms(6) show ?thesis by (simp add: create_def quiet)
    next
      case (Inr q)
      obtain r db1 where sub: "transact (submit (sv_uuid sv 0) (sv_new_id sv) owner key
          (request_fingerprint owner command) command q) db = (r, db1)" by (metis surj_pair)
      show ?thesis
      proof (cases r)
        case (Inl e1)
        then have "db1 = db" using sub transact_Inl by (metis fst_conv snd_conv)
        then show ?thesis using assms(6) None Inr sub Inl
          by (auto simp: create_def quiet in_session_def split: if_splits)
      next
        case r: (Inr u)
        then have tr: "transact (submit (sv_uuid sv 0) (sv_new_id sv) owner key
          (request_fingerprint owner command) command q) db = (Inr (), db1)" using sub by simp
        have ok1: "service_ok (durable_authority p) db1"
          by (rule service_ok_step [OF db_submit [OF quoted_readable [OF assms(4) Inr] tr] ok])
        obtain s where "find_settlement (sv_new_id sv) db1 = Some s" "st_status s = S_RESERVED"
          "fresh_ids (sv_uuid sv 1) db1"
          by (rule submitted_succeeds [OF ok idle tr assms(5)])
        with pays [OF ok1 transact_idle [OF tr idle]] obtain read where
          "fst (pay_reserved sv (sv_new_id sv) (db1, p)) = Inr read" by blast
        then show ?thesis using assms(6) create_fresh(1) [OF None Inr assms(3) tr] by simp
      qed
    qed
  qed
qed

theorem failed_create_changes_nothing_witness:
  "create demo_service demo_book ''demo-customer'' ''k1'' (demo_command\<lparr>sc_target := PHP\<rparr>) (demo_db, new_durable_provider)
     = (Inl (RateError (RouteNotFound PHP)), (demo_db, new_durable_provider))"
proof -
  have "find_by_key ''demo-customer'' ''k1'' demo_db = None" by (simp add: find_by_key_def demo_rows_empty)
  then obtain w' where c: "create demo_service demo_book ''demo-customer'' ''k1'' (demo_command\<lparr>sc_target := PHP\<rparr>)
      (demo_db, new_durable_provider) = (Inl (RateError (RouteNotFound PHP)), w')"
    by (simp add: create_def quote_def demo_book_def demo_command_def)
  with failed_create_changes_nothing [OF random_config_ok demo_start demo_quiet demo_readable(2) demo_fresh c]
  show ?thesis by simp
qed

section \<open>Idempotency\<close>

lemma keyed_unique:
  assumes "schema_ok db" and "keyed owner key fp i db" and "keyed owner key fp' j db"
  shows "i = j \<and> fp = fp'"
proof -
  obtain s t where st: "s \<in> set (db_settlements db)" "st_id s = i" "st_fingerprint s = fp" "st_owner s = owner" "st_key s = key"
    "t \<in> set (db_settlements db)" "st_id t = j" "st_fingerprint t = fp'" "st_owner t = owner" "st_key t = key"
    using assms by (auto simp: keyed_def find_settlement_Some)
  have "distinct (map (\<lambda>s. (st_owner s, st_key s)) (db_settlements db))" using assms(1) by (simp add: schema_defs)
  then have "s = t" by (rule distinct_key_eq) (use st in simp_all)
  with st show ?thesis by simp
qed

lemma answers_agree:
  assumes "answers i a db" and "answers i b db"
  shows "sr_id a = sr_id b \<and> sr_amount a = sr_amount b \<and> sr_target a = sr_target b \<and> sr_quoted a = sr_quoted b"
proof -
  obtain s x y where "from_orm_settlement (s\<lparr>st_status := x\<rparr>) = Inr a" "from_orm_settlement (s\<lparr>st_status := y\<rparr>) = Inr b"
    using assms by (auto simp: answers_def)
  from orm_fields [OF this(1)] orm_fields [OF this(2)] show ?thesis by simp
qed

text \<open>
  Whatever else happens, an answer of \<open>create\<close> is the one stored settlement of the owner's key:
  that settlement carries the fingerprint of this request, and the answer shows its id, amount,
  target, quote and route, with its present or an earlier status.
\<close>

lemma create_answers_its_settlement:
  assumes "config_ok cfg" and "reachable_world cfg w" and "readable_book rates"
    and "serves (durable_initiate cfg) durable_lookup durable_authority sv"
    and "create sv rates owner key command w = (Inr read, w')"
  shows "\<exists>s status. find_settlement (sr_id read) (fst w') = Some s \<and> st_owner s = owner \<and> st_key s = key \<and>
    st_fingerprint s = request_fingerprint owner command \<and>
    from_orm_settlement (s\<lparr>st_status := status\<rparr>) = Inr read \<and> later status (st_status s)"
proof -
  note c = durable_contract [OF assms(1)] and ok = reachable_ok [OF assms(1,2)]
  obtain i where i: "keyed owner key (request_fingerprint owner command) i (fst w')" "answers i read (fst w')"
    using payout_provider.create_answers [OF c assms(4) ok assms(3,5)] by blast
  have run_ok: "world_ok durable_authority durable_valid w'"
    using payout_provider.run_ok [OF c payout_provider.create_run [OF c assms(4) ok assms(3,5)] ok] .
  then have sch: "schema_ok (fst w')" using service_schema by (auto simp: world_ok_def)
  obtain s status where s: "find_settlement i (fst w') = Some s"
    "from_orm_settlement (s\<lparr>st_status := status\<rparr>) = Inr read" "later status (st_status s)"
    using i(2) by (auto simp: answers_def)
  have "sr_id read = i" using orm_fields(1) [OF s(2)] s(1) find_settlement_Some [OF sch] by simp
  with s i(1) show ?thesis by (auto simp: keyed_def)
qed

text \<open>
  C10: a key identifies one settlement for good: after a request was answered, every later request
  under the same owner and key, whatever happened in between and happens meanwhile, answers the
  same settlement if it has the same fingerprint, and raises \<open>IdempotencyConflict\<close> otherwise.
\<close>

theorem key_identifies_settlement:
  assumes "config_ok cfg" and "reachable_world cfg w" and "readable_book rates" and "readable_book rates'"
    and "serves (durable_initiate cfg) durable_lookup durable_authority sv"
    and "serves (durable_initiate cfg) durable_lookup durable_authority sv'"
    and "create sv rates owner key command w = (Inr read, w1)" and "(durable_step cfg)\<^sup>*\<^sup>* w1 w2"
    and "create sv' rates' owner key command' w2 = (r, w3)"
  shows "if request_fingerprint owner command' = request_fingerprint owner command
    then \<forall>read'. r = Inr read' \<longrightarrow> sr_id read' = sr_id read \<and> sr_amount read' = sr_amount read \<and>
      sr_target read' = sr_target read \<and> sr_quoted read' = sr_quoted read
    else r = Inl IdempotencyConflict"
proof -
  let ?fp = "request_fingerprint owner command"
  note c = durable_contract [OF assms(1)] and ok = reachable_ok [OF assms(1,2)]
  obtain i where i: "keyed owner key ?fp i (fst w1)" "answers i read (fst w1)"
    using payout_provider.create_answers [OF c assms(5) ok assms(3,7)] by blast
  have ok1: "world_ok durable_authority durable_valid w1"
    using payout_provider.run_ok [OF c payout_provider.create_run [OF c assms(5) ok assms(3,7)] ok] .
  have ok2: "world_ok durable_authority durable_valid w2" using payout_provider.run_ok [OF c assms(8) ok1] .
  have k2: "keyed owner key ?fp i (fst w2)" using payout_provider.run_keeps(2) [OF c assms(8) ok1 i(1)] .
  have sch: "schema_ok (fst v)" if "world_ok durable_authority durable_valid v" for v
    using that service_schema by (auto simp: world_ok_def)
  show ?thesis
  proof (cases "request_fingerprint owner command' = ?fp")
    case False
    obtain s where s: "find_settlement i (fst w2) = Some s" "st_owner s = owner" "st_key s = key" "st_fingerprint s = ?fp"
      using k2 by (auto simp: keyed_def)
    then have row: "s \<in> set (db_settlements (fst w2))" using find_settlement_Some [OF sch [OF ok2]] by simp
    have "distinct (map (\<lambda>s. (st_owner s, st_key s)) (db_settlements (fst w2)))"
      using sch [OF ok2] by (simp add: schema_defs)
    then have "find_by_key owner key (fst w2) = Some s"
      unfolding find_by_key_def by (rule find_key_unique) (use row s in simp_all)
    with False s assms(9) show ?thesis
      by (auto simp: create_def resume_def check_fingerprint_def guard_result_def)
  next
    case True
    have "sr_id read' = sr_id read \<and> sr_amount read' = sr_amount read \<and>
      sr_target read' = sr_target read \<and> sr_quoted read' = sr_quoted read" if r: "r = Inr read'" for read'
    proof -
      have second: "create sv' rates' owner key command' w2 = (Inr read', w3)" using assms(9) r by simp
      have run3: "(durable_step cfg)\<^sup>*\<^sup>* w2 w3" by (rule payout_provider.create_run [OF c assms(6) ok2 assms(4) second])
      have ok3: "world_ok durable_authority durable_valid w3" using payout_provider.run_ok [OF c run3 ok2] .
      obtain j where j: "keyed owner key ?fp j (fst w3)" "answers j read' (fst w3)"
        using payout_provider.create_answers [OF c assms(6) ok2 assms(4) second] True by auto
      have "keyed owner key ?fp i (fst w3)" using payout_provider.run_keeps(2) [OF c run3 ok2 k2] .
      then have ij: "j = i" using keyed_unique [OF sch [OF ok3] j(1)] by blast
      have "answers i read (fst w3)"
        using payout_provider.run_keeps(1) [OF c run3 ok2] payout_provider.run_keeps(1) [OF c assms(8) ok1 i(2)] by blast
      with j(2) ij show ?thesis using answers_agree by blast
    qed
    then show ?thesis unfolding if_P [OF True] by blast
  qed
qed

theorem key_identifies_settlement_witness:
  "\<exists>read w1. create demo_service demo_book ''demo-customer'' ''k1'' demo_command (demo_db, new_durable_provider)
      = (Inr read, w1) \<and>
     (\<forall>read' w3. create demo_service demo_book ''demo-customer'' ''k1'' demo_command w1 = (Inr read', w3) \<longrightarrow>
        sr_id read' = sr_id read)"
proof -
  obtain read w1 where c: "create demo_service demo_book ''demo-customer'' ''k1'' demo_command
      (demo_db, new_durable_provider) = (Inr read, w1)" using demo_created by blast
  have "\<forall>read' w3. create demo_service demo_book ''demo-customer'' ''k1'' demo_command w1 = (Inr read', w3) \<longrightarrow>
      sr_id read' = sr_id read"
  proof (intro allI impI)
    fix read' w3
    assume "create demo_service demo_book ''demo-customer'' ''k1'' demo_command w1 = (Inr read', w3)"
    from key_identifies_settlement [OF random_config_ok demo_start demo_readable(2) demo_readable(2)
        demo_serves demo_serves c rtranclp.rtrancl_refl this]
    show "sr_id read' = sr_id read" by simp
  qed
  with c show ?thesis by blast
qed

end
