(* ===== verification/Provider_Stores.thy ===== *)
theory Provider_Stores
  imports Provider_Contract
begin

text \<open>
  The two stores of the mock provider compared: as long as no request is repeated, the dictionary
  and the table answer alike.  And what the reconciliation worker needs beside the contract: a
  request settles the operation it is for and no other.
\<close>

section \<open>A provider that decides\<close>

definition decided :: "app_error + provider_lookup \<Rightarrow> bool" where
  "decided l \<longleftrightarrow> l = Inr LOOKUP_PAID \<or> l = Inr LOOKUP_UNPAID"

locale deciding_provider = payout_provider +
  assumes lookup_known: "valid p \<Longrightarrow> lookup i p = Inr NOT_FOUND \<or> decided (lookup i p)"
    and initiate_decides: "valid p \<Longrightarrow> lookup i p = Inr NOT_FOUND \<Longrightarrow> initiate i a c q p = (r, p') \<Longrightarrow>
      decided (lookup i p')"
    and initiate_only: "initiate i a c q p = (r, p') \<Longrightarrow> j \<noteq> i \<Longrightarrow> lookup j p' = lookup j p"

text \<open>The default mode gives every operation an authority at its first request.\<close>

definition default_mode :: "provider_config \<Rightarrow> bool" where
  "default_mode cfg \<longleftrightarrow> \<not> pc_load_mode cfg \<and> pc_outcomes cfg = []"

lemma default_config: "default_mode cfg \<Longrightarrow> config_ok cfg"
  by (simp add: default_mode_def config_ok_def)

lemma outcome_shape:
  "outcome_for_position cfg n = Inr (sub, auth, out) \<Longrightarrow> out \<longleftrightarrow> sub = None"
  by (auto simp: outcome_for_position_def split: if_splits provider_lookup.splits)

lemma default_outcome:
  assumes "default_mode cfg"
  obtains sub auth out where "outcome_for_position cfg n = Inr (sub, auth, out)"
    and "auth = LOOKUP_PAID \<or> auth = LOOKUP_UNPAID"
proof -
  have "\<exists>sub auth out. outcome_for_position cfg n = Inr (sub, auth, out) \<and> (auth = LOOKUP_PAID \<or> auth = LOOKUP_UNPAID)"
    using assms by (auto simp: default_mode_def outcome_for_position_def ambiguous_authority_def)
  with that show ?thesis by blast
qed

text \<open>The three things a request can do to the table.\<close>

lemma durable_replay:
  "find_operation i p = Some x \<Longrightarrow> snd (durable_initiate cfg i a c q p) = p\<lparr>dp_next := dp_next p + 1\<rparr>"
  by (simp add: durable_initiate_def durable_outcome_def Let_def split: sum.split)

lemma durable_refused:
  "find_operation i p = None \<Longrightarrow> outcome_for_position cfg (dp_next p - 1) = Inl e \<Longrightarrow>
     durable_initiate cfg i a c q p = (Inl e, p\<lparr>dp_next := dp_next p + 1\<rparr>)"
  by (simp add: durable_initiate_def durable_outcome_def Let_def)

lemma durable_new:
  assumes "find_operation i p = None" and o: "outcome_for_position cfg (dp_next p - 1) = Inr (sub, auth, out)"
  obtains x where "durable_initiate cfg i a c q p = (submission_of (sub, auth, out),
      p\<lparr>dp_next := dp_next p + 1, dp_operations := dp_operations p @ [x]\<rparr>)"
    and "op_id x = i" and "op_authority x = auth" and "read_operation x = Inr (sub, auth, out)"
proof -
  define x where "x = \<lparr>op_id = i, op_ordinal = dp_next p,
      op_submission = (if out then TIMEOUT else Submitted (the sub)), op_authority = auth,
      op_reference = provider_reference i\<rparr>"
  have read: "read_operation x = Inr (sub, auth, out)"
    using outcome_shape [OF o] by (auto simp: x_def read_operation_def)
  then have "durable_initiate cfg i a c q p = (submission_of (sub, auth, out),
      p\<lparr>dp_next := dp_next p + 1, dp_operations := dp_operations p @ [x]\<rparr>)"
    using assms outcome_shape [OF o] by (auto simp: durable_initiate_def durable_outcome_def Let_def x_def)
  with that [of x] read show ?thesis by (simp add: x_def)
qed

lemma durable_only:
  assumes "durable_initiate cfg i a c q p = (r, p')" and "j \<noteq> i"
  shows "find_operation j p' = find_operation j p"
proof (cases "find_operation i p")
  case (Some x)
  with assms durable_replay [OF Some] show ?thesis by (metis (no_types) find_operation_def
    durable_provider.select_convs(1) durable_provider.surjective durable_provider.update_convs(2) snd_conv)
next
  case None
  show ?thesis
  proof (cases "outcome_for_position cfg (dp_next p - 1)")
    case (Inl e)
    from durable_refused [OF None Inl] assms(1) show ?thesis by (auto simp: find_operation_def)
  next
    case (Inr stored)
    obtain sub auth out where "stored = (sub, auth, out)" by (cases stored)
    with Inr obtain x where "durable_initiate cfg i a c q p = (submission_of (sub, auth, out),
        p\<lparr>dp_next := dp_next p + 1, dp_operations := dp_operations p @ [x]\<rparr>)" "op_id x = i"
      using durable_new [OF None] by metis
    with assms None show ?thesis by (auto simp: find_appended split: option.split)
  qed
qed

definition durable_decided :: "durable_provider \<Rightarrow> bool" where
  "durable_decided p \<longleftrightarrow> durable_valid p \<and>
     (\<forall>x \<in> set (dp_operations p). op_authority x = LOOKUP_PAID \<or> op_authority x = LOOKUP_UNPAID)"

lemma durable_decided_call:
  assumes mode: "default_mode cfg" and p: "durable_decided p" and call: "durable_initiate cfg i a c q p = (r, p')"
  shows "durable_decided p'" and "find_operation i p' \<noteq> None"
proof -
  have "durable_valid p" using p by (simp add: durable_decided_def)
  then have valid: "durable_valid p'"
    using payout_provider.initiate_valid [OF durable_contract [OF default_config [OF mode]] _ call] by blast
  obtain sub auth out where o: "outcome_for_position cfg (dp_next p - 1) = Inr (sub, auth, out)"
    "auth = LOOKUP_PAID \<or> auth = LOOKUP_UNPAID"
    by (rule default_outcome [OF mode])
  have "durable_decided p' \<and> find_operation i p' \<noteq> None"
  proof (cases "find_operation i p")
    case None
    obtain x where "p' = p\<lparr>dp_next := dp_next p + 1, dp_operations := dp_operations p @ [x]\<rparr>" "op_id x = i"
      "op_authority x = auth"
      using durable_new [OF None o(1), of a c q] call by auto
    with None o(2) p valid show ?thesis by (auto simp: durable_decided_def find_appended)
  next
    case (Some x)
    then have "p' = p\<lparr>dp_next := dp_next p + 1\<rparr>" using durable_replay [OF Some, of cfg a c q] call by simp
    with Some p valid show ?thesis by (simp add: durable_decided_def find_operation_def)
  qed
  then show "durable_decided p'" and "find_operation i p' \<noteq> None" by simp_all
qed

lemma durable_decided_lookup:
  assumes "durable_decided p"
  shows "if find_operation i p = None then durable_lookup i p = Inr NOT_FOUND else decided (durable_lookup i p)"
proof (cases "find_operation i p")
  case (Some x)
  then have "x \<in> set (dp_operations p)" using find_Some_set unfolding find_operation_def by fastforce
  with Some assms show ?thesis by (auto simp: durable_decided_def durable_lookup_def decided_def)
qed (simp add: durable_lookup_def)

lemma durable_deciding:
  assumes "default_mode cfg"
  shows "deciding_provider (durable_initiate cfg) durable_lookup durable_authority durable_decided"
proof -
  note contract = durable_contract [OF default_config [OF assms]]
  note call = durable_decided_call [OF assms]
  have valid: "durable_decided p \<Longrightarrow> durable_valid p" for p by (simp add: durable_decided_def)
  show ?thesis
  proof
    fix p p' i j a c q r x
    assume p: "durable_decided p"
    show "durable_decided p'" if "durable_initiate cfg i a c q p = (r, p')" using call(1) [OF p that] .
    show "durable_authority p' i = Some LOOKUP_PAID" if "durable_initiate cfg i a c q p = (Inr PAID, p')"
      using payout_provider.initiate_paid [OF contract valid [OF p] that] .
    show "durable_authority p' i = Some LOOKUP_UNPAID" if "durable_initiate cfg i a c q p = (Inr UNPAID, p')"
      using payout_provider.initiate_unpaid [OF contract valid [OF p] that] .
    show "durable_authority p' j = Some x" if "durable_initiate cfg i a c q p = (r, p')" "durable_authority p j = Some x"
      using payout_provider.initiate_stable [OF contract valid [OF p] that] .
    show "durable_authority p i = Some LOOKUP_PAID" if "durable_lookup i p = Inr LOOKUP_PAID"
      using payout_provider.lookup_paid [OF contract valid [OF p] that] .
    show "durable_authority p i = Some LOOKUP_UNPAID" if "durable_lookup i p = Inr LOOKUP_UNPAID"
      using payout_provider.lookup_unpaid [OF contract valid [OF p] that] .
    show "durable_lookup i p = Inr NOT_FOUND \<or> decided (durable_lookup i p)"
      using durable_decided_lookup [OF p, of i] by (simp split: if_splits)
    show "decided (durable_lookup i p')" if "durable_initiate cfg i a c q p = (r, p')"
      using durable_decided_lookup [OF call(1) [OF p that], of i] call(2) [OF p that] by simp
  next
    fix p p' i j a c q r
    assume "durable_initiate cfg i a c q p = (r, p')" "j \<noteq> i"
    then show "durable_lookup j p' = durable_lookup j p" using durable_only by (simp add: durable_lookup_def)
  qed
qed

interpretation random_decides:
  deciding_provider "durable_initiate random_config" durable_lookup durable_authority durable_decided
  by (rule durable_deciding) (simp add: default_mode_def random_config_def)

section \<open>The stores agree\<close>

text \<open>
  The dictionary holds the outcomes of the rows, and the next position is the same (or both are
  past the end of load mode).
\<close>

definition same_store :: "provider_config \<Rightarrow> memory_provider \<Rightarrow> durable_provider \<Rightarrow> bool" where
  "same_store cfg m d \<longleftrightarrow>
     (\<forall>i. rel_option (\<lambda>stored x. read_operation x = Inr stored) (map_of (mp_operations m) i) (find_operation i d)) \<and>
     0 < dp_next d \<and>
     (mp_count m = dp_next d - 1 \<or> pc_load_mode cfg \<and> 1000 \<le> mp_count m \<and> 1000 \<le> dp_next d - 1)"

lemma same_store_new: "same_store cfg new_memory_provider new_durable_provider"
  by (simp add: same_store_def new_memory_provider_def new_durable_provider_def find_operation_def)

lemma exhausted: "pc_load_mode cfg \<Longrightarrow> 1000 \<le> n \<Longrightarrow>
    outcome_for_position cfg n = Inl (RuntimeError ''load provider supports exactly 1000 unique operations'')"
  by (simp add: outcome_for_position_def)

lemma same_store_position:
  "same_store cfg m d \<Longrightarrow> outcome_for_position cfg (mp_count m) = outcome_for_position cfg (dp_next d - 1)"
  using exhausted [of cfg "mp_count m"] exhausted [of cfg "dp_next d - 1"] unfolding same_store_def by metis

lemma same_store_lookup:
  assumes "same_store cfg m d"
  shows "memory_lookup i m = durable_lookup i d"
proof -
  have "rel_option (\<lambda>stored x. read_operation x = Inr stored) (map_of (mp_operations m) i) (find_operation i d)"
    using assms by (simp add: same_store_def)
  then show ?thesis
    by (cases rule: option.rel_cases) (auto simp: memory_lookup_def durable_lookup_def read_operation_authority)
qed

lemma same_store_call:
  assumes same: "same_store cfg m d" and new: "map_of (mp_operations m) i = None"
    and mem: "memory_initiate cfg i a c q m = (r, m')"
  obtains d' where "durable_initiate cfg i a c q d = (r, d')" and "same_store cfg m' d'"
    and "\<forall>j. j \<noteq> i \<longrightarrow> map_of (mp_operations m') j = map_of (mp_operations m) j"
proof -
  have rel: "rel_option (\<lambda>stored x. read_operation x = Inr stored) (map_of (mp_operations m) j) (find_operation j d)" for j
    using same by (simp add: same_store_def)
  have none: "find_operation i d = None" using rel [of i] new by simp
  note pos = same_store_position [OF same]
  show ?thesis
  proof (cases "outcome_for_position cfg (dp_next d - 1)")
    case (Inl e)
    then have load: "pc_load_mode cfg" "1000 \<le> dp_next d - 1"
      by (auto simp: outcome_for_position_def split: if_splits provider_lookup.splits)
    have "r = Inl e" "m' = m" using mem new Inl pos by (simp_all add: memory_initiate_def next_outcome_def)
    moreover have "same_store cfg m (d\<lparr>dp_next := dp_next d + 1\<rparr>)"
      using same load by (auto simp: same_store_def find_operation_def)
    ultimately show ?thesis using that durable_refused [OF none Inl] by simp
  next
    case (Inr stored)
    obtain sub auth out where s: "stored = (sub, auth, out)" by (cases stored)
    obtain x where x: "durable_initiate cfg i a c q d = (submission_of (sub, auth, out),
        d\<lparr>dp_next := dp_next d + 1, dp_operations := dp_operations d @ [x]\<rparr>)" "op_id x = i"
      "read_operation x = Inr (sub, auth, out)"
      using durable_new [OF none Inr [unfolded s]] by metis
    have m': "r = submission_of stored"
      "m' = \<lparr>mp_operations = AList.update i stored (mp_operations m), mp_count = mp_count m + 1\<rparr>"
      using mem new Inr pos by (simp_all add: memory_initiate_def next_outcome_def)
    have "rel_option (\<lambda>stored x. read_operation x = Inr stored) (map_of (mp_operations m') j)
        (find_operation j (d\<lparr>dp_next := dp_next d + 1, dp_operations := dp_operations d @ [x]\<rparr>))" for j
      using rel [of j] none x(2,3) s by (cases "j = i") (auto simp: m'(2) update_conv' find_appended split: option.split)
    then have "same_store cfg m' (d\<lparr>dp_next := dp_next d + 1, dp_operations := dp_operations d @ [x]\<rparr>)"
      using same by (auto simp: same_store_def m'(2))
    with that x(1) m' s show ?thesis by (simp add: update_conv')
  qed
qed

fun call_answers ::
  "(nat \<Rightarrow> int \<Rightarrow> currency \<Rightarrow> int \<Rightarrow> 'p \<Rightarrow> (app_error + provider_result) \<times> 'p) \<Rightarrow>
     (nat \<times> int \<times> currency \<times> int) list \<Rightarrow> 'p \<Rightarrow> (app_error + provider_result) list" where
  "call_answers initiate [] p = []"
| "call_answers initiate ((i, a, c, q) # calls) p =
     (case initiate i a c q p of (r, p') \<Rightarrow> r # call_answers initiate calls p')"

lemma stores_agree_from:
  assumes "same_store cfg m d" and "distinct (map fst calls)"
    and "\<forall>i \<in> fst ` set calls. map_of (mp_operations m) i = None"
  shows "call_answers (memory_initiate cfg) calls m = call_answers (durable_initiate cfg) calls d \<and>
    same_store cfg (call_all (memory_initiate cfg) calls m) (call_all (durable_initiate cfg) calls d)"
  using assms
proof (induction calls arbitrary: m d)
  case (Cons call calls)
  obtain i a c q where call: "call = (i, a, c, q)" by (cases call)
  obtain r m' where mem: "memory_initiate cfg i a c q m = (r, m')" by (metis surj_pair)
  have "map_of (mp_operations m) i = None" using Cons.prems(3) by (simp add: call)
  then obtain d' where step: "durable_initiate cfg i a c q d = (r, d')" "same_store cfg m' d'"
    "\<forall>j. j \<noteq> i \<longrightarrow> map_of (mp_operations m') j = map_of (mp_operations m) j"
    using same_store_call [OF Cons.prems(1) _ mem] by metis
  have "\<forall>j \<in> fst ` set calls. map_of (mp_operations m') j = None"
    using Cons.prems(2,3) step(3) by (metis call distinct.simps(2) fst_conv image_set list.set_intros(2) list.simps(9))
  from Cons.IH [OF step(2) _ this] Cons.prems(2) show ?case by (simp add: call mem step(1))
qed simp

text \<open>
  C34: the dictionary and the table are the same provider as long as no operation is requested
  twice: in any mode, requests for different operations get the same answers from both, errors and
  timeouts included, and afterwards every lookup reports the same.
\<close>

theorem stores_agree:
  assumes "distinct (map fst calls)"
  shows "call_answers (memory_initiate cfg) calls new_memory_provider =
      call_answers (durable_initiate cfg) calls new_durable_provider \<and>
    (\<forall>i. memory_lookup i (call_all (memory_initiate cfg) calls new_memory_provider) =
      durable_lookup i (call_all (durable_initiate cfg) calls new_durable_provider))"
proof -
  have "\<forall>i \<in> fst ` set calls. map_of (mp_operations new_memory_provider) i = None"
    by (simp add: new_memory_provider_def)
  from stores_agree_from [OF same_store_new assms this, of cfg] show ?thesis using same_store_lookup by blast
qed

theorem stores_agree_witness:
  "call_answers (durable_initiate load_config) [(7, 100, EUR, 92), (8, 1, PHP, 1)] new_durable_provider = [Inr PAID, Inr PAID]"
proof -
  have "call_answers (memory_initiate load_config) [(7, 100, EUR, 92), (8, 1, PHP, 1)] new_memory_provider = [Inr PAID, Inr PAID]"
    by code_simp
  with stores_agree [of "[(7, 100, EUR, 92), (8, 1, PHP, 1)]" load_config] show ?thesis by simp
qed

end
