(* ===== verification/Worker.thy ===== *)
theory Worker
  imports Settlement_Properties
begin

text \<open>
  The reconciliation worker: which rows a pass claims, and which it never does.
\<close>

section \<open>The claims of a batch\<close>

text \<open>A claim of a row: the settlement's id and the token that its attempt now has.\<close>

definition claim_of :: "(nat \<Rightarrow> int) \<Rightarrow> db \<Rightarrow> settlement \<times> attempt \<Rightarrow> payout_claim \<Rightarrow> bool" where
  "claim_of deadline db = (\<lambda>(s, x) claim. sr_id (cl_settlement claim) = st_id s \<and> cl_token claim = at_token x + 1 \<and>
     find_attempt (st_id s) db =
       Some (x\<lparr>at_token := at_token x + 1, at_state := CLAIMED, at_lease := deadline (st_id s)\<rparr>))"

lemma claim_rows_claims:
  assumes "claim_rows deadline rows db = Inr (claims, db')" and "service_ok auth db"
    and "list_all (batch_row db) rows" and "distinct (map (st_id \<circ> fst) rows)"
  shows "list_all2 (claim_of deadline db') rows claims \<and>
    (\<forall>j. j \<notin> (st_id \<circ> fst) ` set rows \<longrightarrow> find_attempt j db' = find_attempt j db)"
  using assms
proof (induction rows arbitrary: db claims)
  case (Cons row rows)
  obtain s x where row: "row = (s, x)" by (cases row)
  define y where "y = x\<lparr>at_token := at_token x + 1, at_state := CLAIMED, at_lease := deadline (st_id s)\<rparr>"
  obtain read db1 claims' where read: "from_orm_settlement s = Inr read"
    and upd: "update_attempt y db = Inr db1" and rest: "claim_rows deadline rows db1 = Inr (claims', db')"
    and claims: "claims = \<lparr>cl_settlement = read, cl_token = at_token x + 1\<rparr> # claims'"
    using Cons.prems(1) unfolding row y_def by (auto simp: bind_result_eq_Inr)
  have s: "find_settlement (st_id s) db = Some s" "find_attempt (st_id s) db = Some x" "reconcilable (st_status s)"
    using Cons.prems(3) by (simp_all add: row batch_row_def)
  note facts = service_settlement [OF Cons.prems(2) s(1)]
  have step: "abstract_step auth db db1"
    using reconcilable_outstanding [OF s(3)] facts(4) facts(6) [OF s(2)] upd
    by (intro update_attempt_run [OF Cons.prems(2) s(1,2), where x' = y and status = "st_status s"]) (simp_all add: y_def)
  have at: "at_settlement y = st_id s" using facts(6) [OF s(2)] by (simp add: y_def)
  have db1: "find_settlement i db1 = find_settlement i db"
    "find_attempt i db1 = (if i = st_id s then Some y else find_attempt i db)" for i
    using upd find_attempt_upd [of i y db] s(2) unfolding update_attempt_Inr at
    by (simp_all add: find_settlement_def)
  have new: "st_id s \<notin> (st_id \<circ> fst) ` set rows" using Cons.prems(4) by (simp add: row)
  have "st_id t \<noteq> st_id s" if "(t, y) \<in> set rows" for t y
    using new that by (force simp: image_iff)
  then have "list_all (batch_row db1) rows"
    using Cons.prems(3) by (auto simp: list_all_iff batch_row_def row db1)
  then have IH: "list_all2 (claim_of deadline db') rows claims'"
    "\<forall>j. j \<notin> (st_id \<circ> fst) ` set rows \<longrightarrow> find_attempt j db' = find_attempt j db1"
    using Cons.IH [OF rest abstract_step_ok [OF step Cons.prems(2)]] Cons.prems(4) by simp_all
  have "find_attempt (st_id s) db' = Some y" using IH(2) new db1(2) by simp
  then have "claim_of deadline db' (s, x) \<lparr>cl_settlement = read, cl_token = at_token x + 1\<rparr>"
    using orm_fields(1) [OF read] by (simp add: claim_of_def y_def)
  with IH db1(2) show ?case by (auto simp: row claims)
qed simp

lemma list_all2_from: "list_all2 P xs ys \<Longrightarrow> y \<in> set ys \<Longrightarrow> \<exists>x \<in> set xs. P x y"
  by (metis list_all2_conv_all_nth in_set_conv_nth)

text \<open>The rows of a batch, and that a batch that is not full has them all.\<close>

lemma due_rows_set:
  "set (due_rows locked now limit db) \<subseteq> {(s, x). s \<in> set (db_settlements db) \<and> x \<in> set (db_attempts db) \<and>
     due now s x \<and> \<not> locked (st_id s)}" (is "_ \<subseteq> ?due")
  and due_rows_all:
  "length (due_rows locked now limit db) < limit \<Longrightarrow>
     {(s, x). s \<in> set (db_settlements db) \<and> x \<in> set (db_attempts db) \<and> due now s x \<and> \<not> locked (st_id s)}
       \<subseteq> set (due_rows locked now limit db)"
proof -
  let ?joined = "[(s, x). s \<leftarrow> db_settlements db, x \<leftarrow> db_attempts db, due now s x, \<not> locked (st_id s)]"
  have joined: "set ?joined = ?due" by (auto split: if_splits)
  have "set (due_rows locked now limit db) \<subseteq> set ?joined"
    unfolding due_rows_def by (rule subset_trans [OF set_take_subset]) simp
  then show "set (due_rows locked now limit db) \<subseteq> ?due" unfolding joined .
  assume "length (due_rows locked now limit db) < limit"
  then have "due_rows locked now limit db = sort_key (\<lambda>(s, x). (at_lease x, st_id s)) ?joined"
    by (simp add: due_rows_def)
  then have "set (due_rows locked now limit db) = set ?joined" by simp
  then show "?due \<subseteq> set (due_rows locked now limit db)" unfolding joined by simp
qed

section \<open>Properties\<close>

text \<open>
  A batch of the worker holds at most \<open>limit\<close> claims on different settlements, each of a row that
  was due, under a token larger by one that is now the current one, with a new lease; and if the
  batch is not full, every settlement that was due and not locked is claimed.
\<close>

lemma batch_claims_due_rows:
  assumes "config_ok cfg" and "reachable_world cfg (db, p)"
    and "transact (claim_due_batch locked now deadline limit) db = (Inr claims, db')"
  shows "length claims \<le> limit \<and> distinct (map (sr_id \<circ> cl_settlement) claims) \<and>
    (\<forall>claim \<in> set claims. \<exists>s x x'. find_settlement (sr_id (cl_settlement claim)) db = Some s \<and>
       find_attempt (st_id s) db = Some x \<and> due now s x \<and> \<not> locked (st_id s) \<and>
       find_attempt (st_id s) db' = Some x' \<and> at_token x' = at_token x + 1 \<and> cl_token claim = at_token x' \<and>
       at_state x' = CLAIMED \<and> at_lease x' = deadline (st_id s)) \<and>
    (length claims < limit \<longrightarrow> (\<forall>s \<in> set (db_settlements db). \<forall>x \<in> set (db_attempts db).
       due now s x \<and> \<not> locked (st_id s) \<longrightarrow> st_id s \<in> (sr_id \<circ> cl_settlement) ` set claims))"
proof -
  let ?rows = "due_rows locked now limit db"
  have ok: "service_ok (durable_authority p) db" and sch: "schema_ok db"
    using reachable_parts [OF assms(1,2)] by simp_all
  obtain mid where mid: "claim_rows deadline ?rows db = Inr (claims, mid)" "db' = mid\<lparr>db_inserted := []\<rparr>"
    using assms(3) by (auto simp: transact_Inr commit_Inr claim_due_batch_def)
  note cur = due_rows_current [OF sch, of locked now limit]
  have all: "list_all2 (claim_of deadline db') ?rows claims"
    using claim_rows_claims [OF mid(1) ok cur] by (simp add: claim_of_def mid(2))
  then have len: "length claims = length ?rows" by (simp add: list_all2_lengthD)
  have ids: "map (sr_id \<circ> cl_settlement) claims = map (st_id \<circ> fst) ?rows"
    using all by (induction rule: list_all2_induct) (auto simp: claim_of_def)
  have each: "\<exists>s x x'. find_settlement (sr_id (cl_settlement claim)) db = Some s \<and>
       find_attempt (st_id s) db = Some x \<and> due now s x \<and> \<not> locked (st_id s) \<and>
       find_attempt (st_id s) db' = Some x' \<and> at_token x' = at_token x + 1 \<and> cl_token claim = at_token x' \<and>
       at_state x' = CLAIMED \<and> at_lease x' = deadline (st_id s)" if c: "claim \<in> set claims" for claim
  proof -
    obtain s x where row: "(s, x) \<in> set ?rows" "claim_of deadline db' (s, x) claim"
      using list_all2_from [OF all c] by auto
    then have "batch_row db (s, x)" "due now s x" "\<not> locked (st_id s)"
      using cur(1) due_rows_set [of locked now limit db] by (auto simp: list_all_iff)
    with row(2) show ?thesis by (auto simp: claim_of_def batch_row_def)
  qed
  have "st_id s \<in> (sr_id \<circ> cl_settlement) ` set claims"
    if "length claims < limit" "s \<in> set (db_settlements db)" "x \<in> set (db_attempts db)" "due now s x" "\<not> locked (st_id s)" for s x
  proof -
    have "(s, x) \<in> set ?rows" using due_rows_all [of locked now limit db] that len by auto
    then have "st_id s \<in> set (map (st_id \<circ> fst) ?rows)" by force
    then show ?thesis using ids by (metis set_map)
  qed
  moreover have "length ?rows \<le> limit" by (simp add: due_rows_def)
  ultimately show ?thesis using each ids cur(2) len by auto
qed

text \<open>
  C25: the worker never resumes an abandoned settlement: if its attempt is still \<open>CLAIMED\<close> (by a task
  that died after its claim), however long its lease has expired, or if it has no attempt yet (its
  request died after the submission), then no pass at any time claims it.
\<close>

theorem worker_skips_abandoned:
  assumes "config_ok cfg" and "reachable_world cfg (db, p)"
    and "find_attempt i db = None \<or> (\<exists>x. find_attempt i db = Some x \<and> at_state x = CLAIMED)"
    and "transact (claim_due_batch locked now deadline limit) db = (Inr claims, db')"
  shows "i \<notin> (sr_id \<circ> cl_settlement) ` set claims \<and> find_attempt i db' = find_attempt i db"
proof -
  let ?rows = "due_rows locked now limit db"
  have ok: "service_ok (durable_authority p) db" and sch: "schema_ok db"
    using reachable_parts [OF assms(1,2)] by simp_all
  obtain mid where mid: "claim_rows deadline ?rows db = Inr (claims, mid)" "db' = mid\<lparr>db_inserted := []\<rparr>"
    using assms(4) by (auto simp: transact_Inr commit_Inr claim_due_batch_def)
  note cur = due_rows_current [OF sch, of locked now limit]
  note rows = claim_rows_claims [OF mid(1) ok cur]
  have "map (sr_id \<circ> cl_settlement) claims = map (st_id \<circ> fst) ?rows"
    using conjunct1 [OF rows] by (induction rule: list_all2_induct) (auto simp: claim_of_def)
  then have ids: "(sr_id \<circ> cl_settlement) ` set claims = (st_id \<circ> fst) ` set ?rows" by (metis set_map)
  have "i \<notin> (st_id \<circ> fst) ` set ?rows"
  proof
    assume "i \<in> (st_id \<circ> fst) ` set ?rows"
    then obtain s x where row: "(s, x) \<in> set ?rows" "st_id s = i" by auto
    then have "batch_row db (s, x)" "due now s x"
      using cur(1) due_rows_set [of locked now limit db] by (auto simp: list_all_iff)
    with row(2) assms(3) show False by (auto simp: batch_row_def due_def)
  qed
  with ids rows show ?thesis by (simp add: mid(2))
qed

theorem worker_skips_abandoned_witness:
  "\<exists>claims db'. transact (claim_due_batch (\<lambda>_. False) 1000000 (\<lambda>_. 2000000) 50) reclaimed_db = (Inr claims, db') \<and>
     7 \<notin> (sr_id \<circ> cl_settlement) ` set claims"
proof -
  have "succeeds (transact (claim_due_batch (\<lambda>_. False) 1000000 (\<lambda>_. 2000000) 50) reclaimed_db)"
    unfolding demo_dbs by code_simp
  then obtain claims db' where c: "transact (claim_due_batch (\<lambda>_. False) 1000000 (\<lambda>_. 2000000) 50) reclaimed_db
      = (Inr claims, db')" using succeeds_eq by blast
  have "map_option at_state (find_attempt 7 reclaimed_db) = Some CLAIMED" unfolding demo_dbs by code_simp
  then have "\<exists>x. find_attempt 7 reclaimed_db = Some x \<and> at_state x = CLAIMED" by auto
  from worker_skips_abandoned [OF random_config_ok reclaimed_reachable disjI2 [OF this] c] c
  show ?thesis by blast
qed

end
