(* ===== verification/Worker_Pass.thy ===== *)
theory Worker_Pass
  imports Worker Provider_Stores
begin

text \<open>
  One undisturbed pass of the reconciliation worker: what a finalization leaves alone, that a batch
  of due rows is always claimed, and that the pass closes every settlement whose payout is decided.
\<close>

section \<open>What a finalization leaves alone\<close>

definition only_touches :: "nat \<Rightarrow> post_ids \<Rightarrow> db \<Rightarrow> db \<Rightarrow> bool" where
  "only_touches i ids db db' \<longleftrightarrow>
     (\<forall>j. j \<noteq> i \<longrightarrow> find_settlement j db' = find_settlement j db \<and> find_attempt j db' = find_attempt j db) \<and>
     j_id ` set (db_journals db') \<subseteq> insert (pi_journal ids) (j_id ` set (db_journals db)) \<and>
     p_id ` set (db_postings db') \<subseteq> insert (pi_debit ids) (insert (pi_credit ids) (p_id ` set (db_postings db)))"

lemma only_touches_refl: "only_touches i ids db db"
  by (auto simp: only_touches_def)

lemma settle_touches:
  assumes "settle s status x mid = Inr (read, db')" and "st_id s = i" and "at_settlement x = i"
    and "only_touches i ids db mid"
  shows "only_touches i ids db db'"
proof -
  have db': "db' = (update_status i status mid)\<lparr>db_attempts :=
      upd_rows (\<lambda>y. at_settlement y = at_settlement x) (\<lambda>_. x) (db_attempts mid)\<rparr>"
    using assms(1-3) by (auto simp: settle_Inr update_attempt_Inr update_status_def)
  have "find_settlement j (update_status i status mid) = find_settlement j mid" if "j \<noteq> i" for j
  proof (cases "find_settlement j mid")
    case (Some t)
    then have "st_id t = j" using find_Some_set by (fastforce simp: find_settlement_def)
    with that Some show ?thesis by (simp add: find_settlement_status)
  qed (simp add: find_settlement_status)
  then have "find_settlement j db' = find_settlement j mid" "find_attempt j db' = find_attempt j mid" if "j \<noteq> i" for j
    using that assms(3) find_attempt_upd [of j x mid]
    by (simp_all add: db' find_settlement_def find_attempt_def update_status_def)
  with assms(4) show ?thesis by (simp add: only_touches_def db' update_status_def)
qed

lemma post_touches:
  assumes "post ids s event dk ck db = Inr mid" and "accounts_ok db" and "dk \<noteq> ck"
  shows "only_touches i ids db mid"
  using assms unfolding post_Inr [OF assms(2,3)]
  by (auto simp: only_touches_def entry_db_def find_settlement_def find_attempt_def entry_postings_def
      new_posting_def new_journal_def)

lemma finalize_touches:
  assumes "transact (finalize_attempt now ids i token result) db = (Inr read, db')" and "service_ok auth db"
  shows "only_touches i ids db db'"
proof -
  have acc: "accounts_ok db" and sch: "schema_ok db" using assms(2) by (simp_all add: service_ok_def ledger_ok_def schema_ok_def)
  obtain db2 where f: "finalize_attempt now ids i token result db = Inr (read, db2)" "db' = db2\<lparr>db_inserted := []\<rparr>"
    using assms(1) by (auto simp: transact_Inr commit_Inr)
  obtain s x where s: "find_settlement i db = Some s" and x: "find_attempt i db = Some x"
    using f(1) by (auto simp: finalize_attempt_def split: option.splits)
  have ids: "st_id s = i" "at_settlement x = i"
    using service_settlement [OF assms(2) s] x by simp_all
  consider "db2 = db"
    | mid status x' where "settle s status x' mid = Inr (read, db2)" "at_settlement x' = i"
        "mid = db \<or> consume ids s db = Inr mid \<or> release ids s db = Inr mid"
    using f(1) s x ids
    by (auto simp: finalize_attempt_def bind_result_eq_Inr split: if_splits option.splits provider_result.splits)
  then have "only_touches i ids db db2"
  proof cases
    case (2 mid status x')
    have "only_touches i ids db mid"
      using 2(3) post_touches [OF _ acc] only_touches_refl by (auto simp: consume_def release_def)
    from settle_touches [OF 2(1) ids(1) 2(2) this] show ?thesis .
  qed (simp add: only_touches_refl)
  then show ?thesis by (simp add: f(2) only_touches_def find_settlement_def find_attempt_def)
qed

section \<open>Claiming a batch\<close>

lemma claim_rows_succeeds:
  assumes "service_ok auth db" and "list_all (batch_row db) rows" and "distinct (map (st_id \<circ> fst) rows)"
    and "list_all (\<lambda>(s, x). int8_fits (at_token x + 1)) rows"
  shows "\<exists>claims attempts. claim_rows deadline rows db = Inr (claims, db\<lparr>db_attempts := attempts\<rparr>)"
  using assms
proof (induction rows arbitrary: db)
  case Nil
  have "db = db\<lparr>db_attempts := db_attempts db\<rparr>" by simp
  then show ?case by (metis claim_rows.simps(1))
next
  case (Cons row rows)
  obtain s x where row: "row = (s, x)" by (cases row)
  let ?x = "x\<lparr>at_token := at_token x + 1, at_state := CLAIMED, at_lease := deadline (st_id s)\<rparr>"
  have s: "find_settlement (st_id s) db = Some s" "find_attempt (st_id s) db = Some x" "reconcilable (st_status s)"
    using Cons.prems(2) by (simp_all add: row batch_row_def)
  note facts = service_settlement [OF Cons.prems(1) s(1)]
  obtain read where read: "from_orm_settlement s = Inr read"
    using readable_settlement [OF Cons.prems(1) facts(1), of "st_status s"] by auto
  have sch: "schema_ok db" using service_schema [OF Cons.prems(1)] .
  have xr: "x \<in> set (db_attempts db)" "at_settlement x = st_id s"
    using s(2) find_attempt_Some [OF sch] by simp_all
  have "at_settlement y = at_settlement x" if "y \<in> set (db_attempts db)" "at_operation y = at_operation x" for y
    using distinct_key_eq [of at_operation "db_attempts db" y x] that xr sch by (simp add: schema_defs)
  moreover have "0 < at_token x" "reference_fits x" using sch xr(1) by (simp_all add: schema_defs)
  moreover obtain db1 where db1: "db1 = db\<lparr>db_attempts :=
      upd_rows (\<lambda>y. at_settlement y = at_settlement ?x) (\<lambda>_. ?x) (db_attempts db)\<rparr>" by blast
  ultimately have upd: "update_attempt ?x db = Inr db1"
    using Cons.prems(4) by (auto simp: update_attempt_Inr row)
  have step: "abstract_step auth db db1"
    using reconcilable_outstanding [OF s(3)] facts(4) facts(6) [OF s(2)] upd
    by (intro update_attempt_run [OF Cons.prems(1) s(1,2), where x' = ?x and status = "st_status s"]) simp_all
  have "find_settlement j db1 = find_settlement j db" "j \<noteq> st_id s \<Longrightarrow> find_attempt j db1 = find_attempt j db" for j
    using find_attempt_upd [of j ?x db] xr(2) by (simp_all add: find_settlement_def db1)
  moreover have "st_id t \<noteq> st_id s" if "(t, y) \<in> set rows" for t y
    using Cons.prems(3) that by (force simp: row)
  ultimately have "list_all (batch_row db1) rows"
    using Cons.prems(2) by (fastforce simp: list_all_iff batch_row_def row)
  then obtain claims attempts where "claim_rows deadline rows db1 = Inr (claims, db1\<lparr>db_attempts := attempts\<rparr>)"
    using Cons.IH [OF abstract_step_ok [OF step Cons.prems(1)]] Cons.prems(3,4) by auto
  with read upd show ?case by (simp add: row db1) blast
qed

section \<open>The tasks of a pass\<close>

definition decided_status :: "provider_lookup \<Rightarrow> settlement_status" where
  "decided_status l = (if l = LOOKUP_PAID then SUCCESS else FAILED)"

text \<open>The tasks draw different identifiers, which no row has yet.\<close>

definition disjoint_ids :: "post_ids \<Rightarrow> post_ids \<Rightarrow> bool" where
  "disjoint_ids a b \<longleftrightarrow> pi_journal a \<noteq> pi_journal b \<and>
     pi_debit a \<notin> {pi_debit b, pi_credit b} \<and> pi_credit a \<notin> {pi_debit b, pi_credit b}"

definition fresh_tasks :: "(nat \<Rightarrow> 'p service) \<Rightarrow> nat \<Rightarrow> db \<Rightarrow> bool" where
  "fresh_tasks per_task n db \<longleftrightarrow> (\<forall>k < n. fresh_ids (sv_uuid (per_task k) 2) db \<and>
     (\<forall>m < k. disjoint_ids (sv_uuid (per_task k) 2) (sv_uuid (per_task m) 2)))"

lemma fresh_ids_kept:
  assumes fresh: "fresh_ids b db" and touched: "only_touches i a db db'" and disj: "disjoint_ids a b"
  shows "fresh_ids b db'"
proof -
  have "j_id ` set (db_journals db') \<subseteq> insert (pi_journal a) (j_id ` set (db_journals db))"
    and "p_id ` set (db_postings db') \<subseteq> insert (pi_debit a) (insert (pi_credit a) (p_id ` set (db_postings db)))"
    using touched by (simp_all add: only_touches_def)
  note sub = subsetD [OF this(1)] subsetD [OF this(2)]
  have "pi_journal b \<notin> j_id ` set (db_journals db')"
    using sub(1) [of "pi_journal b"] fresh disj by (auto simp: fresh_ids_def disjoint_ids_def)
  moreover have "pi_debit b \<notin> p_id ` set (db_postings db')"
    using sub(2) [of "pi_debit b"] fresh disj by (auto simp: fresh_ids_def disjoint_ids_def)
  moreover have "pi_credit b \<notin> p_id ` set (db_postings db')"
    using sub(2) [of "pi_credit b"] fresh disj by (auto simp: fresh_ids_def disjoint_ids_def)
  ultimately show ?thesis using fresh by (simp add: fresh_ids_def)
qed

lemma fresh_ids_frame [simp]:
  "fresh_ids ids (db\<lparr>db_attempts := xs, db_inserted := ys\<rparr>) \<longleftrightarrow> fresh_ids ids db"
  by (simp add: fresh_ids_def)

lemma fresh_tasks_less: "fresh_tasks per_task n db \<Longrightarrow> m \<le> n \<Longrightarrow> fresh_tasks per_task m db"
  by (simp add: fresh_tasks_def)

lemma fresh_tasks_rest:
  assumes "only_touches i (sv_uuid (per_task n) 2) db db'" and "fresh_tasks per_task (Suc n) db"
  shows "fresh_tasks per_task n db'"
  using assms(2) fresh_ids_kept [OF _ assms(1)] by (simp add: fresh_tasks_def)

text \<open>A claim that is current: its row is open and its token the one of the attempt.\<close>

definition current_claim :: "db \<Rightarrow> payout_claim \<Rightarrow> bool" where
  "current_claim db claim \<longleftrightarrow> (\<exists>s x. find_settlement (sr_id (cl_settlement claim)) db = Some s \<and>
     outstanding (st_status s) \<and> find_attempt (sr_id (cl_settlement claim)) db = Some x \<and> cl_token claim = at_token x)"

lemma current_claim_kept:
  "current_claim db claim \<Longrightarrow> only_touches i ids db db' \<Longrightarrow> sr_id (cl_settlement claim) \<noteq> i \<Longrightarrow> current_claim db' claim"
  by (simp add: current_claim_def only_touches_def)

context payout_provider
begin

lemma task_settles:
  assumes sv: "serves initiate lookup authority sv" and quiet: "undisturbed sv"
    and ok: "ok (db, p)" and idle: "db_inserted db = []"
    and claim: "current_claim db claim" "sr_id (cl_settlement claim) = i"
    and look: "lookup i p = Inr l" "decided (Inr l)" and fresh: "fresh_ids (sv_uuid sv 2) db"
  obtains read db' where "reconcile_claim sv claim propagate (db, p) = (Inr read, (db', p))"
    and "ok (db', p)" and "db_inserted db' = []"
    and "find_settlement i db' = map_option (\<lambda>s. s\<lparr>st_status := decided_status l\<rparr>) (find_settlement i db)"
    and "only_touches i (sv_uuid sv 2) db db'"
proof -
  define result where "result = (if l = LOOKUP_PAID then PAID else UNPAID)"
  obtain s x where s: "find_settlement i db = Some s" "outstanding (st_status s)" "find_attempt i db = Some x"
    "cl_token claim = at_token x"
    using claim by (auto simp: current_claim_def)
  have db_ok: "service_ok (authority p) db" using ok by (simp add: world_ok_def)
  obtain read db' where f:
    "transact (finalize_attempt (sv_clock sv 2) (sv_uuid sv 2) i (at_token x) (Some result)) db = (Inr read, db')"
    "find_settlement i db' = Some (s\<lparr>st_status := result_status (Some result)\<rparr>)"
    by (rule finalize_outcome [OF db_ok idle s(1,3,2) fresh, of "sv_clock sv 2" "Some result"])
  have "look_up sv claim (db, p) = (Inr (Some result), (db, p))"
    using look sv claim(2) by (auto simp: look_up_def serves_def decided_def result_def)
  then have rec: "reconcile_claim sv claim propagate (db, p) = (Inr read, (db', p))"
    using f(1) s(4) claim(2) quiet by (simp add: reconcile_claim_def in_session_def undisturbed_def)
  have "result_status (Some result) = decided_status l"
    by (simp add: result_status_def result_def decided_status_def)
  moreover have "ok (db', p)" using run_ok [OF reconcile_claim_run [OF sv ok rec] ok] .
  ultimately show ?thesis
    using that [OF rec] f s(1) transact_idle [OF f(1) idle] finalize_touches [OF f(1) db_ok] by simp
qed

lemma claims_settle:
  assumes "\<And>k. serves initiate lookup authority (per_task k)" and "\<And>k. undisturbed (per_task k)"
    and "ok (db, p)" and "db_inserted db = []" and "list_all (current_claim db) claims"
    and "distinct (map (sr_id \<circ> cl_settlement) claims)"
    and "list_all (\<lambda>claim. decided (lookup (sr_id (cl_settlement claim)) p)) claims"
    and "fresh_tasks per_task (length claims) db"
  shows "\<exists>db'. reconcile_claims per_task claims (db, p) = (None, (db', p)) \<and>
    (\<forall>j. find_settlement j db' = (if j \<in> (sr_id \<circ> cl_settlement) ` set claims
       then map_option (\<lambda>s. s\<lparr>st_status := decided_status (projr (lookup j p))\<rparr>) (find_settlement j db)
       else find_settlement j db))"
  using assms(3-)
proof (induction claims arbitrary: db)
  case (Cons claim claims)
  let ?i = "sr_id (cl_settlement claim)" and ?sv = "per_task (length claims)"
  obtain l where l: "lookup ?i p = Inr l" "decided (Inr l)" using Cons.prems(5) by (auto simp: decided_def)
  have cur: "current_claim db claim" and fresh: "fresh_ids (sv_uuid ?sv 2) db"
    using Cons.prems(3,6) by (simp_all add: fresh_tasks_def)
  obtain read db1 where t: "reconcile_claim ?sv claim False (db, p) = (Inr read, (db1, p))" "ok (db1, p)" "db_inserted db1 = []"
    "find_settlement ?i db1 = map_option (\<lambda>s. s\<lparr>st_status := decided_status l\<rparr>) (find_settlement ?i db)"
    "only_touches ?i (sv_uuid ?sv 2) db db1"
    by (rule task_settles [OF assms(1,2) Cons.prems(1,2) cur refl l fresh])
  have new: "?i \<notin> (sr_id \<circ> cl_settlement) ` set claims" using Cons.prems(4) by simp
  have "current_claim db1 c" if c: "c \<in> set claims" for c
  proof -
    have "current_claim db c" "sr_id (cl_settlement c) \<noteq> ?i" using Cons.prems(3) new c by (auto simp: list_all_iff image_iff)
    then show ?thesis using current_claim_kept t(5) by blast
  qed
  then have cur1: "list_all (current_claim db1) claims" by (simp add: list_all_iff)
  have fresh1: "fresh_tasks per_task (length claims) db1"
    using fresh_tasks_rest [of ?i per_task "length claims", OF t(5)] Cons.prems(6) by simp
  obtain db' where db': "reconcile_claims per_task claims (db1, p) = (None, (db', p))"
    "\<forall>j. find_settlement j db' = (if j \<in> (sr_id \<circ> cl_settlement) ` set claims
       then map_option (\<lambda>s. s\<lparr>st_status := decided_status (projr (lookup j p))\<rparr>) (find_settlement j db1)
       else find_settlement j db1)"
    using Cons.IH [OF t(2,3) cur1 _ _ fresh1] Cons.prems(4,5) by auto
  have "reconcile_claims per_task (claim # claims) (db, p) = (None, (db', p))" using t(1) db'(1) by simp
  moreover have "find_settlement j db' = (if j \<in> (sr_id \<circ> cl_settlement) ` set (claim # claims)
       then map_option (\<lambda>s. s\<lparr>st_status := decided_status (projr (lookup j p))\<rparr>) (find_settlement j db)
       else find_settlement j db)" for j
  proof (cases "j = ?i")
    case True
    then show ?thesis using db'(2) new t(4) l(1) by simp
  next
    case False
    then have "find_settlement j db1 = find_settlement j db" using t(5) by (simp add: only_touches_def)
    with False db'(2) show ?thesis by simp
  qed
  ultimately show ?case by blast
qed simp

end

section \<open>A whole pass\<close>

lemma batch_succeeds:
  assumes ok: "service_ok auth db" and idle: "db_inserted db = []"
    and fits: "list_all (\<lambda>(s, x). int8_fits (at_token x + 1)) (due_rows locked now limit db)"
  obtains claims db1 where "transact (claim_due_batch locked now deadline limit) db = (Inr claims, db1)"
proof -
  note cur = due_rows_current [OF service_schema [OF ok], of locked now limit]
  obtain claims attempts where c: "claim_rows deadline (due_rows locked now limit db) db
      = Inr (claims, db\<lparr>db_attempts := attempts\<rparr>)"
    using claim_rows_succeeds [OF ok cur fits] by blast
  moreover have "commit (db\<lparr>db_attempts := attempts\<rparr>) = Inr (db\<lparr>db_attempts := attempts\<rparr>)"
    by (rule idle_commit) (simp add: idle)
  ultimately show ?thesis using that by (simp add: claim_due_batch_def transact_def)
qed

lemma claim_rows_frame: "claim_rows deadline rows db = Inr (claims, db') \<Longrightarrow> \<exists>attempts. db' = db\<lparr>db_attempts := attempts\<rparr>"
proof (induction rows arbitrary: db claims)
  case Nil
  then have "db' = db\<lparr>db_attempts := db_attempts db\<rparr>" by simp
  then show ?case by blast
next
  case (Cons row rows)
  obtain s x where "row = (s, x)" by (cases row)
  with Cons.prems obtain attempts claims' where "claim_rows deadline rows (db\<lparr>db_attempts := attempts\<rparr>) = Inr (claims', db')"
    by (auto simp: bind_result_eq_Inr update_attempt_Inr)
  from Cons.IH [OF this] show ?case by auto
qed

text \<open>What a committed batch claims, and that it changes nothing but the attempts of its claims.\<close>

lemma batch_claims:
  assumes ok: "service_ok auth db"
    and tr: "transact (claim_due_batch locked now deadline limit) db = (Inr claims, db1)"
  shows "\<exists>attempts. db1 = db\<lparr>db_attempts := attempts, db_inserted := []\<rparr>"
    and "map (sr_id \<circ> cl_settlement) claims = map (st_id \<circ> fst) (due_rows locked now limit db)"
    and "distinct (map (sr_id \<circ> cl_settlement) claims)"
    and "find_settlement j db1 = find_settlement j db"
    and "j \<notin> (sr_id \<circ> cl_settlement) ` set claims \<Longrightarrow> find_attempt j db1 = find_attempt j db"
    and "claim \<in> set claims \<Longrightarrow> current_claim db1 claim \<and> (\<exists>s x. (s, x) \<in> set (due_rows locked now limit db) \<and>
      sr_id (cl_settlement claim) = st_id s \<and> cl_token claim = at_token x + 1)"
proof -
  let ?rows = "due_rows locked now limit db"
  note cur = due_rows_current [OF service_schema [OF ok], of locked now limit]
  obtain mid where mid: "claim_rows deadline ?rows db = Inr (claims, mid)" "db1 = mid\<lparr>db_inserted := []\<rparr>"
    using tr by (auto simp: transact_Inr commit_Inr claim_due_batch_def)
  have all: "list_all2 (claim_of deadline db1) ?rows claims"
    using claim_rows_claims [OF mid(1) ok cur] by (simp add: claim_of_def mid(2))
  show frame: "\<exists>attempts. db1 = db\<lparr>db_attempts := attempts, db_inserted := []\<rparr>"
    using claim_rows_frame [OF mid(1)] mid(2) by auto
  show ids: "map (sr_id \<circ> cl_settlement) claims = map (st_id \<circ> fst) ?rows"
    using all by (induction rule: list_all2_induct) (auto simp: claim_of_def)
  show "distinct (map (sr_id \<circ> cl_settlement) claims)" using cur(2) by (simp only: ids)
  show same: "find_settlement j db1 = find_settlement j db" for j using frame by (auto simp: find_settlement_def)
  show "find_attempt j db1 = find_attempt j db" if "j \<notin> (sr_id \<circ> cl_settlement) ` set claims"
  proof -
    have "j \<notin> (st_id \<circ> fst) ` set ?rows" using that ids by (metis set_map)
    then show ?thesis using claim_rows_claims [OF mid(1) ok cur] by (simp add: mid(2))
  qed
  assume "claim \<in> set claims"
  then obtain s x where row: "(s, x) \<in> set ?rows" "claim_of deadline db1 (s, x) claim"
    using list_all2_from [OF all, of claim] by (metis surj_pair)
  then have "batch_row db (s, x)" using cur(1) by (simp add: list_all_iff)
  with row show "current_claim db1 claim \<and> (\<exists>s x. (s, x) \<in> set ?rows \<and>
      sr_id (cl_settlement claim) = st_id s \<and> cl_token claim = at_token x + 1)"
    by (auto simp: current_claim_def claim_of_def batch_row_def same reconcilable_outstanding)
qed

text \<open>Which settlements a batch that is not full holds.\<close>

lemma claimed_rows:
  assumes "schema_ok db" and s: "s \<in> set (db_settlements db)" and "length (due_rows locked now limit db) < limit"
  shows "st_id s \<in> (st_id \<circ> fst) ` set (due_rows locked now limit db) \<longleftrightarrow>
    list_ex (due now s) (db_attempts db) \<and> \<not> locked (st_id s)"
proof
  assume "st_id s \<in> (st_id \<circ> fst) ` set (due_rows locked now limit db)"
  then obtain t x where "(t, x) \<in> set (due_rows locked now limit db)" and id: "st_id t = st_id s" by auto
  then have t: "t \<in> set (db_settlements db)" "x \<in> set (db_attempts db)" "due now t x" "\<not> locked (st_id t)"
    using due_rows_set [of locked now limit db] by auto
  then have "t = s" using distinct_key_eq [of st_id "db_settlements db" t s] s id assms(1) by (simp add: schema_defs)
  with t show "list_ex (due now s) (db_attempts db) \<and> \<not> locked (st_id s)" by (auto simp: list_ex_iff)
next
  assume "list_ex (due now s) (db_attempts db) \<and> \<not> locked (st_id s)"
  then obtain x where "(s, x) \<in> set (due_rows locked now limit db)"
    using due_rows_all [OF assms(3)] s by (auto simp: list_ex_iff)
  then show "st_id s \<in> (st_id \<circ> fst) ` set (due_rows locked now limit db)" by force
qed

text \<open>The status after the pass: decided for a due row that is free, unchanged for any other.\<close>

definition passed_row :: "(nat \<Rightarrow> bool) \<Rightarrow> int \<Rightarrow> durable_provider \<Rightarrow> db \<Rightarrow> settlement \<Rightarrow> settlement" where
  "passed_row locked now p db s =
     (if list_ex (due now s) (db_attempts db) \<and> \<not> locked (st_id s)
      then s\<lparr>st_status := decided_status (projr (durable_lookup (st_id s) p))\<rparr> else s)"

text \<open>
  One undisturbed pass of the worker, whose batch is not full, closes every settlement that is
  due, free, and whose payout the provider has decided: \<open>SUCCESS\<close> if paid, \<open>FAILED\<close> if unpaid; the
  pass raises nothing, reports the number of its claims, and leaves all other settlements as they are.
\<close>

lemma worker_pass_settles:
  assumes "config_ok cfg" and "reachable_world cfg (db, p)"
    and "\<forall>k. serves (durable_initiate cfg) durable_lookup durable_authority (per_task k) \<and> undisturbed (per_task k)"
    and "length (due_rows locked (sv_clock sv 0) limit db) = n" and "n < limit" and "fresh_tasks per_task n db"
    and "\<forall>(s, x) \<in> set (due_rows locked (sv_clock sv 0) limit db).
      decided (durable_lookup (st_id s) p) \<and> int8_fits (at_token x + 1)"
  shows "\<exists>db'. run_reconciliation_once per_task sv locked limit (db, p) = (Inr n, (db', p)) \<and>
    (\<forall>s \<in> set (db_settlements db).
       find_settlement (st_id s) db' = Some (passed_row locked (sv_clock sv 0) p db s))"
proof -
  let ?rows = "due_rows locked (sv_clock sv 0) limit db" and ?deadline = "\<lambda>i. lease_deadline sv (Suc i)"
  note contract = durable_contract [OF assms(1)]
  have ok: "service_ok (durable_authority p) db" and sch: "schema_ok db" and idle: "db_inserted db = []"
    using reachable_parts [OF assms(1,2)] reachable_idle [OF assms(2)] by simp_all
  have "list_all (\<lambda>(s, x). int8_fits (at_token x + 1)) ?rows" using assms(7) by (auto simp: list_all_iff)
  then obtain claims db1 where
    batch: "transact (claim_due_batch locked (sv_clock sv 0) ?deadline limit) db = (Inr claims, db1)"
    by (rule batch_succeeds [OF ok idle])
  note claimed = batch_claims [OF ok batch]
  have len: "length claims = n" using arg_cong [OF claimed(2), of length] assms(4) by simp
  have each: "current_claim db1 c \<and> decided (durable_lookup (sr_id (cl_settlement c)) p)" if "c \<in> set claims" for c
    using claimed(6) [OF that] assms(7) by auto
  have session: "in_session (claim_due_batch locked (sv_clock sv 0) ?deadline limit) (db, p) = (Inr claims, (db1, p))"
    using batch by (simp add: in_session_def)
  have ok1: "world_ok durable_authority durable_valid (db1, p)"
    using payout_provider.run_ok [OF contract payout_provider.batch_run [OF contract session]]
      reachable_ok [OF assms(1,2)] by blast
  have fresh1: "fresh_tasks per_task (length claims) db1"
    using assms(6) claimed(1) by (auto simp: len fresh_tasks_def)
  have idle1: "db_inserted db1 = []" using claimed(1) by auto
  obtain db' where tasks: "reconcile_claims per_task claims (db1, p) = (None, (db', p))"
    "\<forall>j. find_settlement j db' = (if j \<in> (sr_id \<circ> cl_settlement) ` set claims
       then map_option (\<lambda>s. s\<lparr>st_status := decided_status (projr (durable_lookup j p))\<rparr>) (find_settlement j db)
       else find_settlement j db)"
    using payout_provider.claims_settle [OF contract, of per_task db1 p claims] assms(3) ok1 each fresh1 idle1 claimed(3)
    by (auto simp: list_all_iff claimed(4))
  have "find_settlement (st_id s) db' = Some (passed_row locked (sv_clock sv 0) p db s)"
    if s: "s \<in> set (db_settlements db)" for s
  proof -
    have row: "find_settlement (st_id s) db = Some s" using s find_settlement_Some [OF sch] by simp
    have "(sr_id \<circ> cl_settlement) ` set claims = (st_id \<circ> fst) ` set ?rows" using claimed(2) by (metis set_map)
    moreover have "st_id s \<in> (st_id \<circ> fst) ` set ?rows \<longleftrightarrow>
        list_ex (due (sv_clock sv 0) s) (db_attempts db) \<and> \<not> locked (st_id s)"
      using claimed_rows [OF sch s, of locked "sv_clock sv 0" limit] assms(4,5) by blast
    ultimately show ?thesis using tasks(2) row by (simp add: passed_row_def)
  qed
  moreover have "run_reconciliation_once per_task sv locked limit (db, p) = (Inr n, (db', p))"
    using session tasks(1) len by (simp add: run_reconciliation_once_def)
  ultimately show ?thesis by blast
qed

lemma waiting_reachable: "reachable_world random_config (pending_db, snd first_call)"
  using succeeds_eq [OF demo_pending] unfolding pending_db_def
  by (metis demo_db_step called_reachable db_finalize confirmed_def option.distinct(1))

lemma waiting_batch:
  "length (due_rows (\<lambda>_. False) 1000 50 pending_db) = 1"
  "list_all (\<lambda>(s, x). st_id s = 7 \<and> at_token x = 1) (due_rows (\<lambda>_. False) 1000 50 pending_db)"
  unfolding demo_dbs by code_simp+

lemma waiting_fresh: "fresh_ids (demo_entry 400) pending_db"
  unfolding demo_dbs fresh_ids_def demo_entry_def by code_simp

end
