(* ===== verification/Worker_Loop.thy ===== *)
theory Worker_Loop
  imports Worker_Pass
begin

text \<open>
  The worker's loop empties its backlog: with a provider that decides, every task of an undisturbed
  pass either finishes its settlement or learns the authority that the next pass finishes it with,
  so that two passes for every waiting settlement are enough, whatever the batch size.
\<close>

section \<open>Waiting and finished settlements\<close>

definition waiting :: "nat \<Rightarrow> settlement \<Rightarrow> attempt \<Rightarrow> db \<Rightarrow> bool" where
  "waiting i s x db \<longleftrightarrow> find_settlement i db = Some s \<and> reconcilable (st_status s) \<and>
     find_attempt i db = Some x \<and> (at_state x = SUBMITTING \<or> at_state x = RECONCILING)"

definition backlog :: "db \<Rightarrow> nat set" where
  "backlog db = {i. \<exists>s x. waiting i s x db}"

definition finished :: "nat \<Rightarrow> db \<Rightarrow> bool" where
  "finished i db \<longleftrightarrow> (\<exists>s. find_settlement i db = Some s \<and> (st_status s = SUCCESS \<or> st_status s = FAILED))"

lemma backlog_finite: "finite (backlog db)"
proof -
  have "backlog db \<subseteq> st_id ` set (db_settlements db)"
    using find_Some_set by (fastforce simp: backlog_def waiting_def find_settlement_def)
  then show ?thesis by (rule finite_subset) simp
qed

lemma backlogI: "waiting i s x db \<Longrightarrow> i \<in> backlog db"
  by (auto simp: backlog_def)

text \<open>A row of an open settlement leaves the transaction of an open result as the next pass wants it.\<close>

lemma finalize_open_attempt:
  assumes ok: "service_ok auth db" and "transact (finalize_attempt now ids i (at_token x) result) db = (Inr read, db')"
    and s: "find_settlement i db = Some s" "outstanding (st_status s)" and x: "find_attempt i db = Some x"
    and "result_status result = PENDING_RECONCILIATION"
  shows "\<exists>x'. find_attempt i db' = Some x' \<and> at_state x' = RECONCILING \<and> at_lease x' = now \<and> at_token x' = at_token x"
proof -
  obtain mid where f: "finalize_attempt now ids i (at_token x) result db = Inr (read, mid)" "db' = mid\<lparr>db_inserted := []\<rparr>"
    using assms(2) by (auto simp: transact_Inr commit_Inr)
  define x' where "x' = x\<lparr>at_state := RECONCILING,
      at_outcome := Some (if result = Some AMBIGUOUS then OutcomeAmbiguous else OutcomeUnknown), at_lease := now\<rparr>"
  have "settle s PENDING_RECONCILIATION x' db = Inr (read, mid)"
    using f(1) s x assms(6)
    by (auto simp: finalize_attempt_def outstanding_def result_status_def x'_def
        split: if_splits option.splits provider_result.splits)
  moreover have id: "at_settlement x' = i" using service_settlement(6) [OF ok s(1) x] service_settlement(2) [OF ok s(1)]
    by (simp add: x'_def)
  ultimately have "find_attempt i mid = Some x'"
    using find_attempt_upd [of i x' db] x by (auto simp: settle_Inr update_attempt_Inr find_attempt_def update_status_def)
  then show ?thesis by (simp add: f(2) find_attempt_def x'_def)
qed

section \<open>Progress\<close>

text \<open>What a task leaves behind for its settlement: finished, or known to the provider and due at once.\<close>

definition progressed ::
  "(nat \<Rightarrow> 'p \<Rightarrow> app_error + provider_lookup) \<Rightarrow> 'p service \<Rightarrow> payout_claim \<Rightarrow> 'p \<Rightarrow> db \<Rightarrow> 'p \<Rightarrow> bool" where
  "progressed lookup sv claim p db' p' \<longleftrightarrow> decided (lookup (sr_id (cl_settlement claim)) p') \<and>
     (finished (sr_id (cl_settlement claim)) db' \<or>
      lookup (sr_id (cl_settlement claim)) p = Inr NOT_FOUND \<and>
      (\<exists>s x. waiting (sr_id (cl_settlement claim)) s x db' \<and> at_lease x = sv_clock sv 2 \<and> at_token x = cl_token claim))"

lemma progressed_cong:
  assumes "progressed lookup sv claim p db' p'" and "i = sr_id (cl_settlement claim)"
    and "lookup i q = lookup i p" and "lookup i q' = lookup i p'"
    and "find_settlement i db'' = find_settlement i db'" and "find_attempt i db'' = find_attempt i db'"
  shows "progressed lookup sv claim q db'' q'"
  using assms by (simp add: progressed_def finished_def waiting_def)

text \<open>What the tasks of a pass leave alone.\<close>

definition others_kept ::
  "(nat \<Rightarrow> 'p \<Rightarrow> app_error + provider_lookup) \<Rightarrow> nat set \<Rightarrow> db \<Rightarrow> 'p \<Rightarrow> db \<Rightarrow> 'p \<Rightarrow> bool" where
  "others_kept lookup is db p db' p' \<longleftrightarrow> (\<forall>j. j \<notin> is \<longrightarrow> find_settlement j db' = find_settlement j db \<and>
     find_attempt j db' = find_attempt j db \<and> lookup j p' = lookup j p)"

lemma finished_not_waiting: "finished i db \<Longrightarrow> i \<notin> backlog db"
  by (auto simp: finished_def backlog_def waiting_def reconcilable_def)

lemma waiting_unique: "waiting i s x db \<Longrightarrow> waiting i s' x' db \<Longrightarrow> s' = s \<and> x' = x"
  by (simp add: waiting_def)

lemma waiting_due:
  assumes "schema_ok db" and "waiting i s x db" and "at_lease x \<le> now"
  shows "s \<in> set (db_settlements db) \<and> x \<in> set (db_attempts db) \<and> due now s x \<and> st_id s = i"
  using assms find_settlement_Some [OF assms(1)] find_attempt_Some [OF assms(1)]
  by (auto simp: waiting_def due_def)

text \<open>The passes a settlement still needs: one to finish it, and one more to make the provider decide.\<close>

definition work :: "(nat \<Rightarrow> 'p \<Rightarrow> app_error + provider_lookup) \<Rightarrow> db \<Rightarrow> 'p \<Rightarrow> nat" where
  "work lookup db p = (\<Sum>i \<in> backlog db. if decided (lookup i p) then 1 else 2)"

lemma work_bounds: "work lookup db p \<le> 2 * card (backlog db)"
  unfolding work_def using sum_bounded_above [of "backlog db" "\<lambda>i. if decided (lookup i p) then 1 else 2" "2::nat"]
  by (simp add: mult.commute)

lemma work_zero: "work lookup db p = 0 \<longleftrightarrow> backlog db = {}"
  using backlog_finite [of db] by (auto simp: work_def)

lemma work_decreases:
  assumes "backlog db' \<subseteq> backlog db" and "C \<subseteq> backlog db"
    and "\<forall>j. j \<notin> C \<longrightarrow> lookup j p' = lookup j p"
    and "\<forall>i \<in> C. i \<in> backlog db' \<longrightarrow> decided (lookup i p') \<and> \<not> decided (lookup i p)"
  shows "work lookup db' p' + card C \<le> work lookup db p"
proof -
  let ?w = "\<lambda>q i. if decided (lookup i q) then 1 else 2 :: nat"
  have "work lookup db' p' = (\<Sum>i \<in> backlog db. if i \<in> backlog db' then ?w p' i else 0)"
    unfolding work_def using assms(1) by (intro sum.mono_neutral_cong_left [OF backlog_finite]) auto
  moreover have "card C = (\<Sum>i \<in> backlog db. if i \<in> C then 1 else 0)"
    using assms(2) backlog_finite [of db] by (simp add: sum.If_cases Int_absorb1 Int_absorb2)
  ultimately have "work lookup db' p' + card C =
      (\<Sum>i \<in> backlog db. (if i \<in> backlog db' then ?w p' i else 0) + (if i \<in> C then 1 else 0))"
    by (simp add: sum.distrib)
  also have "\<dots> \<le> work lookup db p"
    unfolding work_def using assms(3,4) by (intro sum_mono) auto
  finally show ?thesis .
qed

text \<open>
  The environment of the loop's passes, the last one with index 0: time goes on, the leases
  of the waiting rows have run out, their tokens have room, and all identifiers are new.
\<close>

definition quiet_passes ::
  "(nat \<Rightarrow> nat \<Rightarrow> 'p service) \<Rightarrow> (nat \<Rightarrow> 'p service) \<Rightarrow> nat \<Rightarrow> nat \<Rightarrow> db \<Rightarrow> bool" where
  "quiet_passes per_task sv limit n db \<longleftrightarrow>
     (\<forall>m < n. \<forall>m' < m. \<forall>k. sv_clock (per_task m k) 2 \<le> sv_clock (sv m') 0) \<and>
     (\<forall>m < n. \<forall>i s x. waiting i s x db \<longrightarrow> at_lease x \<le> sv_clock (sv m) 0) \<and>
     (\<forall>i s x. waiting i s x db \<longrightarrow> (\<forall>m \<le> n. int8_fits (at_token x + int m))) \<and>
     (\<forall>m < n. fresh_tasks (per_task m) limit db) \<and>
     (\<forall>m < n. \<forall>m' < m. \<forall>k < limit. \<forall>k' < limit.
        disjoint_ids (sv_uuid (per_task m k) 2) (sv_uuid (per_task m' k') 2))"

section \<open>Tasks and passes\<close>

context deciding_provider
begin

lemma task_progress:
  assumes sv: "serves initiate lookup authority sv" and quiet: "undisturbed sv"
    and ok: "ok (db, p)" and idle: "db_inserted db = []" and claim: "current_claim db claim"
    and fresh: "fresh_ids (sv_uuid sv 2) db"
  obtains read db' p' where "reconcile_claim sv claim False (db, p) = (Inr read, (db', p'))"
    and "ok (db', p')" and "db_inserted db' = []"
    and "only_touches (sr_id (cl_settlement claim)) (sv_uuid sv 2) db db'"
    and "\<forall>j. j \<noteq> sr_id (cl_settlement claim) \<longrightarrow> lookup j p' = lookup j p"
    and "progressed lookup sv claim p db' p'"
proof -
  let ?i = "sr_id (cl_settlement claim)"
  have valid: "valid p" and db_ok: "service_ok (authority p) db" using ok by (simp_all add: world_ok_def)
  from lookup_known [OF valid, of ?i] show ?thesis
  proof
    assume dec: "decided (lookup ?i p)"
    then obtain l where l: "lookup ?i p = Inr l" "decided (Inr l)" by (auto simp: decided_def)
    obtain read db' where t: "reconcile_claim sv claim False (db, p) = (Inr read, (db', p))" "ok (db', p)" "db_inserted db' = []"
      "find_settlement ?i db' = map_option (\<lambda>s. s\<lparr>st_status := decided_status l\<rparr>) (find_settlement ?i db)"
      "only_touches ?i (sv_uuid sv 2) db db'"
      by (rule task_settles [OF sv quiet ok idle claim refl l fresh])
    have "finished ?i db'" using t(4) claim by (auto simp: finished_def decided_status_def current_claim_def)
    with that t dec show ?thesis by (simp add: progressed_def)
  next
    assume new: "lookup ?i p = Inr NOT_FOUND"
    obtain s x where s: "find_settlement ?i db = Some s" "outstanding (st_status s)" "find_attempt ?i db = Some x"
      "cl_token claim = at_token x"
      using claim by (auto simp: current_claim_def)
    obtain r p' where call: "initiate ?i (sr_amount (cl_settlement claim)) (sr_target (cl_settlement claim))
        (sr_quoted (cl_settlement claim)) p = (r, p')" by (metis surj_pair)
    have look: "look_up sv claim (db, p) = (Inr (answer_of r), (db, p'))"
      using new call sv quiet
      by (auto simp: look_up_def serves_def undisturbed_def call_initiate_def Let_def answer_of_def split: sum.split)
    obtain read db' where f:
      "transact (finalize_attempt (sv_clock sv 2) (sv_uuid sv 2) ?i (at_token x) (answer_of r)) db = (Inr read, db')"
      "find_settlement ?i db' = Some (s\<lparr>st_status := result_status (answer_of r)\<rparr>)"
      by (rule finalize_outcome [OF db_ok idle s(1,3,2) fresh, of "sv_clock sv 2" "answer_of r"])
    have rec: "reconcile_claim sv claim False (db, p) = (Inr read, (db', p'))"
      using look f(1) s(4) quiet by (simp add: reconcile_claim_def in_session_def undisturbed_def)
    have "progressed lookup sv claim p db' p'"
    proof (cases "result_status (answer_of r) = PENDING_RECONCILIATION")
      case True
      obtain x' where "find_attempt ?i db' = Some x'" "at_state x' = RECONCILING" "at_lease x' = sv_clock sv 2"
        "at_token x' = at_token x"
        using finalize_open_attempt [OF db_ok f(1) s(1,2,3) True] by blast
      then have "waiting ?i (s\<lparr>st_status := PENDING_RECONCILIATION\<rparr>) x' db'"
        using f(2) True by (simp add: waiting_def reconcilable_def)
      then show ?thesis
        using new s(4) initiate_decides [OF valid new call] \<open>at_lease x' = _\<close> \<open>at_token x' = _\<close>
        unfolding progressed_def by metis
    next
      case False
      then have "finished ?i db'"
        using f(2) by (auto simp: finished_def result_status_def split: option.splits provider_result.splits)
      then show ?thesis using initiate_decides [OF valid new call] by (simp add: progressed_def)
    qed
    moreover have "ok (db', p')" using run_ok [OF reconcile_claim_run [OF sv ok rec] ok] .
    ultimately show ?thesis
      using that [OF rec] transact_idle [OF f(1) idle] finalize_touches [OF f(1) db_ok] initiate_only [OF call] by blast
  qed
qed

lemma claims_progress:
  assumes "\<And>k. serves initiate lookup authority (per_task k)" and "\<And>k. undisturbed (per_task k)"
    and "ok (db, p)" and "db_inserted db = []" and "list_all (current_claim db) claims"
    and "distinct (map (sr_id \<circ> cl_settlement) claims)" and "fresh_tasks per_task (length claims) db"
  shows "\<exists>db' p'. reconcile_claims per_task claims (db, p) = (None, (db', p')) \<and> ok (db', p') \<and> db_inserted db' = [] \<and>
    others_kept lookup ((sr_id \<circ> cl_settlement) ` set claims) db p db' p' \<and>
    (\<forall>claim \<in> set claims. \<exists>k < length claims. progressed lookup (per_task k) claim p db' p') \<and>
    (\<forall>ids. fresh_ids ids db \<longrightarrow> (\<forall>k < length claims. disjoint_ids (sv_uuid (per_task k) 2) ids) \<longrightarrow> fresh_ids ids db')"
  using assms(3-)
proof (induction claims arbitrary: db p)
  case Nil
  then show ?case by (simp add: others_kept_def)
next
  case (Cons claim claims)
  let ?i = "sr_id (cl_settlement claim)" and ?sv = "per_task (length claims)"
  have cur: "current_claim db claim" and fresh: "fresh_ids (sv_uuid ?sv 2) db"
    using Cons.prems(3,5) by (simp_all add: fresh_tasks_def)
  obtain read db1 p1 where t: "reconcile_claim ?sv claim False (db, p) = (Inr read, (db1, p1))" "ok (db1, p1)"
    "db_inserted db1 = []" "only_touches ?i (sv_uuid ?sv 2) db db1"
    "\<forall>j. j \<noteq> ?i \<longrightarrow> lookup j p1 = lookup j p" "progressed lookup ?sv claim p db1 p1"
    by (rule task_progress [OF assms(1,2) Cons.prems(1,2) cur fresh])
  have new: "?i \<notin> (sr_id \<circ> cl_settlement) ` set claims" using Cons.prems(4) by simp
  have "current_claim db1 c" if c: "c \<in> set claims" for c
  proof -
    have "current_claim db c" "sr_id (cl_settlement c) \<noteq> ?i" using Cons.prems(3) new c by (auto simp: list_all_iff image_iff)
    then show ?thesis using current_claim_kept t(4) by blast
  qed
  then have cur1: "list_all (current_claim db1) claims" by (simp add: list_all_iff)
  have fresh1: "fresh_tasks per_task (length claims) db1"
    using fresh_tasks_rest [of ?i per_task "length claims", OF t(4)] Cons.prems(5) by simp
  have dist: "distinct (map (sr_id \<circ> cl_settlement) claims)" using Cons.prems(4) by (simp add: comp_def)
  obtain db' p' where rest: "reconcile_claims per_task claims (db1, p1) = (None, (db', p'))" "ok (db', p')" "db_inserted db' = []"
    "others_kept lookup ((sr_id \<circ> cl_settlement) ` set claims) db1 p1 db' p'"
    "\<forall>c \<in> set claims. \<exists>k < length claims. progressed lookup (per_task k) c p1 db' p'"
    "\<forall>ids. fresh_ids ids db1 \<longrightarrow> (\<forall>k < length claims. disjoint_ids (sv_uuid (per_task k) 2) ids) \<longrightarrow> fresh_ids ids db'"
    using Cons.IH [OF t(2,3) cur1 dist fresh1] by blast
  have "reconcile_claims per_task (claim # claims) (db, p) = (None, (db', p'))" using t(1) rest(1) by simp
  moreover have "others_kept lookup ((sr_id \<circ> cl_settlement) ` set (claim # claims)) db p db' p'"
    using rest(4) t(4,5) by (simp add: others_kept_def only_touches_def)
  moreover have "\<exists>k < length (claim # claims). progressed lookup (per_task k) c p db' p'" if c: "c \<in> set (claim # claims)" for c
  proof (cases "c = claim")
    case True
    have "progressed lookup ?sv claim p db' p'"
      using rest(4) new by (intro progressed_cong [OF t(6) refl]) (simp_all add: others_kept_def)
    with True show ?thesis by auto
  next
    case False
    with c obtain k where k: "k < length claims" "progressed lookup (per_task k) c p1 db' p'" using rest(5) by auto
    have "sr_id (cl_settlement c) \<noteq> ?i" using c False new by (auto simp: image_iff)
    then have "progressed lookup (per_task k) c p db' p'"
      using t(5) by (intro progressed_cong [OF k(2) refl]) simp_all
    with k(1) show ?thesis by (auto intro: less_SucI)
  qed
  moreover have "fresh_ids ids db'"
    if "fresh_ids ids db" "\<forall>k < length (claim # claims). disjoint_ids (sv_uuid (per_task k) 2) ids" for ids
    using rest(6) fresh_ids_kept [OF that(1) t(4)] that(2) by simp
  ultimately show ?case using rest(2,3) by blast
qed

lemma quiet_after_pass:
  assumes quiet: "quiet_passes per_task sv limit (Suc n) db"
    and kept: "others_kept lookup C db p db' p'"
    and C: "\<forall>i \<in> C. finished i db' \<or>
       (\<exists>s x s' x' k. waiting i s x db \<and> waiting i s' x' db' \<and> k < limit \<and>
         at_lease x' = sv_clock (per_task n k) 2 \<and> at_token x' = at_token x + 1)"
    and fresh: "\<forall>ids. fresh_ids ids db \<longrightarrow> (\<forall>k < limit. disjoint_ids (sv_uuid (per_task n k) 2) ids) \<longrightarrow>
       fresh_ids ids db'"
  shows "quiet_passes per_task sv limit n db'"
proof -
  have row: "waiting i s' x' db \<or> (\<exists>s x k. waiting i s x db \<and> k < limit \<and>
      at_lease x' = sv_clock (per_task n k) 2 \<and> at_token x' = at_token x + 1)"
    if w: "waiting i s' x' db'" for i s' x'
  proof (cases "i \<in> C")
    case True
    have "\<not> finished i db'" using w finished_not_waiting backlogI by blast
    with True C obtain s x s'' x'' k where c: "waiting i s x db" "waiting i s'' x'' db'" "k < limit"
      "at_lease x'' = sv_clock (per_task n k) 2" "at_token x'' = at_token x + 1" by blast
    have "x'' = x'" using waiting_unique [OF w c(2)] by simp
    with c show ?thesis by blast
  next
    case False
    with kept w show ?thesis by (simp add: others_kept_def waiting_def)
  qed
  have "at_lease x' \<le> sv_clock (sv m) 0" if "waiting i s' x' db'" "m < n" for i s' x' m
    using row [OF that(1)] quiet that(2) unfolding quiet_passes_def by (metis less_SucI lessI)
  moreover have "int8_fits (at_token x' + int m)" if w: "waiting i s' x' db'" and m: "m \<le> n" for i s' x' m
  proof -
    from row [OF w] show ?thesis
    proof
      assume "waiting i s' x' db"
      with quiet m show ?thesis by (simp add: quiet_passes_def)
    next
      assume "\<exists>s x k. waiting i s x db \<and> k < limit \<and>
        at_lease x' = sv_clock (per_task n k) 2 \<and> at_token x' = at_token x + 1"
      then obtain s x where x: "waiting i s x db" "at_token x' = at_token x + 1" by blast
      have "int8_fits (at_token x + int (Suc m))" using quiet x(1) m unfolding quiet_passes_def by (meson Suc_le_mono)
      moreover have "at_token x' + int m = at_token x + int (Suc m)" by (simp add: x(2))
      ultimately show ?thesis by (simp only:)
    qed
  qed
  moreover have "fresh_tasks (per_task m) limit db'" if m: "m < n" for m
  proof -
    have "fresh_tasks (per_task m) limit db" using quiet m by (simp add: quiet_passes_def)
    moreover have "disjoint_ids (sv_uuid (per_task n k) 2) (sv_uuid (per_task m k') 2)"
      if "k < limit" "k' < limit" for k k'
      using quiet m that unfolding quiet_passes_def by blast
    ultimately show ?thesis using fresh unfolding fresh_tasks_def by blast
  qed
  ultimately show ?thesis using quiet by (simp add: quiet_passes_def)
qed

lemma pass_progress:
  assumes sv: "\<And>k. serves initiate lookup authority (per_task k)" and quiet: "\<And>k. undisturbed (per_task k)"
    and ok: "ok (db, p)" and idle: "db_inserted db = []" and fresh: "fresh_tasks per_task limit db"
    and ready: "\<forall>i s x. waiting i s x db \<longrightarrow> at_lease x \<le> sv_clock sv 0 \<and> int8_fits (at_token x + 1)"
  obtains C db' p' where "run_reconciliation_once per_task sv (\<lambda>_. False) limit (db, p) = (Inr (card C), (db', p'))"
    and "ok (db', p')" and "db_inserted db' = []" and "C \<subseteq> backlog db"
    and "C = {} \<longrightarrow> backlog db = {} \<or> limit = 0"
    and "others_kept lookup C db p db' p'"
    and "\<forall>i \<in> C. decided (lookup i p') \<and> (finished i db' \<or> \<not> decided (lookup i p) \<and>
       (\<exists>s x s' x' k. waiting i s x db \<and> waiting i s' x' db' \<and> k < limit \<and>
         at_lease x' = sv_clock (per_task k) 2 \<and> at_token x' = at_token x + 1))"
    and "\<forall>ids. fresh_ids ids db \<longrightarrow> (\<forall>k < limit. disjoint_ids (sv_uuid (per_task k) 2) ids) \<longrightarrow> fresh_ids ids db'"
proof -
  let ?locked = "\<lambda>_. False" and ?now = "sv_clock sv 0" and ?deadline = "\<lambda>i. lease_deadline sv (Suc i)"
  let ?rows = "due_rows ?locked ?now limit db"
  have db_ok: "service_ok (authority p) db" using ok by (simp add: world_ok_def)
  have sch: "schema_ok db" using service_schema [OF db_ok] .
  note cur = due_rows_current [OF sch, of ?locked ?now limit]
  have row_waits: "waiting (st_id s) s x db" if "(s, x) \<in> set ?rows" for s x
    using that cur(1) due_rows_set [of ?locked ?now limit db]
    by (auto simp: waiting_def list_all_iff batch_row_def due_def)
  then have "list_all (\<lambda>(s, x). int8_fits (at_token x + 1)) ?rows" using ready by (fastforce simp: list_all_iff)
  then obtain claims db1 where
    batch: "transact (claim_due_batch ?locked ?now ?deadline limit) db = (Inr claims, db1)"
    by (rule batch_succeeds [OF db_ok idle])
  note claimed = batch_claims [OF db_ok batch]
  define C where "C = (sr_id \<circ> cl_settlement) ` set claims"
  have C: "C = (st_id \<circ> fst) ` set ?rows" using claimed(2) unfolding C_def by (metis set_map)
  have len: "length claims = card C" using distinct_card [OF claimed(3)] by (simp add: C_def)
  have limit: "length claims \<le> limit" using arg_cong [OF claimed(2), of length] by (simp add: due_rows_def)
  have each: "current_claim db1 c \<and> (\<exists>s x. waiting (sr_id (cl_settlement c)) s x db \<and> cl_token c = at_token x + 1)"
    if "c \<in> set claims" for c
    using claimed(6) [OF that] row_waits by force
  have session: "in_session (claim_due_batch ?locked ?now ?deadline limit) (db, p) = (Inr claims, (db1, p))"
    using batch by (simp add: in_session_def)
  have ok1: "ok (db1, p)" using run_ok [OF batch_run [OF session] ok] .
  have fresh1: "fresh_tasks per_task (length claims) db1"
    using fresh_tasks_less [OF fresh limit] claimed(1) by (auto simp: fresh_tasks_def)
  have idle1: "db_inserted db1 = []" using claimed(1) by auto
  obtain db' p' where tasks: "reconcile_claims per_task claims (db1, p) = (None, (db', p'))" "ok (db', p')" "db_inserted db' = []"
    "others_kept lookup C db1 p db' p'" "\<forall>c \<in> set claims. \<exists>k < length claims. progressed lookup (per_task k) c p db' p'"
    "\<forall>ids. fresh_ids ids db1 \<longrightarrow> (\<forall>k < length claims. disjoint_ids (sv_uuid (per_task k) 2) ids) \<longrightarrow> fresh_ids ids db'"
    using claims_progress [OF sv quiet ok1 idle1 _ claimed(3) fresh1] each unfolding C_def list_all_iff by blast
  have pass: "run_reconciliation_once per_task sv ?locked limit (db, p) = (Inr (card C), (db', p'))"
    using session tasks(1) len by (simp add: run_reconciliation_once_def)
  have sub: "C \<subseteq> backlog db" using row_waits by (fastforce simp: C dest: backlogI)
  have full: "backlog db = {} \<or> limit = 0" if "C = {}"
  proof (rule ccontr)
    assume ne: "\<not> (backlog db = {} \<or> limit = 0)"
    then obtain i s x where w: "waiting i s x db" by (auto simp: backlog_def)
    have "at_lease x \<le> ?now" using ready w by blast
    note row = waiting_due [OF sch w this]
    have "length ?rows < limit" using that ne by (simp add: C)
    then have "(s, x) \<in> set ?rows" using due_rows_all [of ?locked ?now limit db] row by blast
    with that show False by (simp add: C)
  qed
  have kept: "others_kept lookup C db p db' p'"
    using tasks(4) claimed(4,5) by (simp add: others_kept_def C_def)
  have outcome: "decided (lookup i p') \<and> (finished i db' \<or> \<not> decided (lookup i p) \<and>
       (\<exists>s x s' x' k. waiting i s x db \<and> waiting i s' x' db' \<and> k < limit \<and>
         at_lease x' = sv_clock (per_task k) 2 \<and> at_token x' = at_token x + 1))" if i: "i \<in> C" for i
  proof -
    obtain c where c: "c \<in> set claims" "sr_id (cl_settlement c) = i" using i by (auto simp: C_def)
    obtain k where "k < length claims" and k2: "progressed lookup (per_task k) c p db' p'" using tasks(5) c(1) by blast
    with limit have k: "k < limit" "progressed lookup (per_task k) c p db' p'" by simp_all
    obtain s x where "waiting i s x db" "cl_token c = at_token x + 1" using each [OF c(1)] c(2) by blast
    note x = this
    have unknown: "\<not> decided (Inr NOT_FOUND)" by (simp add: decided_def)
    show ?thesis
    proof (cases "finished i db'")
      case False
      with k(2) c(2) obtain s' x' where "lookup i p = Inr NOT_FOUND" "waiting i s' x' db'"
        "at_lease x' = sv_clock (per_task k) 2" "at_token x' = at_token x + 1"
        by (auto simp: progressed_def x(2))
      with x(1) k unknown c(2) show ?thesis unfolding progressed_def by metis
    qed (use k(2) c(2) in \<open>simp add: progressed_def\<close>)
  qed
  have "fresh_ids ids db'" if "fresh_ids ids db" "\<forall>k < limit. disjoint_ids (sv_uuid (per_task k) 2) ids" for ids
    using tasks(6) that limit claimed(1) by auto
  with that [OF pass tasks(2,3) sub _ kept] full outcome show ?thesis by blast
qed

lemma loop_progress:
  assumes "\<And>m k. serves initiate lookup authority (per_task m k)" and "\<And>m k. undisturbed (per_task m k)"
    and "quiet_passes per_task sv limit n db" and "0 < limit"
    and "ok (db, p)" and "db_inserted db = []" and "work lookup db p \<le> n"
  shows "\<exists>db' p'. reconciliation_loop (\<lambda>m. run_reconciliation_once (per_task m) (sv m) (\<lambda>_. False) limit) n (db, p) = (db', p') \<and>
    ok (db', p') \<and> backlog db' = {} \<and>
    (\<forall>i. i \<in> backlog db \<longrightarrow> finished i db' \<and> decided (lookup i p')) \<and>
    (\<forall>i. i \<notin> backlog db \<longrightarrow> find_settlement i db' = find_settlement i db \<and> lookup i p' = lookup i p)"
  using assms(3-)
proof (induction n arbitrary: db p)
  case 0
  then show ?case by (simp add: work_zero)
next
  case (Suc n)
  let ?pass = "\<lambda>m. run_reconciliation_once (per_task m) (sv m) (\<lambda>_. False) limit"
  note quiet = Suc.prems(1)
  have fresh: "fresh_tasks (per_task n) limit db" using quiet by (simp add: quiet_passes_def)
  have ready: "\<forall>i s x. waiting i s x db \<longrightarrow> at_lease x \<le> sv_clock (sv n) 0 \<and> int8_fits (at_token x + 1)"
    using quiet unfolding quiet_passes_def by (metis One_nat_def Suc_le_mono le0 lessI of_nat_1)
  obtain C db1 p1 where one: "?pass n (db, p) = (Inr (card C), (db1, p1))" "ok (db1, p1)" "db_inserted db1 = []"
    "C \<subseteq> backlog db" "C = {} \<longrightarrow> backlog db = {} \<or> limit = 0" "others_kept lookup C db p db1 p1"
    and C: "\<forall>i \<in> C. decided (lookup i p1) \<and> (finished i db1 \<or> \<not> decided (lookup i p) \<and>
       (\<exists>s x s' x' k. waiting i s x db \<and> waiting i s' x' db1 \<and> k < limit \<and>
         at_lease x' = sv_clock (per_task n k) 2 \<and> at_token x' = at_token x + 1))"
    and ids: "\<forall>ids. fresh_ids ids db \<longrightarrow> (\<forall>k < limit. disjoint_ids (sv_uuid (per_task n k) 2) ids) \<longrightarrow> fresh_ids ids db1"
    by (rule pass_progress [OF assms(1,2) Suc.prems(3,4) fresh ready]) blast
  have quiet1: "quiet_passes per_task sv limit n db1"
    by (rule quiet_after_pass [OF quiet one(6) _ ids]) (use C in blast)
  have kept: "find_settlement j db1 = find_settlement j db" "lookup j p1 = lookup j p"
    "j \<in> backlog db1 \<longleftrightarrow> j \<in> backlog db" "finished j db1 \<longleftrightarrow> finished j db" if "j \<notin> C" for j
    using one(6) that by (simp_all add: others_kept_def backlog_def waiting_def finished_def)
  have sub: "backlog db1 \<subseteq> backlog db" using kept(3) one(4) by blast
  have "work lookup db1 p1 + card C \<le> work lookup db p"
    using C finished_not_waiting kept(2) by (intro work_decreases [OF sub one(4)]) blast+
  moreover have "0 < card C \<or> work lookup db p = 0"
    using one(4,5) Suc.prems(2) finite_subset [OF one(4) backlog_finite] by (auto simp: work_zero card_gt_0_iff)
  ultimately have "work lookup db1 p1 \<le> n" using Suc.prems(5) by linarith
  from Suc.IH [OF quiet1 Suc.prems(2) one(2,3) this] obtain db' p' where
    rest: "reconciliation_loop ?pass n (db1, p1) = (db', p')" "ok (db', p')" "backlog db' = {}"
    "\<forall>i. i \<in> backlog db1 \<longrightarrow> finished i db' \<and> decided (lookup i p')"
    "\<forall>i. i \<notin> backlog db1 \<longrightarrow> find_settlement i db' = find_settlement i db1 \<and> lookup i p' = lookup i p1" by blast
  have "finished i db' \<and> decided (lookup i p')" if i: "i \<in> backlog db" for i
  proof (cases "i \<in> backlog db1")
    case False
    then have "i \<in> C" using kept(3) i by blast
    then have "finished i db1" "decided (lookup i p1)" using C False backlogI by blast+
    with False rest(5) show ?thesis by (simp add: finished_def)
  qed (use rest(4) in blast)
  moreover have "find_settlement i db' = find_settlement i db \<and> lookup i p' = lookup i p" if "i \<notin> backlog db" for i
  proof -
    have "i \<notin> C" "i \<notin> backlog db1" using that one(4) sub by blast+
    with rest(5) kept(1,2) show ?thesis by simp
  qed
  ultimately show ?case using one(1) rest(1-3) by simp
qed

end

section \<open>The durable provider\<close>

text \<open>What a finished settlement looks like at the end of a run.\<close>

lemma finished_row:
  assumes cfg: "config_ok cfg" and reach: "reachable_world cfg (db, p)" and run: "(durable_step cfg)\<^sup>*\<^sup>* (db, p) (db', p')"
    and fin: "finished i db'" and s: "find_settlement i db = Some s"
  shows "find_settlement i db' = Some (s\<lparr>st_status := decided_status (projr (durable_lookup i p'))\<rparr>)"
proof -
  have reach': "reachable_world cfg (db', p')" by (rule reachable_run [OF reach run])
  have "evolves db db'" using durable_run_evolves [OF cfg reach run] by simp
  then obtain status where row: "find_settlement i db' = Some (s\<lparr>st_status := status\<rparr>)"
    using s unfolding evolves_def settlements_evolve_def by blast
  have "status = SUCCESS \<or> status = FAILED" using fin row by (auto simp: finished_def)
  moreover have "(status = SUCCESS \<longrightarrow> durable_authority p' i = Some LOOKUP_PAID) \<and>
      (status = FAILED \<longrightarrow> durable_authority p' i = Some LOOKUP_UNPAID)"
    using reachable_parts(7) [OF cfg reach'] service_settlement(1,2) [OF reachable_parts(8) [OF cfg reach'] row]
    unfolding authorities_match_def by force
  ultimately have "status = decided_status (projr (durable_lookup i p'))"
    by (auto simp: decided_status_def durable_authority_def durable_lookup_def)
  with row show ?thesis by simp
qed

text \<open>
  C16: the worker's loop closes its backlog: with the durable provider in its default mode, two
  undisturbed passes for each waiting settlement are enough, for any batch size, to finish them all,
  also those whose payout was never requested or was answered ambiguously, as the provider's
  lookup then says; every other settlement stays as it is.
\<close>

theorem worker_closes_backlog:
  assumes "default_mode cfg" and "reachable_world cfg (db, p)" and "durable_decided p"
    and "\<forall>m k. serves (durable_initiate cfg) durable_lookup durable_authority (per_task m k) \<and> undisturbed (per_task m k)"
    and "quiet_passes per_task sv limit n db" and "0 < limit" and "2 * card (backlog db) \<le> n"
  shows "\<exists>db' p'. reconciliation_loop (\<lambda>m. run_reconciliation_once (per_task m) (sv m) (\<lambda>_. False) limit) n (db, p)
      = (db', p') \<and> backlog db' = {} \<and>
    (\<forall>i s. find_settlement i db = Some s \<longrightarrow>
       (if i \<in> backlog db
        then decided (durable_lookup i p') \<and>
          find_settlement i db' = Some (s\<lparr>st_status := decided_status (projr (durable_lookup i p'))\<rparr>)
        else find_settlement i db' = Some s))"
proof -
  let ?pass = "\<lambda>m. run_reconciliation_once (per_task m) (sv m) (\<lambda>_. False) limit"
  note cfg = default_config [OF assms(1)] and deciding = durable_deciding [OF assms(1)]
  note contract = durable_contract [OF cfg] and ok0 = reachable_ok [OF cfg assms(2)]
  have ok: "world_ok durable_authority durable_decided (db, p)" using ok0 assms(3) by (simp add: world_ok_def)
  have sv: "serves (durable_initiate cfg) durable_lookup durable_authority (per_task m k)" "undisturbed (per_task m k)"
    for m k using assms(4) by simp_all
  have idle: "db_inserted db = []" using reachable_idle [OF assms(2)] by simp
  have "work durable_lookup db p \<le> n" by (rule order_trans [OF work_bounds assms(7)])
  from deciding_provider.loop_progress [OF deciding sv assms(5,6) ok idle this]
  obtain db' p' where loop: "reconciliation_loop ?pass n (db, p) = (db', p')" "backlog db' = {}"
    "\<forall>i. i \<in> backlog db \<longrightarrow> finished i db' \<and> decided (durable_lookup i p')"
    "\<forall>i. i \<notin> backlog db \<longrightarrow> find_settlement i db' = find_settlement i db \<and> durable_lookup i p' = durable_lookup i p"
    by blast
  have run: "(durable_step cfg)\<^sup>*\<^sup>* (db, p) (db', p')"
    unfolding loop(1) [symmetric]
  proof (rule payout_provider.reconciliation_loop_run [OF contract _ ok0])
    fix m v r v'
    assume "world_ok durable_authority durable_valid v" "?pass m v = (r, v')"
    then show "(durable_step cfg)\<^sup>*\<^sup>* v v'" by (rule payout_provider.run_reconciliation_once_run [OF contract sv(1)])
  qed
  have "find_settlement i db' = Some (s\<lparr>st_status := decided_status (projr (durable_lookup i p'))\<rparr>)"
    if "i \<in> backlog db" "find_settlement i db = Some s" for i s
    using finished_row [OF cfg assms(2) run _ that(2)] loop(3) that(1) by blast
  with loop show ?thesis by auto
qed

definition demo_task :: "nat \<Rightarrow> nat \<Rightarrow> durable_provider service" where
  "demo_task m k = demo_service\<lparr>sv_clock := (\<lambda>_. 1000 - int m), sv_uuid := (\<lambda>_. demo_entry (1000 * (m + 1) + 10 * k))\<rparr>"

lemma demo_quiet_passes: "quiet_passes demo_task (\<lambda>m. demo_task m 0) 50 2 pending_db"
proof -
  have rows: "list_all (\<lambda>x. at_token x = 1 \<and> at_lease x = 500) (db_attempts pending_db)"
    "list_all (\<lambda>j. j_id j < 1000) (db_journals pending_db)" "list_all (\<lambda>q. p_id q < 1000) (db_postings pending_db)"
    unfolding demo_dbs by code_simp+
  have x: "at_token x = 1 \<and> at_lease x = 500" if "waiting i s x pending_db" for i s x
    using that rows(1) find_Some_set by (fastforce simp: waiting_def find_attempt_def list_all_iff)
  have "fresh_tasks (demo_task m) 50 pending_db" for m
    using rows(2,3)
    by (fastforce simp: fresh_tasks_def fresh_ids_def demo_task_def demo_entry_def list_all_iff disjoint_ids_def)
  moreover have "disjoint_ids (sv_uuid (demo_task m k) 2) (sv_uuid (demo_task m' k') 2)"
    if "m < 2" "m' < m" "k < 50" "k' < 50" for m m' k k'
    using that by (auto simp: disjoint_ids_def demo_task_def demo_entry_def)
  ultimately show ?thesis using x by (auto simp: quiet_passes_def demo_task_def int8_fits_def)
qed

theorem worker_closes_backlog_witness:
  "\<exists>db' p' s. reconciliation_loop (\<lambda>m. run_reconciliation_once (demo_task m) (demo_task m 0) (\<lambda>_. False) 50) 2
      (pending_db, new_durable_provider) = (db', p') \<and>
     find_settlement 7 db' = Some s \<and> (st_status s = SUCCESS \<or> st_status s = FAILED)"
proof -
  have mode: "default_mode random_config" by (simp add: default_mode_def random_config_def)
  have p: "durable_decided new_durable_provider"
    using new_durable_valid by (simp add: durable_decided_def new_durable_provider_def)
  have env: "\<forall>m k. serves (durable_initiate random_config) durable_lookup durable_authority (demo_task m k) \<and>
      undisturbed (demo_task m k)"
    by (simp add: serves_def undisturbed_def demo_task_def demo_service_def)
  have "list_all (\<lambda>s. st_id s = 7) (db_settlements pending_db)" unfolding demo_dbs by code_simp
  then have "backlog pending_db \<subseteq> {7}"
    using find_Some_set by (fastforce simp: backlog_def waiting_def find_settlement_def list_all_iff)
  then have card: "2 * card (backlog pending_db) \<le> 2" using card_mono [of "{7::nat}"] by fastforce
  have "map_option st_status (find_settlement 7 pending_db) = Some PENDING_RECONCILIATION"
    and "map_option at_state (find_attempt 7 pending_db) = Some RECONCILING"
    unfolding demo_dbs by code_simp+
  then obtain s x where s: "find_settlement 7 pending_db = Some s" "st_status s = PENDING_RECONCILIATION"
    and x: "find_attempt 7 pending_db = Some x" "at_state x = RECONCILING" by auto
  then have "7 \<in> backlog pending_db" by (intro backlogI [of 7 s x]) (simp add: waiting_def reconcilable_def)
  moreover obtain db' p' where "reconciliation_loop
      (\<lambda>m. run_reconciliation_once (demo_task m) (demo_task m 0) (\<lambda>_. False) 50) 2 (pending_db, new_durable_provider) = (db', p')"
    "\<forall>i s. find_settlement i pending_db = Some s \<longrightarrow>
       (if i \<in> backlog pending_db
        then decided (durable_lookup i p') \<and>
          find_settlement i db' = Some (s\<lparr>st_status := decided_status (projr (durable_lookup i p'))\<rparr>)
        else find_settlement i db' = Some s)"
    using worker_closes_backlog [OF mode pending_reachable p env demo_quiet_passes _ card] by auto
  ultimately show ?thesis using s(1) by (fastforce simp: decided_status_def)
qed

end
