(* ===== verification/Pass_Tasks.thy ===== *)
theory Pass_Tasks
  imports Worker_Loop
begin

text \<open>
  The tasks of a worker's pass under \<open>asyncio.gather\<close>: each one is a coroutine that runs from one
  \<open>await\<close> to the next, and the event loop continues any of them that is not done.  Every
  interleaving of the tasks ends after at most five steps of each, with the same promise for every
  claimed settlement as when the tasks run one after the other.
\<close>

section \<open>A task as a coroutine\<close>

datatype task =
    Looking payout_claim
  | Requesting payout_claim
  | Closing payout_claim "provider_result option"
  | Returning payout_claim app_error
  | Fetching nat
  | Done "app_error + settlement_read"

text \<open>\<open>_reconcile_claim\<close> from one \<open>await\<close> to the next.\<close>

fun step_task :: "'p service \<Rightarrow> bool \<Rightarrow> task \<Rightarrow> 'p world \<Rightarrow> task \<times> 'p world" where
  "step_task sv propagate_errors (Looking claim) w =
     (case sv_lookup sv (sr_id (cl_settlement claim)) (snd w) of
        Inl e \<Rightarrow> (Returning claim e, w)
      | Inr LOOKUP_PAID \<Rightarrow> (Closing claim (Some PAID), w)
      | Inr LOOKUP_UNPAID \<Rightarrow> (Closing claim (Some UNPAID), w)
      | Inr NOT_FOUND \<Rightarrow> (Requesting claim, w)
      | Inr _ \<Rightarrow> (Closing claim None, w))"
| "step_task sv propagate_errors (Requesting claim) w =
     (case call_initiate sv claim w of (result, w') \<Rightarrow> (Closing claim result, w'))"
| "step_task sv propagate_errors (Closing claim result) w =
     (case in_session (finalize_attempt (sv_clock sv 2) (sv_uuid sv 2) (sr_id (cl_settlement claim))
             (cl_token claim) result) w of
        (Inr read, w') \<Rightarrow> (Done (Inr read), w')
      | (Inl e, w') \<Rightarrow>
          if e = StaleAttemptToken then (Fetching (sr_id (cl_settlement claim)), w')
          else (Returning claim e, w'))"
| "step_task sv propagate_errors (Returning claim e) w =
     (case in_session (finalize_attempt (sv_clock sv 3) (sv_uuid sv 3) (sr_id (cl_settlement claim))
             (cl_token claim) None) w of
        (Inl e', w') \<Rightarrow>
          if e' \<noteq> StaleAttemptToken then (Done (Inl e'), w')
          else if propagate_errors then (Done (Inl e), w')
          else (Fetching (sr_id (cl_settlement claim)), w')
      | (Inr _, w') \<Rightarrow>
          if propagate_errors then (Done (Inl e), w')
          else (Fetching (sr_id (cl_settlement claim)), w'))"
| "step_task sv propagate_errors (Fetching i) w = (Done (get i (fst w)), w)"
| "step_task sv propagate_errors (Done r) w = (Done r, w)"

fun is_done :: "task \<Rightarrow> bool" where
  "is_done (Done r) \<longleftrightarrow> True"
| "is_done _ \<longleftrightarrow> False"

text \<open>How many steps a task can still take.\<close>

fun steps_left :: "task \<Rightarrow> nat" where
  "steps_left (Looking claim) = 5"
| "steps_left (Requesting claim) = 4"
| "steps_left (Closing claim result) = 3"
| "steps_left (Returning claim e) = 2"
| "steps_left (Fetching i) = 1"
| "steps_left (Done r) = 0"

lemma step_task_decreases:
  "\<not> is_done t \<Longrightarrow> step_task sv propagate t w = (t', w') \<Longrightarrow> steps_left t' < steps_left t"
  by (cases t) (auto split: sum.splits provider_lookup.splits prod.splits if_splits)

lemma step_task_less:
  "\<not> is_done t \<Longrightarrow> (case step_task sv propagate t w of (t', w') \<Rightarrow> steps_left t') < steps_left t"
  by (cases "step_task sv propagate t w") (auto intro: step_task_decreases)

function (sequential) run_task :: "'p service \<Rightarrow> bool \<Rightarrow> task \<Rightarrow> 'p world \<Rightarrow> (app_error + settlement_read) \<times> 'p world" where
  "run_task sv propagate_errors (Done r) w = (r, w)"
| "run_task sv propagate_errors t w =
     (case step_task sv propagate_errors t w of (t', w') \<Rightarrow> run_task sv propagate_errors t' w')"
  by pat_completeness auto
termination
proof (relation "measure (\<lambda>(sv, propagate, t, w). steps_left t)")
  show "wf (measure (\<lambda>(sv :: 'p service, propagate :: bool, t, w :: 'p world). steps_left t))" by simp
qed (simp_all only: in_measure prod.case, (rule step_task_less, simp)+)

text \<open>Alone, the coroutine is the function \<open>reconcile_claim\<close> of the undisturbed service.\<close>

lemma run_task_fetching: "run_task sv propagate (Fetching i) w = get_in i w"
  by (simp add: get_in_def)

lemma run_task_returning:
  assumes "undisturbed sv"
  shows "run_task sv propagate (Returning claim e) w = give_back sv claim propagate e w"
proof -
  have quiet: "await sv k w = w" for k w using assms unfolding undisturbed_def by blast
  obtain r w' where "in_session (finalize_attempt (sv_clock sv 3) (sv_uuid sv 3) (sr_id (cl_settlement claim))
      (cl_token claim) None) w = (r, w')" by (metis surj_pair)
  then show ?thesis by (cases r) (simp_all add: give_back_def quiet get_in_def)
qed

lemma run_task_closing:
  assumes "undisturbed sv"
  shows "run_task sv propagate (Closing claim result) w =
     (case in_session (finalize_attempt (sv_clock sv 2) (sv_uuid sv 2) (sr_id (cl_settlement claim))
             (cl_token claim) result) w of
        (Inr read, w') \<Rightarrow> (Inr read, w')
      | (Inl e, w') \<Rightarrow>
          if e = StaleAttemptToken then get_in (sr_id (cl_settlement claim)) (await sv 8 w')
          else give_back sv claim propagate e w')"
proof -
  have quiet: "await sv k w = w" for k w using assms unfolding undisturbed_def by blast
  obtain r w' where "in_session (finalize_attempt (sv_clock sv 2) (sv_uuid sv 2) (sr_id (cl_settlement claim))
      (cl_token claim) result) w = (r, w')" by (metis surj_pair)
  then show ?thesis
    by (cases r) (simp_all add: get_in_def quiet run_task_returning [OF assms] del: run_task.simps(5))
qed

lemma run_task_looking:
  assumes "undisturbed sv"
  shows "run_task sv propagate (Looking claim) w = reconcile_claim sv claim propagate w"
proof -
  have quiet: "await sv k w = w" for k w using assms unfolding undisturbed_def by blast
  note simps = reconcile_claim_def look_up_def quiet run_task_closing [OF assms] run_task_returning [OF assms]
  obtain r w' where call: "call_initiate sv claim w = (r, w')" by (metis surj_pair)
  show ?thesis
  proof (cases "sv_lookup sv (sr_id (cl_settlement claim)) (snd w)")
    case (Inl e)
    then show ?thesis by (simp add: simps del: run_task.simps(4,5))
  next
    case (Inr l)
    then show ?thesis
      by (cases l) (simp_all add: simps call del: run_task.simps(4,5))
  qed
qed

section \<open>The event loop\<close>

text \<open>Any task that is not done may run to its next \<open>await\<close>.\<close>

inductive gather_step :: "(nat \<Rightarrow> 'p service) \<Rightarrow> task list \<times> 'p world \<Rightarrow> task list \<times> 'p world \<Rightarrow> bool"
  for per_task :: "nat \<Rightarrow> 'p service" where
  gather_task: "k < length ts \<Longrightarrow> \<not> is_done (ts ! k) \<Longrightarrow> step_task (per_task k) False (ts ! k) w = (t', w') \<Longrightarrow>
     gather_step per_task (ts, w) (ts[k := t'], w')"

inductive_cases gather_stepE: "gather_step per_task (ts, w) st"

lemma gather_decreases:
  "gather_step per_task (ts, w) (ts', w') \<Longrightarrow> sum_list (map steps_left ts') < sum_list (map steps_left ts)"
  by (erule gather_stepE) (auto intro!: sum_list_update_less dest: step_task_decreases)

lemma gather_bounded:
  "(gather_step per_task ^^ m) (ts, w) (ts', w') \<Longrightarrow> m + sum_list (map steps_left ts') \<le> sum_list (map steps_left ts)"
proof (induction m arbitrary: ts' w')
  case (Suc m)
  obtain mid v where "(gather_step per_task ^^ m) (ts, w) (mid, v)" "gather_step per_task (mid, v) (ts', w')"
    using Suc.prems by auto
  with Suc.IH [of mid v] gather_decreases [of per_task mid v ts' w'] show ?case by simp
qed simp

text \<open>The loop only stops when all tasks are done.\<close>

lemma gather_continues:
  assumes "t \<in> set ts" and "\<not> is_done t"
  shows "\<exists>st. gather_step per_task (ts, w) st"
proof -
  obtain k where "k < length ts" "ts ! k = t" using assms(1) by (auto simp: in_set_conv_nth)
  moreover obtain t' w' where "step_task (per_task k) False t w = (t', w')" by (metis surj_pair)
  ultimately show ?thesis using gather_task [of k ts per_task w t' w'] assms(2) by blast
qed

lemma gather_finishes:
  "\<exists>m ts' w'. (gather_step per_task ^^ m) (ts, w) (ts', w') \<and> (\<forall>t \<in> set ts'. is_done t)"
proof (induction "sum_list (map steps_left ts)" arbitrary: ts w rule: less_induct)
  case less
  show ?case
  proof (cases "\<forall>t \<in> set ts. is_done t")
    case True
    then have "(gather_step per_task ^^ 0) (ts, w) (ts, w) \<and> (\<forall>t \<in> set ts. is_done t)" by simp
    then show ?thesis by blast
  next
    case False
    then obtain mid v where step: "gather_step per_task (ts, w) (mid, v)"
      using gather_continues by (metis surj_pair)
    with less [OF gather_decreases [OF step]] obtain m ts' w' where
      "(gather_step per_task ^^ m) (mid, v) (ts', w')" "\<forall>t \<in> set ts'. is_done t" by blast
    with relpowp_Suc_I2 [of "gather_step per_task", OF step] show ?thesis by blast
  qed
qed

section \<open>What every task promises meanwhile\<close>

fun task_ok :: "(nat \<Rightarrow> 'p \<Rightarrow> app_error + provider_lookup) \<Rightarrow> ('p \<Rightarrow> nat \<Rightarrow> provider_lookup option) \<Rightarrow>
    'p service \<Rightarrow> payout_claim \<Rightarrow> 'p \<Rightarrow> task \<Rightarrow> db \<Rightarrow> 'p \<Rightarrow> bool" where
  "task_ok lookup authority sv claim p0 (Looking c) db p \<longleftrightarrow> c = claim \<and> current_claim db claim \<and>
     lookup (sr_id (cl_settlement claim)) p = lookup (sr_id (cl_settlement claim)) p0"
| "task_ok lookup authority sv claim p0 (Requesting c) db p \<longleftrightarrow> c = claim \<and> current_claim db claim \<and>
     lookup (sr_id (cl_settlement claim)) p = Inr NOT_FOUND \<and> lookup (sr_id (cl_settlement claim)) p0 = Inr NOT_FOUND"
| "task_ok lookup authority sv claim p0 (Closing c result) db p \<longleftrightarrow> c = claim \<and> current_claim db claim \<and>
     decided (lookup (sr_id (cl_settlement claim)) p) \<and>
     confirmed (authority p) (sr_id (cl_settlement claim)) result \<and>
     (lookup (sr_id (cl_settlement claim)) p0 = Inr NOT_FOUND \<or> result_status result \<noteq> PENDING_RECONCILIATION)"
| "task_ok lookup authority sv claim p0 (Done r) db p \<longleftrightarrow>
     (\<exists>read. r = Inr read) \<and> progressed lookup sv claim p0 db p"
| "task_ok lookup authority sv claim p0 t db p \<longleftrightarrow> False"

lemma task_ok_cong:
  assumes "task_ok lookup authority sv claim p0 t db p" and "i = sr_id (cl_settlement claim)"
    and "lookup i p' = lookup i p" and "\<And>r. confirmed (authority p) i r \<Longrightarrow> confirmed (authority p') i r"
    and "find_settlement i db' = find_settlement i db" and "find_attempt i db' = find_attempt i db"
  shows "task_ok lookup authority sv claim p0 t db' p'"
  using assms by (cases t) (auto simp: current_claim_def intro: progressed_cong)

text \<open>What holds between the steps of the event loop.\<close>

definition gather_ok :: "(nat \<Rightarrow> 'p \<Rightarrow> app_error + provider_lookup) \<Rightarrow> ('p \<Rightarrow> nat \<Rightarrow> provider_lookup option) \<Rightarrow>
    (nat \<Rightarrow> 'p service) \<Rightarrow> payout_claim list \<Rightarrow> db \<Rightarrow> 'p \<Rightarrow> task list \<Rightarrow> db \<Rightarrow> 'p \<Rightarrow> bool" where
  "gather_ok lookup authority per_task claims db0 p0 ts db p \<longleftrightarrow>
     length ts = length claims \<and> db_inserted db = [] \<and>
     (\<forall>k < length ts. task_ok lookup authority (per_task k) (claims ! k) p0 (ts ! k) db p \<and>
        (\<not> is_done (ts ! k) \<longrightarrow> fresh_ids (sv_uuid (per_task k) 2) db)) \<and>
     others_kept lookup ((sr_id \<circ> cl_settlement) ` set claims) db0 p0 db p"

text \<open>The tasks of the pass have different settlements and different identifiers.\<close>

definition separate :: "(nat \<Rightarrow> 'p service) \<Rightarrow> payout_claim list \<Rightarrow> bool" where
  "separate per_task claims \<longleftrightarrow> (\<forall>k < length claims. \<forall>m < length claims. k \<noteq> m \<longrightarrow>
     sr_id (cl_settlement (claims ! k)) \<noteq> sr_id (cl_settlement (claims ! m)) \<and>
     disjoint_ids (sv_uuid (per_task k) 2) (sv_uuid (per_task m) 2))"

lemma separate_tasks:
  assumes "distinct (map (sr_id \<circ> cl_settlement) claims)" and "fresh_tasks per_task (length claims) db"
  shows "separate per_task claims"
  unfolding separate_def
proof (intro allI impI)
  fix k m assume km: "k < length claims" "m < length claims" "k \<noteq> m"
  have "disjoint_ids (sv_uuid (per_task k) 2) (sv_uuid (per_task m) 2)"
  proof (cases "m < k")
    case True
    with assms(2) km show ?thesis by (simp add: fresh_tasks_def)
  next
    case False
    then have "disjoint_ids (sv_uuid (per_task m) 2) (sv_uuid (per_task k) 2)"
      using assms(2) km by (simp add: fresh_tasks_def)
    then show ?thesis by (auto simp: disjoint_ids_def)
  qed
  moreover have "sr_id (cl_settlement (claims ! k)) \<noteq> sr_id (cl_settlement (claims ! m))"
    using assms(1) km by (auto simp: distinct_conv_nth)
  ultimately show "sr_id (cl_settlement (claims ! k)) \<noteq> sr_id (cl_settlement (claims ! m)) \<and>
      disjoint_ids (sv_uuid (per_task k) 2) (sv_uuid (per_task m) 2)" by blast
qed

context deciding_provider
begin

text \<open>A step of a task keeps its promise and touches nothing of the others.\<close>

lemma step_task_ok:
  assumes sv: "serves initiate lookup authority sv" and ok: "ok (db, p)" and idle: "db_inserted db = []"
    and t: "task_ok lookup authority sv claim p0 t db p" and i: "i = sr_id (cl_settlement claim)"
    and fresh: "\<not> is_done t \<Longrightarrow> fresh_ids (sv_uuid sv 2) db"
    and step: "step_task sv False t (db, p) = (t', (db', p'))" and todo: "\<not> is_done t"
  shows "task_ok lookup authority sv claim p0 t' db' p' \<and> run (db, p) (db', p') \<and> db_inserted db' = [] \<and>
    only_touches i (sv_uuid sv 2) db db' \<and> (\<forall>j. j \<noteq> i \<longrightarrow> lookup j p' = lookup j p) \<and>
    (\<not> is_done t' \<longrightarrow> db' = db)"
proof -
  have valid: "valid p" and db_ok: "service_ok (authority p) db" using ok by (simp_all add: world_ok_def)
  have eqs: "sv_lookup sv = lookup" "sv_initiate sv = initiate" using sv by (simp_all add: serves_def)
  show ?thesis
  proof (cases t)
    case (Looking c)
    then have c: "c = claim" "current_claim db claim" "lookup i p = lookup i p0" using t i by simp_all
    from lookup_known [OF valid, of i] show ?thesis
    proof
      assume "lookup i p = Inr NOT_FOUND"
      with step Looking c i idle show ?thesis by (auto simp: eqs only_touches_refl)
    next
      assume dec: "decided (lookup i p)"
      define result where "result = (if lookup i p = Inr LOOKUP_PAID then PAID else UNPAID)"
      have "t' = Closing claim (Some result)" "db' = db" "p' = p"
        using step Looking c i dec by (auto simp: eqs decided_def result_def)
      moreover have "confirmed (authority p) i (Some result)"
        using dec lookup_paid [OF valid] lookup_unpaid [OF valid] by (auto simp: confirmed_def decided_def result_def)
      ultimately show ?thesis
        using c dec i idle by (simp add: only_touches_refl result_def result_status_def)
    qed
  next
    case (Requesting c)
    then have c: "c = claim" "current_claim db claim" "lookup i p = Inr NOT_FOUND" "lookup i p0 = Inr NOT_FOUND"
      using t i by simp_all
    obtain r w' where call: "call_initiate sv claim (db, p) = (r, w')" by (metis surj_pair)
    have eq: "t' = Closing claim r" "w' = (db', p')" using step Requesting c(1) call by simp_all
    obtain r0 where init: "initiate i (sr_amount (cl_settlement claim)) (sr_target (cl_settlement claim))
        (sr_quoted (cl_settlement claim)) p = (r0, p')" and "db' = db"
      using call i unfolding eq(2) by (auto simp: call_initiate_def Let_def eqs split: prod.splits sum.splits)
    with call_run [OF sv ok call [unfolded eq(2)]] c eq(1) i initiate_decides [OF valid c(3) init] initiate_only [OF init]
    show ?thesis by (simp add: idle only_touches_refl)
  next
    case (Closing c result)
    then have c: "c = claim" "current_claim db claim" "decided (lookup i p)" "confirmed (authority p) i result"
      "lookup i p0 = Inr NOT_FOUND \<or> result_status result \<noteq> PENDING_RECONCILIATION"
      using t i by simp_all
    obtain s x where s: "find_settlement i db = Some s" "outstanding (st_status s)" "find_attempt i db = Some x"
      "cl_token claim = at_token x"
      using c(2) i by (auto simp: current_claim_def)
    obtain read db2 where f:
      "transact (finalize_attempt (sv_clock sv 2) (sv_uuid sv 2) i (at_token x) result) db = (Inr read, db2)"
      "find_settlement i db2 = Some (s\<lparr>st_status := result_status result\<rparr>)"
      by (rule finalize_outcome [OF db_ok idle s(1,3,2) fresh [OF todo], of "sv_clock sv 2" result])
    have session: "in_session (finalize_attempt (sv_clock sv 2) (sv_uuid sv 2) i (cl_token claim) result) (db, p)
        = (Inr read, (db2, p))"
      using f(1) s(4) by (simp add: in_session_def)
    have eq: "t' = Done (Inr read)" "db' = db2" "p' = p" using step Closing c(1) session i by simp_all
    have "progressed lookup sv claim p0 db2 p"
    proof (cases "result_status result = PENDING_RECONCILIATION")
      case True
      obtain x' where x': "find_attempt i db2 = Some x'" "at_state x' = RECONCILING" "at_lease x' = sv_clock sv 2"
        "at_token x' = at_token x"
        using finalize_open_attempt [OF db_ok f(1) s(1,2,3) True] by blast
      then have "waiting i (s\<lparr>st_status := PENDING_RECONCILIATION\<rparr>) x' db2"
        using f(2) True by (simp add: waiting_def reconcilable_def)
      with x' c(3,5) True s(4) i show ?thesis unfolding progressed_def by metis
    next
      case False
      then have "finished i db2"
        using f(2) by (auto simp: finished_def result_status_def split: option.splits provider_result.splits)
      with c(3) i show ?thesis by (simp add: progressed_def)
    qed
    moreover have "run (db, p) (db2, p)" by (rule finalize_session_run [OF _ session]) (simp add: c(4))
    ultimately show ?thesis
      using transact_idle [OF f(1) idle] finalize_touches [OF f(1) db_ok] by (simp add: eq)
  qed (use t todo in auto)
qed

lemma gather_step_ok:
  assumes sv: "\<And>k. serves initiate lookup authority (per_task k)" and sep: "separate per_task claims"
    and ok: "ok (db, p)" and inv: "gather_ok lookup authority per_task claims db0 p0 ts db p"
    and step: "gather_step per_task (ts, (db, p)) (ts', (db', p'))"
  shows "gather_ok lookup authority per_task claims db0 p0 ts' db' p' \<and> run (db, p) (db', p')"
proof -
  obtain k t' where k: "k < length ts" "\<not> is_done (ts ! k)" "ts' = ts[k := t']"
    "step_task (per_task k) False (ts ! k) (db, p) = (t', (db', p'))"
    using step by (auto elim: gather_stepE)
  let ?i = "\<lambda>m. sr_id (cl_settlement (claims ! m))"
  have len: "length ts = length claims" and idle: "db_inserted db = []"
    and each: "\<And>m. m < length ts \<Longrightarrow> task_ok lookup authority (per_task m) (claims ! m) p0 (ts ! m) db p"
    and fresh: "\<And>m. m < length ts \<Longrightarrow> \<not> is_done (ts ! m) \<Longrightarrow> fresh_ids (sv_uuid (per_task m) 2) db"
    and kept: "others_kept lookup ((sr_id \<circ> cl_settlement) ` set claims) db0 p0 db p"
    using inv by (simp_all add: gather_ok_def)
  have own: "task_ok lookup authority (per_task k) (claims ! k) p0 t' db' p'" "run (db, p) (db', p')" "db_inserted db' = []"
    "only_touches (?i k) (sv_uuid (per_task k) 2) db db'" "\<forall>j. j \<noteq> ?i k \<longrightarrow> lookup j p' = lookup j p"
    "\<not> is_done t' \<longrightarrow> db' = db"
    using step_task_ok [OF sv ok idle each [OF k(1)] refl fresh [OF k(1)] k(4,2)] by blast+
  have other: "task_ok lookup authority (per_task m) (claims ! m) p0 (ts ! m) db' p' \<and>
      (\<not> is_done (ts ! m) \<longrightarrow> fresh_ids (sv_uuid (per_task m) 2) db')" if m: "m < length ts" "m \<noteq> k" for m
  proof -
    have apart: "?i m \<noteq> ?i k" "disjoint_ids (sv_uuid (per_task k) 2) (sv_uuid (per_task m) 2)"
      using sep m k(1) len unfolding separate_def by metis+
    have "confirmed (authority p') (?i m) r" if "confirmed (authority p) (?i m) r" for r
      using confirmed_later [OF _ own(2) ok] that by simp
    then have "task_ok lookup authority (per_task m) (claims ! m) p0 (ts ! m) db' p'"
      using own(4,5) apart(1) by (intro task_ok_cong [OF each [OF m(1)] refl]) (simp_all add: only_touches_def)
    then show ?thesis using fresh [OF m(1)] fresh_ids_kept [OF _ own(4) apart(2)] by blast
  qed
  have "task_ok lookup authority (per_task m) (claims ! m) p0 (ts' ! m) db' p' \<and>
      (\<not> is_done (ts' ! m) \<longrightarrow> fresh_ids (sv_uuid (per_task m) 2) db')" if m: "m < length ts'" for m
  proof (cases "m = k")
    case True
    with own(1,6) fresh [OF k(1,2)] k(1,3) show ?thesis by simp
  next
    case False
    with other [of m] m k(3) show ?thesis by simp
  qed
  moreover have "?i k \<in> (sr_id \<circ> cl_settlement) ` set claims" using k(1) len by simp
  then have "others_kept lookup ((sr_id \<circ> cl_settlement) ` set claims) db0 p0 db' p'"
    using kept own(4,5) unfolding others_kept_def only_touches_def by metis
  ultimately show ?thesis using own(2,3) len k(3) by (simp add: gather_ok_def)
qed

lemma gather_run_ok:
  assumes sv: "\<And>k. serves initiate lookup authority (per_task k)" and sep: "separate per_task claims"
    and "ok (db, p)" and "gather_ok lookup authority per_task claims db0 p0 ts db p"
    and "(gather_step per_task ^^ m) (ts, (db, p)) (ts', (db', p'))"
  shows "gather_ok lookup authority per_task claims db0 p0 ts' db' p' \<and> run (db, p) (db', p')"
  using assms(5)
proof (induction m arbitrary: ts' db' p')
  case (Suc m)
  obtain ts1 db1 p1 where "(gather_step per_task ^^ m) (ts, (db, p)) (ts1, (db1, p1))"
    and step: "gather_step per_task (ts1, (db1, p1)) (ts', (db', p'))"
    using Suc.prems by auto
  then have IH: "gather_ok lookup authority per_task claims db0 p0 ts1 db1 p1" "run (db, p) (db1, p1)"
    using Suc.IH by blast+
  from gather_step_ok [OF sv sep run_ok [OF IH(2) assms(3)] IH(1) step] IH(2) show ?case
    by (meson rtranclp_trans)
qed (use assms(4) in simp)

end

section \<open>Every interleaving settles\<close>

text \<open>
  C17: the tasks of one pass of the worker, claimed in a reachable world of the durable provider in
  its default mode and continued by the event loop in any order: no interleaving takes more than
  five steps per task, it only stops when all tasks are done, and none of them raised; then each
  claimed settlement is finished as the provider's lookup says, or, if the provider did not know it
  before the pass, known to it now and due for the next pass; no other settlement has changed.
\<close>

theorem gather_settles_in_any_order:
  assumes "default_mode cfg" and "reachable_world cfg (db, p)" and "durable_decided p"
    and "\<forall>k. serves (durable_initiate cfg) durable_lookup durable_authority (per_task k)"
    and "transact (claim_due_batch locked now deadline limit) db = (Inr claims, db1)"
    and "fresh_tasks per_task (length claims) db"
    and "(gather_step per_task ^^ m) (map Looking claims, (db1, p)) (ts, (db', p'))"
  shows "m \<le> 5 * length claims \<and>
    (if \<exists>t \<in> set ts. \<not> is_done t then \<exists>st. gather_step per_task (ts, (db', p')) st
     else (\<forall>t \<in> set ts. \<exists>read. t = Done (Inr read)) \<and>
       (\<forall>i s. find_settlement i db = Some s \<longrightarrow>
          (if i \<in> (sr_id \<circ> cl_settlement) ` set claims
           then decided (durable_lookup i p') \<and>
             (find_settlement i db' = Some (s\<lparr>st_status := decided_status (projr (durable_lookup i p'))\<rparr>) \<or>
              durable_lookup i p = Inr NOT_FOUND \<and> i \<in> backlog db')
           else find_settlement i db' = Some s)))"
proof -
  let ?C = "(sr_id \<circ> cl_settlement) ` set claims"
  note cfg = default_config [OF assms(1)] and deciding = durable_deciding [OF assms(1)]
  note contract = durable_contract [OF cfg] and ok0 = reachable_ok [OF cfg assms(2)]
  have sv: "serves (durable_initiate cfg) durable_lookup durable_authority (per_task k)" for k using assms(4) by simp
  have db_ok: "service_ok (durable_authority p) db" and idle: "db_inserted db = []"
    using ok0 reachable_idle [OF assms(2)] by (simp_all add: world_ok_def)
  note claimed = batch_claims [OF db_ok assms(5)]
  have "in_session (claim_due_batch locked now deadline limit) (db, p) = (Inr claims, (db1, p))"
    using assms(5) by (simp add: in_session_def)
  then have claim_run: "(durable_step cfg)\<^sup>*\<^sup>* (db, p) (db1, p)" by (rule payout_provider.batch_run [OF contract])
  have ok1: "world_ok durable_authority durable_decided (db1, p)"
    using payout_provider.run_ok [OF contract claim_run ok0] assms(3) by (simp add: world_ok_def)
  have start: "gather_ok durable_lookup durable_authority per_task claims db1 p (map Looking claims) db1 p"
    using claimed(1,6) assms(6) by (auto simp: gather_ok_def others_kept_def fresh_tasks_def)
  have inv: "gather_ok durable_lookup durable_authority per_task claims db1 p ts db' p'"
    and steps: "(durable_step cfg)\<^sup>*\<^sup>* (db1, p) (db', p')"
    using deciding_provider.gather_run_ok [OF deciding sv separate_tasks [OF claimed(3) assms(6)] ok1 start assms(7)]
    by simp_all
  have run: "(durable_step cfg)\<^sup>*\<^sup>* (db, p) (db', p')" using claim_run steps by simp
  have "m + sum_list (map steps_left ts) \<le> 5 * length claims"
    using gather_bounded [OF assms(7)] by (simp add: comp_def sum_list_triv)
  moreover have "\<exists>read. t = Done (Inr read)" if fin: "\<forall>t \<in> set ts. is_done t" and t: "t \<in> set ts" for t
  proof -
    obtain r where r: "t = Done r" using fin t by (cases t) auto
    then obtain k where "k < length ts" "ts ! k = Done r" using t by (auto simp: in_set_conv_nth)
    with inv have "\<exists>read. r = Inr read" by (auto simp: gather_ok_def)
    with r show ?thesis by blast
  qed
  moreover have "decided (durable_lookup i p') \<and>
      (find_settlement i db' = Some (s\<lparr>st_status := decided_status (projr (durable_lookup i p'))\<rparr>) \<or>
       durable_lookup i p = Inr NOT_FOUND \<and> i \<in> backlog db')"
    if fin: "\<forall>t \<in> set ts. is_done t" and s: "find_settlement i db = Some s" and i: "i \<in> ?C" for i s
  proof -
    obtain k where k: "k < length ts" "i = sr_id (cl_settlement (claims ! k))"
      using i inv by (auto simp: in_set_conv_nth gather_ok_def)
    then obtain r where "ts ! k = Done r" using fin nth_mem by (cases "ts ! k") fastforce+
    then have "progressed durable_lookup (per_task k) (claims ! k) p db' p'" using inv k(1) by (auto simp: gather_ok_def)
    then show ?thesis
      using finished_row [OF cfg assms(2) run _ s] backlogI k(2) unfolding progressed_def by blast
  qed
  moreover have "find_settlement i db' = Some s" if "find_settlement i db = Some s" "i \<notin> ?C" for i s
    using inv that claimed(4) by (simp add: gather_ok_def others_kept_def)
  ultimately show ?thesis using gather_continues by auto
qed

theorem gather_settles_in_any_order_witness:
  "\<exists>claims db1 m ts db' p' s.
     transact (claim_due_batch (\<lambda>_. False) 1000 (\<lambda>_. 2000) 50) pending_db = (Inr claims, db1) \<and>
     (gather_step (\<lambda>_. demo_service) ^^ m) (map Looking claims, (db1, snd first_call)) (ts, (db', p')) \<and>
     (\<forall>t \<in> set ts. is_done t) \<and> find_settlement 7 db' = Some s \<and> (st_status s = SUCCESS \<or> st_status s = FAILED)"
proof -
  let ?batch = "claim_due_batch (\<lambda>_. False) 1000 (\<lambda>_. 2000) 50"
  have mode: "default_mode random_config" by (simp add: default_mode_def random_config_def)
  have look: "durable_lookup 7 (snd first_call) = Inr LOOKUP_PAID"
    by (simp add: first_call_def durable_initiate_def durable_outcome_def durable_lookup_def find_operation_def
        new_durable_provider_def outcome_for_position_def random_config_def read_operation_def
        submission_of_def Let_def)
  have "durable_decided new_durable_provider"
    using new_durable_valid by (simp add: durable_decided_def new_durable_provider_def)
  then have p: "durable_decided (snd first_call)" by (rule durable_decided_call(1) [OF mode _ first_call_eq])
  have "succeeds (transact ?batch pending_db)" unfolding demo_dbs by code_simp
  then obtain claims db1 where batch: "transact ?batch pending_db = (Inr claims, db1)" using succeeds_eq by blast
  note claimed = batch_claims [OF reachable_parts(8) [OF random_config_ok waiting_reachable] batch]
  have ids: "map (sr_id \<circ> cl_settlement) claims = map (st_id \<circ> fst) (due_rows (\<lambda>_. False) 1000 50 pending_db)"
    by (rule claimed(2))
  have len: "length claims = 1" using arg_cong [OF ids, of length] waiting_batch(1) by (simp only: length_map)
  have fresh: "fresh_tasks (\<lambda>_. demo_service) (length claims) pending_db"
    using waiting_fresh by (simp add: len fresh_tasks_def demo_service_def)
  obtain m ts db' p' where run:
    "(gather_step (\<lambda>_. demo_service) ^^ m) (map Looking claims, (db1, snd first_call)) (ts, (db', p'))"
    "\<forall>t \<in> set ts. is_done t"
    using gather_finishes [of "\<lambda>_. demo_service" "map Looking claims" "(db1, snd first_call)"]
    by (metis surj_pair)
  obtain s where s: "find_settlement 7 pending_db = Some s" using demo_rows(2) by blast
  have "7 \<in> (st_id \<circ> fst) ` set (due_rows (\<lambda>_. False) 1000 50 pending_db)"
    using waiting_batch by (cases "due_rows (\<lambda>_. False) 1000 50 pending_db") auto
  then have claimed7: "7 \<in> (sr_id \<circ> cl_settlement) ` set claims" using ids by (metis set_map)
  have sv: "\<forall>k. serves (durable_initiate random_config) durable_lookup durable_authority demo_service"
    using demo_serves by simp
  from gather_settles_in_any_order [OF mode waiting_reachable p sv batch fresh run(1)] run(2)
  have "\<forall>i s. find_settlement i pending_db = Some s \<longrightarrow> i \<in> (sr_id \<circ> cl_settlement) ` set claims \<longrightarrow>
      find_settlement i db' = Some (s\<lparr>st_status := decided_status (projr (durable_lookup i p'))\<rparr>) \<or>
      durable_lookup i (snd first_call) = Inr NOT_FOUND"
    by (simp split: if_splits) blast
  then have "find_settlement 7 db' = Some (s\<lparr>st_status := decided_status (projr (durable_lookup 7 p'))\<rparr>)"
    using s look claimed7 by fastforce
  then show ?thesis using batch run by (fastforce simp: decided_status_def)
qed

end
