(* ===== verification/Api.thy ===== *)
theory Api
  imports Service_Properties
begin

text \<open>
  The HTTP layer of \<open>app/main.py\<close> with the database check of \<open>app/db.py\<close>: the endpoints over the
  handlers of the service, the status codes of the exception handlers, the choice of the provider
  from the environment, and the startup and shutdown of the application.  Parsing of HTTP and JSON
  belongs to the framework: an endpoint gets its parameters as parsed values, or none when they
  are missing or malformed.
\<close>

section \<open>Responses\<close>

datatype body = SettlementBody settlement_read | Detail string | HealthBody string | ValidationErrors

record http_response =
  hr_status :: nat
  hr_body :: body

definition respond :: "nat \<Rightarrow> body \<Rightarrow> http_response" where
  "respond status body = \<lparr>hr_status = status, hr_body = body\<rparr>"

text \<open>The exception handlers; an exception without one is answered by the server with 500.\<close>

definition exception_response :: "app_error \<Rightarrow> http_response" where
  "exception_response e =
     (case e of
        IdempotencyConflict \<Rightarrow> respond 409 (Detail ''idempotency key conflicts with existing settlement'')
      | InsufficientFunds \<Rightarrow> respond 409 (Detail ''insufficient funds'')
      | SettlementNotFound \<Rightarrow> respond 404 (Detail ''settlement not found'')
      | RateError (RouteNotFound _) \<Rightarrow> respond 422 (Detail ''no route available'')
      | DatabaseUnavailable \<Rightarrow> respond 503 (Detail ''database unavailable'')
      | _ \<Rightarrow> respond 500 (Detail ''Internal Server Error''))"

definition validation_response :: http_response where
  "validation_response = respond 422 ValidationErrors"

section \<open>Endpoints\<close>

text \<open>A header that is required with \<open>min_length=1\<close>; the body of \<open>SettlementCreate\<close>.\<close>

definition header_accepted :: "string option \<Rightarrow> bool" where
  "header_accepted h = (case h of None \<Rightarrow> False | Some v \<Rightarrow> v \<noteq> [])"

definition parse_command :: "(decimal \<times> string) option \<Rightarrow> settlement_create option" where
  "parse_command json =
     (case json of
        None \<Rightarrow> None
      | Some (amount, target) \<Rightarrow>
          (case currency_of target of
             None \<Rightarrow> None
           | Some c \<Rightarrow>
               if amount_accepted amount then Some \<lparr>sc_amount = amount, sc_target = c\<rparr> else None))"

text \<open>A settlement that is still on its way is answered with 202.\<close>

definition settlement_response :: "settlement_read \<Rightarrow> http_response" where
  "settlement_response read =
     respond (if sr_status read = PAYOUT_IN_PROGRESS \<or> sr_status read = PENDING_RECONCILIATION then 202 else 200)
       (SettlementBody read)"

definition create_settlement ::
  "'p service \<Rightarrow> rate_book \<Rightarrow> (decimal \<times> string) option \<Rightarrow> string option \<Rightarrow> string option \<Rightarrow>
     'p world \<Rightarrow> http_response \<times> 'p world" where
  "create_settlement sv rates json idempotency_key owner_id w =
     (case parse_command json of
        None \<Rightarrow> (validation_response, w)
      | Some command \<Rightarrow>
          if \<not> header_accepted idempotency_key \<or> \<not> header_accepted owner_id then (validation_response, w)
          else (case create sv rates (the owner_id) (the idempotency_key) command w of
                  (Inl e, w') \<Rightarrow> (exception_response e, w')
                | (Inr result, w') \<Rightarrow> (settlement_response result, w')))"

definition get_settlement :: "nat option \<Rightarrow> 'p world \<Rightarrow> http_response" where
  "get_settlement settlement_id w =
     (case settlement_id of
        None \<Rightarrow> validation_response
      | Some i \<Rightarrow>
          (case get i (fst w) of
             Inl e \<Rightarrow> exception_response e
           | Inr result \<Rightarrow> respond 200 (SettlementBody result)))"

definition reconcile_settlement :: "'p service \<Rightarrow> nat option \<Rightarrow> 'p world \<Rightarrow> http_response \<times> 'p world" where
  "reconcile_settlement sv settlement_id w =
     (case settlement_id of
        None \<Rightarrow> (validation_response, w)
      | Some i \<Rightarrow>
          (case reconcile sv i w of
             (Inl e, w') \<Rightarrow> (exception_response e, w')
           | (Inr result, w') \<Rightarrow> (settlement_response result, w')))"

text \<open>\<open>check_database\<close>: what the probe query raised, if anything.\<close>

datatype probe = Answered | SQLAlchemyError | OSError | OtherError app_error

definition check_database :: "probe \<Rightarrow> app_error + unit" where
  "check_database probe =
     (case probe of
        Answered \<Rightarrow> Inr ()
      | OtherError e \<Rightarrow> Inl e
      | _ \<Rightarrow> Inl DatabaseUnavailable)"

definition health :: "(app_error + unit) \<Rightarrow> http_response" where
  "health database_ready =
     (case database_ready of
        Inl e \<Rightarrow> exception_response e
      | Inr _ \<Rightarrow> respond 200 (HealthBody ''ok''))"

section \<open>The application's life\<close>

definition provider_from_environment :: "string option \<Rightarrow> app_error + provider_config" where
  "provider_from_environment payout_mode =
     (let mode = (case payout_mode of None \<Rightarrow> ''random'' | Some m \<Rightarrow> m)
      in if mode \<noteq> ''random'' \<and> mode \<noteq> ''load'' then Inl (RuntimeError (''unsupported PAYOUT_MODE: '' @ mode))
         else Inr \<lparr>pc_outcomes = [], pc_timeout_lookup = UNKNOWN, pc_load_mode = (mode = ''load'')\<rparr>)"

text \<open>The rate book and whether the reconciliation loop runs.\<close>

record application =
  ap_rates :: rate_book
  ap_reconciling :: bool

text \<open>Entering the lifespan; \<open>pass\<close> is the reconciliation pass that runs before the first request.\<close>

definition publish_first :: "bool \<Rightarrow> rate_book \<Rightarrow> (rate_error + unit) \<times> rate_book" where
  "publish_first owns_rates rates =
     (if \<not> owns_rates then (Inr (), rates)
      else (case publish (generate_edges 1) 1 rates of
        (Inl e, rates') \<Rightarrow> (Inl e, rates')
      | (Inr _, rates') \<Rightarrow> (Inr (), rates')))"

definition startup ::
  "bool \<Rightarrow> bool \<Rightarrow> ('w \<Rightarrow> (app_error + nat) \<times> 'w) \<Rightarrow> application \<Rightarrow> 'w \<Rightarrow> (app_error + unit) \<times> application \<times> 'w" where
  "startup owns_rates owns_provider pass app w =
     (case publish_first owns_rates (ap_rates app) of
        (Inl e, rates) \<Rightarrow> (Inl (RateError e), app\<lparr>ap_rates := rates\<rparr>, w)
      | (Inr _, rates) \<Rightarrow>
          (case start generate_edges rates of
             (Inl e, rates') \<Rightarrow> (Inl (RateError e), app\<lparr>ap_rates := rates'\<rparr>, w)
           | (Inr _, rates') \<Rightarrow>
               if \<not> owns_provider then (Inr (), app\<lparr>ap_rates := rates'\<rparr>, w)
               else (case pass w of
                  (Inl e, w') \<Rightarrow> (Inl e, app\<lparr>ap_rates := rates'\<rparr>, w')
                | (Inr _, w') \<Rightarrow> (Inr (), app\<lparr>ap_rates := rates', ap_reconciling := True\<rparr>, w'))))"

text \<open>Leaving it: the loop ends after its pass, then the publishing task is stopped.\<close>

definition shutdown :: "application \<Rightarrow> (app_error + unit) \<times> application" where
  "shutdown app =
     (case stop (ap_rates app) of
        (Inl e, rates) \<Rightarrow> (Inl (RateError e), app\<lparr>ap_rates := rates, ap_reconciling := False\<rparr>)
      | (Inr _, rates) \<Rightarrow> (Inr (), app\<lparr>ap_rates := rates, ap_reconciling := False\<rparr>))"

end
