(* ===== verification/Api_Properties.thy ===== *)
theory Api_Properties
  imports Api
begin

text \<open>
  What the HTTP layer promises: the status code of a settlement request tells whether the
  settlement is finished, and an application that started has rates for every currency.
\<close>

section \<open>A request never answers a reserved settlement\<close>

definition advanced :: "nat \<Rightarrow> db \<Rightarrow> bool" where
  "advanced i db \<longleftrightarrow> (\<exists>s. find_settlement i db = Some s \<and> st_status s \<noteq> S_RESERVED)"

lemma later_advanced: "later a b \<Longrightarrow> a \<noteq> S_RESERVED \<Longrightarrow> b \<noteq> S_RESERVED"
  by (cases a) (auto simp: later_def status_rank_def)

lemma advanced_evolves: "advanced i db \<Longrightarrow> evolves db db' \<Longrightarrow> advanced i db'"
  by (fastforce simp: advanced_def evolves_def settlements_evolve_def dest: later_advanced)

lemma advanced_get: "advanced i db \<Longrightarrow> get i db = Inr read \<Longrightarrow> sr_status read \<noteq> S_RESERVED"
  using orm_fields(5) by (fastforce simp: advanced_def get_def)

lemma get_in_read: "get_in i w = (Inr read, w') \<Longrightarrow> get i (fst w) = Inr read"
  by (auto simp: get_in_def)

lemma claim_advances:
  assumes ok: "service_ok auth db" and claim: "transact (claim_reserved deadline i) db = (Inr c, db')"
  shows "advanced i db'"
proof -
  obtain s where s: "find_settlement i db = Some s"
    using claim by (auto simp: transact_Inr claim_reserved_def split: option.splits)
  have id: "st_id s = i" using service_settlement [OF ok s] by simp
  show ?thesis
  proof (cases "st_status s = S_RESERVED")
    case False
    with claim s have "db' = db\<lparr>db_inserted := []\<rparr>"
      by (simp add: transact_Inr claim_reserved_def commit_Inr)
    with s False show ?thesis by (simp add: advanced_def find_settlement_def)
  next
    case True
    then obtain x mid where "insert_attempt x (update_status i PAYOUT_IN_PROGRESS db) = Inr mid" "db' = mid\<lparr>db_inserted := []\<rparr>"
      using claim s by (auto simp: transact_Inr claim_reserved_def bind_result_eq_Inr commit_Inr)
    then have "find_settlement i db' = find_settlement i (update_status i PAYOUT_IN_PROGRESS db)"
      by (simp add: insert_attempt_Inr find_settlement_def)
    then show ?thesis using s id by (simp add: advanced_def find_settlement_status)
  qed
qed

lemma finalize_advanced:
  "finalize_attempt now ids i token result db = Inr (read, db') \<Longrightarrow> sr_status read \<noteq> S_RESERVED"
  by (auto simp: finalize_attempt_def bind_result_eq_Inr settle_Inr dest: orm_fields(5)
      split: option.splits if_splits provider_result.splits)

context payout_provider
begin

lemma pay_reserved_advanced:
  assumes sv: "serves initiate lookup authority sv" and ok: "ok w" and pay: "pay_reserved sv i w = (Inr read, w')"
  shows "sr_status read \<noteq> S_RESERVED"
proof -
  obtain c w1 where c: "in_session (claim_reserved (lease_deadline sv 0) i) w = (c, w1)" by (metis surj_pair)
  have ok1: "ok w1" using claim_run [OF c] run_ok ok by blast
  note await = await_run [OF sv]
  have adv: "advanced i (fst w1)" if "c = Inr v" for v
    using c that ok claim_advances by (fastforce simp: in_session_eq world_ok_def)
  have later: "advanced i (fst v)" if "c = Inr z" "run w1 v" for v z
    using adv that run_evolves [OF _ ok1] advanced_evolves by blast
  consider (got) "c = Inr None" "get_in i (await sv 2 w1) = (Inr read, w')" | (claim) cl where "c = Inr (Some cl)"
    using pay c by (auto simp: pay_reserved_def split: sum.splits option.splits)
  then show ?thesis
  proof cases
    case got
    have "advanced i (fst (await sv 2 w1))" by (rule later [OF got(1) await])
    moreover have "get i (fst (await sv 2 w1)) = Inr read" by (rule get_in_read [OF got(2)])
    ultimately show ?thesis by (rule advanced_get)
  next
    case claim
    obtain result w2 where call: "call_initiate sv cl (await sv 2 w1) = (result, w2)" by (metis surj_pair)
    obtain f w3 where fin: "in_session (finalize_attempt (sv_clock sv 1) (sv_uuid sv 1) i (cl_token cl) result)
        (await sv 3 w2) = (f, w3)" by (metis surj_pair)
    have 2: "run w1 w2" "ok w2" "confirmed (authority (snd w2)) i result"
    proof -
      have "sr_id (cl_settlement cl) = i"
        using c claim claim_reserved_id by (auto simp: in_session_eq transact_Inr)
      then show "run w1 w2" "ok w2" "confirmed (authority (snd w2)) i result"
        using call_run [OF sv run_ok [OF await ok1] call] await run_ok [OF _ ok1] by (metis rtranclp_trans)+
    qed
    have "run w2 w3"
      using finalize_session_run [OF confirmed_later [OF 2(3) await 2(2)] fin] await by (metis rtranclp_trans)
    then have 4: "run w1 (await sv 4 w3)" using 2(1) await by (metis rtranclp_trans)
    have "(f = Inr read) \<or> get_in i (await sv 4 w3) = (Inr read, w')"
      using pay c claim call fin by (auto simp: pay_reserved_def split: sum.splits if_splits)
    then show ?thesis
    proof
      assume "f = Inr read"
      then show ?thesis using fin finalize_advanced by (auto simp: in_session_eq transact_Inr)
    next
      assume "get_in i (await sv 4 w3) = (Inr read, w')"
      then have "get i (fst (await sv 4 w3)) = Inr read" by (rule get_in_read)
      with later [OF claim 4] show ?thesis by (rule advanced_get)
    qed
  qed
qed

lemma resume_advanced:
  assumes "serves initiate lookup authority sv" and "ok w" and "resume sv s fingerprint w = (Inr read, w')"
  shows "sr_status read \<noteq> S_RESERVED"
  using assms pay_reserved_advanced by (auto simp: resume_def dest: orm_fields(5) split: sum.splits if_splits)

lemma create_advanced:
  assumes sv: "serves initiate lookup authority sv" and ok: "ok w" and book: "readable_book rates"
    and create: "create sv rates owner key command w = (Inr read, w')"
  shows "sr_status read \<noteq> S_RESERVED"
proof -
  note await = await_run [OF sv]
  let ?w0 = "await sv 0 w" and ?fp = "request_fingerprint owner command"
  have ok0: "ok ?w0" using run_ok [OF await ok] .
  show ?thesis
  proof (cases "find_by_key owner key (fst w)")
    case (Some s)
    then have "resume sv s ?fp ?w0 = (Inr read, w')" using create by (simp add: create_def)
    then show ?thesis by (rule resume_advanced [OF sv ok0])
  next
    case None
    then obtain q where q: "quote rates (sc_target command) = Inr q"
      using create by (auto simp: create_def split: sum.splits)
    obtain u w1 where sub: "in_session (submit (sv_uuid sv 0) (sv_new_id sv) owner key ?fp command q) ?w0 = (u, w1)"
      by (metis surj_pair)
    have "ok w1" using submit_session_run [OF quoted_readable [OF book q] sub] run_ok ok0 by blast
    then have ok2: "ok (await sv 1 w1)" using run_ok [OF await] by blast
    consider "pay_reserved sv (sv_new_id sv) (await sv 1 w1) = (Inr read, w')"
      | s where "resume sv s ?fp (await sv 1 w1) = (Inr read, w')"
      using create None q sub by (auto simp: create_def split: sum.splits if_splits option.splits)
    then show ?thesis using pay_reserved_advanced [OF sv ok2] resume_advanced [OF sv ok2] by cases blast+
  qed
qed

end

section \<open>Properties\<close>

text \<open>A settlement in the response is an answer of \<open>create\<close>.\<close>

lemma settlement_answer:
  assumes "create_settlement sv rates json idempotency_key owner_id w = (response, w')"
    and "hr_body response = SettlementBody read"
  shows "\<exists>command. create sv rates (the owner_id) (the idempotency_key) command w = (Inr read, w') \<and>
    response = settlement_response read"
proof -
  have "exception_response e = response \<Longrightarrow> False" for e
    using assms(2) by (auto simp: exception_response_def respond_def split: app_error.splits rate_error.splits)
  then show ?thesis
    using assms
    by (auto simp: create_settlement_def validation_response_def respond_def settlement_response_def
        split: option.splits if_splits sum.splits prod.splits)
qed

text \<open>
  C23: the status code of \<open>POST /settlements\<close> tells how far the settlement is: 200 answers a settlement
  that succeeded or failed, 202 one that is still on its way, whatever other tasks do meanwhile; a
  settlement whose payout was not started is never answered.
\<close>

theorem post_status_tells_progress:
  assumes "config_ok cfg" and "reachable_world cfg w" and "readable_book rates"
    and "serves (durable_initiate cfg) durable_lookup durable_authority sv"
    and "create_settlement sv rates json idempotency_key owner_id w = (response, w')"
    and "hr_body response = SettlementBody read"
  shows "(hr_status response = 200 \<and> (sr_status read = SUCCESS \<or> sr_status read = FAILED)) \<or>
    (hr_status response = 202 \<and> (sr_status read = PAYOUT_IN_PROGRESS \<or> sr_status read = PENDING_RECONCILIATION))"
proof -
  obtain command where c: "create sv rates (the owner_id) (the idempotency_key) command w = (Inr read, w')"
    and r: "response = settlement_response read"
    using settlement_answer [OF assms(5,6)] by blast
  have "sr_status read \<noteq> S_RESERVED"
    by (rule payout_provider.create_advanced [OF durable_contract [OF assms(1)] assms(4) reachable_ok [OF assms(1,2)] assms(3) c])
  then show ?thesis
    by (cases "sr_status read") (simp_all add: r settlement_response_def respond_def)
qed

lemma demo_posted:
  "\<exists>read w'. create_settlement demo_service demo_book (Some (DFin 25000 (-2), ''EUR'')) (Some ''k1'')
      (Some ''demo-customer'') (demo_db, new_durable_provider) = (settlement_response read, w') \<and> sr_status read = SUCCESS"
proof -
  obtain read db' where c: "create demo_service demo_book ''demo-customer'' ''k1'' demo_command
      (demo_db, new_durable_provider) = (Inr read, (db', snd first_call))" "sr_status read = SUCCESS"
    using demo_created by blast
  have "parse_command (Some (DFin 25000 (-2), ''EUR'')) = Some demo_command"
    unfolding demo_command_def by code_simp
  then have "create_settlement demo_service demo_book (Some (DFin 25000 (-2), ''EUR'')) (Some ''k1'')
      (Some ''demo-customer'') (demo_db, new_durable_provider) = (settlement_response read, (db', snd first_call))"
    using c(1) by (simp add: create_settlement_def header_accepted_def)
  with c(2) show ?thesis by blast
qed

theorem post_status_tells_progress_witness:
  "\<exists>read response w'. create_settlement demo_service demo_book (Some (DFin 25000 (-2), ''EUR'')) (Some ''k1'')
      (Some ''demo-customer'') (demo_db, new_durable_provider) = (response, w') \<and>
     hr_body response = SettlementBody read \<and> hr_status response = 200"
proof -
  obtain read w' where r: "create_settlement demo_service demo_book (Some (DFin 25000 (-2), ''EUR'')) (Some ''k1'')
      (Some ''demo-customer'') (demo_db, new_durable_provider) = (settlement_response read, w')" and "sr_status read = SUCCESS"
    using demo_posted by blast
  have b: "hr_body (settlement_response read) = SettlementBody read" by (simp add: settlement_response_def respond_def)
  from post_status_tells_progress [OF random_config_ok demo_start demo_readable(2) demo_serves r b] \<open>sr_status read = SUCCESS\<close>
  have "hr_status (settlement_response read) = 200" by auto
  with r b show ?thesis by blast
qed

text \<open>
  C24: a settlement that \<open>POST /settlements\<close> answered can be fetched for good: whatever happens after
  the answer, \<open>GET /settlements/{id}\<close> answers 200 with the same settlement (owner's amount, target,
  quote, route and rate snapshot), in the status of the answer or a later one.
\<close>

theorem answered_settlement_stays_readable:
  assumes "config_ok cfg" and "reachable_world cfg w" and "readable_book rates"
    and "serves (durable_initiate cfg) durable_lookup durable_authority sv"
    and "create_settlement sv rates json idempotency_key owner_id w = (response, w')"
    and "hr_body response = SettlementBody read" and "(durable_step cfg)\<^sup>*\<^sup>* w' v"
  shows "\<exists>status. get_settlement (Some (sr_id read)) v = respond 200 (SettlementBody (read\<lparr>sr_status := status\<rparr>)) \<and>
    later (sr_status read) status"
proof -
  note contract = durable_contract [OF assms(1)] and ok = reachable_ok [OF assms(1,2)]
  obtain command where c: "create sv rates (the owner_id) (the idempotency_key) command w = (Inr read, w')"
    using settlement_answer [OF assms(5,6)] by blast
  obtain s status where s: "find_settlement (sr_id read) (fst w') = Some s"
    "from_orm_settlement (s\<lparr>st_status := status\<rparr>) = Inr read" "later status (st_status s)"
    using create_answers_its_settlement [OF assms(1-4) c] by blast
  have run: "(durable_step cfg)\<^sup>*\<^sup>* w v"
    using payout_provider.create_run [OF contract assms(4) ok assms(3) c] assms(7) by simp
  have "evolves (fst w') (fst v)"
    using durable_run_evolves [OF assms(1) _ assms(7)] reachable_run [OF assms(2)] payout_provider.create_run [OF contract assms(4) ok assms(3) c]
    by blast
  then obtain status' where t: "find_settlement (sr_id read) (fst v) = Some (s\<lparr>st_status := status'\<rparr>)" "later (st_status s) status'"
    using s(1) unfolding evolves_def settlements_evolve_def by blast
  have "from_orm_settlement (s\<lparr>st_status := status'\<rparr>) = Inr (read\<lparr>sr_status := status'\<rparr>)"
    using s(2) by (auto simp: from_orm_settlement_def bind_result_eq_Inr)
  moreover have "sr_status read = status" using orm_fields(5) [OF s(2)] by simp
  ultimately show ?thesis
    using t later_trans [OF s(3) t(2)] by (auto simp: get_settlement_def get_def)
qed

theorem answered_settlement_stays_readable_witness:
  "\<exists>read response w' status. create_settlement demo_service demo_book (Some (DFin 25000 (-2), ''EUR'')) (Some ''k1'')
      (Some ''demo-customer'') (demo_db, new_durable_provider) = (response, w') \<and>
     hr_body response = SettlementBody read \<and>
     get_settlement (Some (sr_id read)) w' = respond 200 (SettlementBody (read\<lparr>sr_status := status\<rparr>))"
proof -
  obtain read w' where r: "create_settlement demo_service demo_book (Some (DFin 25000 (-2), ''EUR'')) (Some ''k1'')
      (Some ''demo-customer'') (demo_db, new_durable_provider) = (settlement_response read, w')"
    using demo_posted by blast
  have b: "hr_body (settlement_response read) = SettlementBody read" by (simp add: settlement_response_def respond_def)
  from answered_settlement_stays_readable [OF random_config_ok demo_start demo_readable(2) demo_serves r b rtranclp.rtrancl_refl]
  show ?thesis using r b by blast
qed

text \<open>
  C30: an application that owns its rates starts whatever the state of its book was, unless the first
  reconciliation pass raises; it then quotes every currency but USD with one version, runs the
  reconciliation loop exactly if it owns its provider, and its shutdown never raises and leaves no
  task behind.
\<close>

theorem started_application_quotes:
  assumes "book_ok (ap_rates app)" and "startup True owns_provider pass app w = (r, app', w')"
    and "\<not> ap_reconciling app"
  shows "(r = Inr () \<longleftrightarrow> \<not> owns_provider \<or> (\<exists>n. fst (pass w) = Inr n)) \<and>
    (r = Inr () \<longrightarrow> (ap_reconciling app' \<longleftrightarrow> owns_provider) \<and> rb_task (ap_rates app') = Publishing \<and>
      (\<forall>c. c \<noteq> USD \<longrightarrow> (\<exists>q. quote (ap_rates app') c = Inr q \<and> q_version q = 1)) \<and>
      fst (shutdown app') = Inr () \<and> rb_task (ap_rates (snd (shutdown app'))) = NoTask \<and>
      \<not> ap_reconciling (snd (shutdown app')))"
proof -
  obtain snapshot where pub: "publish (generate_edges 1) 1 (ap_rates app)
      = (Inr snapshot, (ap_rates app)\<lparr>rb_snapshot := Some snapshot\<rparr>)"
    and snap: "snapshot_ok snapshot" "s_version snapshot = 1"
    using publish_generated [of 1 "ap_rates app"] by auto
  let ?book = "(ap_rates app)\<lparr>rb_snapshot := Some snapshot, rb_task := Publishing\<rparr>"
  have "start generate_edges ((ap_rates app)\<lparr>rb_snapshot := Some snapshot\<rparr>) = (Inr (), ?book)"
    by (cases "ap_rates app") (simp add: start_def)
  then have up: "startup True owns_provider pass app w =
      (if \<not> owns_provider then (Inr (), app\<lparr>ap_rates := ?book\<rparr>, w)
       else (case pass w of (Inl e, w') \<Rightarrow> (Inl e, app\<lparr>ap_rates := ?book\<rparr>, w')
         | (Inr _, w') \<Rightarrow> (Inr (), app\<lparr>ap_rates := ?book, ap_reconciling := True\<rparr>, w')))"
    by (simp add: startup_def publish_first_def pub)
  have "compute_routes (generate_edges 1) 1 USD = Inr (s_routes snapshot)"
    using snap by (simp add: snapshot_ok_def)
  then have quotes: "\<exists>q. quote ?book c = Inr q \<and> q_version q = 1" if "c \<noteq> USD" for c
    by (rule generated_quotes [of 1 1 "s_routes snapshot" c]) (use that in \<open>simp_all add: quote_def\<close>)
  show ?thesis
    using assms(2,3) quotes unfolding up by (auto simp: shutdown_def stop_def split: if_splits sum.splits prod.splits)
qed

theorem started_application_quotes_witness:
  "\<exists>app' q. startup True False (\<lambda>w. (Inr 0, w)) \<lparr>ap_rates = new_rate_book, ap_reconciling = False\<rparr> () = (Inr (), app', ()) \<and>
     quote (ap_rates app') PHP = Inr q"
proof -
  let ?app = "\<lparr>ap_rates = new_rate_book, ap_reconciling = False\<rparr>"
  obtain r app' w' where s: "startup True False (\<lambda>w. (Inr 0, w)) ?app () = (r, app', w')" by (metis surj_pair)
  have "book_ok new_rate_book" by (simp add: new_rate_book_def book_ok_def)
  then have "book_ok (ap_rates ?app)" by simp
  from started_application_quotes [OF this s] s show ?thesis by (cases w') auto
qed

end
