(* ===== verification/Migrations.thy ===== *)
theory Migrations
  imports Worker
begin

text \<open>
  The data migration of \<open>alembic/versions/0002_durable_payout_and_ledger_guards.py\<close>: rows of the
  first schema, which has no attempts and no posted flag, become rows of the second.  A database of
  the first schema is one without attempts whose journals are not posted.
\<close>

section \<open>The migration\<close>

text \<open>
  \<open>INSERT INTO payout_attempts ... SELECT ... FROM settlements WHERE status IN (...) ON CONFLICT
  (settlement_id) DO NOTHING\<close>
\<close>

definition migrated_attempt :: "int \<Rightarrow> settlement \<Rightarrow> attempt" where
  "migrated_attempt now s =
     \<lparr>at_settlement = st_id s, at_operation = st_operation s,
      at_state = (if st_status s = PAYOUT_IN_PROGRESS then SUBMITTING else RECONCILING),
      at_token = 1, at_lease = now, at_outcome = None, at_reference = None\<rparr>"

fun migrate_attempts :: "int \<Rightarrow> settlement list \<Rightarrow> statement" where
  "migrate_attempts now [] db = Inr db"
| "migrate_attempts now (s # ss) db =
     (if \<not> (st_status s = PAYOUT_IN_PROGRESS \<or> st_status s = PENDING_RECONCILIATION) then migrate_attempts now ss db
      else if find_attempt (st_id s) db \<noteq> None then migrate_attempts now ss db
      else bind_result (insert_attempt (migrated_attempt now s) db) (migrate_attempts now ss))"

text \<open>\<open>UPDATE journal_transactions SET is_posted = true\<close>, before the triggers exist.\<close>

definition mark_posted :: "db \<Rightarrow> db" where
  "mark_posted db = db\<lparr>db_journals := upd_rows (\<lambda>_. True) (j_posted_update (\<lambda>_. True)) (db_journals db)\<rparr>"

text \<open>The table of the provider's operations is created empty.\<close>

definition upgrade :: "int \<Rightarrow> db \<Rightarrow> app_error + db \<times> durable_provider" where
  "upgrade now db =
     bind_result (migrate_attempts now (db_settlements db) db) (\<lambda>db'. Inr (mark_posted db', new_durable_provider))"

text \<open>The downgrade drops the posted flag, the attempts and the operations of the provider.\<close>

definition downgrade :: "db \<times> durable_provider \<Rightarrow> db" where
  "downgrade w = (fst w)\<lparr>
     db_journals := upd_rows (\<lambda>_. True) (j_posted_update (\<lambda>_. False)) (db_journals (fst w)),
     db_attempts := []\<rparr>"

section \<open>What the migration gives\<close>

lemma migrate_attempts_rows:
  assumes "schema_ok db" and "\<forall>x \<in> set (db_attempts db). at_operation x = at_settlement x"
    and "set ss \<subseteq> set (db_settlements db)"
  shows "\<exists>db'. migrate_attempts now ss db = Inr db' \<and> schema_ok db' \<and> db_settlements db' = db_settlements db \<and>
    db_accounts db' = db_accounts db \<and> db_postings db' = db_postings db \<and> db_journals db' = db_journals db \<and>
    (\<forall>s \<in> set (db_settlements db). find_attempt (st_id s) db' =
       (case find_attempt (st_id s) db of
          Some x \<Rightarrow> Some x
        | None \<Rightarrow> if s \<in> set ss \<and> reconcilable (st_status s) then Some (migrated_attempt now s) else None))"
  using assms
proof (induction ss arbitrary: db)
  case Nil
  then show ?case by (auto split: option.splits)
next
  case (Cons s ss)
  have s: "s \<in> set (db_settlements db)" and op: "st_operation s = st_id s"
    using Cons.prems by (auto simp: schema_defs)
  have uniq: "r = s" if "r \<in> set (db_settlements db)" "st_id r = st_id s" for r
    using Cons.prems(1) s that distinct_key_eq [of st_id "db_settlements db" r s] by (simp add: schema_defs)
  show ?case
  proof (cases "reconcilable (st_status s) \<and> find_attempt (st_id s) db = None")
    case False
    then have step: "migrate_attempts now (s # ss) db = migrate_attempts now ss db"
      by (auto simp: reconcilable_def)
    have same: "(r \<in> set (s # ss) \<and> reconcilable (st_status r)) = (r \<in> set ss \<and> reconcilable (st_status r))"
      if "find_attempt (st_id r) db = None" for r
      using False that by auto
    show ?thesis unfolding step using Cons.IH [OF Cons.prems(1,2)] Cons.prems(3) same
      by (fastforce split: option.splits)
  next
    case True
    let ?x = "migrated_attempt now s"
    let ?db1 = "db\<lparr>db_attempts := db_attempts db @ [?x]\<rparr>"
    have x: "at_settlement ?x = st_id s" "at_operation ?x = st_id s" "at_token ?x = 1" "at_reference ?x = None"
      using op by (simp_all add: migrated_attempt_def)
    have none: "st_id s \<notin> at_settlement ` set (db_attempts db)"
      using True by (simp add: find_attempt_def table_simps)
    then have "st_id s \<notin> at_operation ` set (db_attempts db)" using Cons.prems(2) by force
    moreover have "find_settlement (st_id s) db = Some s" using s find_settlement_Some [OF Cons.prems(1)] by simp
    ultimately have ins: "insert_attempt ?x db = Inr ?db1"
      using True x by (simp add: insert_attempt_Inr int8_fits_def)
    have step: "migrate_attempts now (s # ss) db = migrate_attempts now ss ?db1"
      using True ins by (auto simp: reconcilable_def)
    have find: "find_attempt j ?db1 = (if j = st_id s then Some ?x else find_attempt j db)" for j
      using True x by (auto simp: find_attempt_def find_append split: option.split)
    have "schema_ok ?db1" by (rule schema_insert_attempt [OF Cons.prems(1) ins])
    then obtain db' where "migrate_attempts now ss ?db1 = Inr db'" "schema_ok db'" "db_settlements db' = db_settlements db"
      "db_accounts db' = db_accounts db" "db_postings db' = db_postings db" "db_journals db' = db_journals db"
      and f: "\<forall>s \<in> set (db_settlements db). find_attempt (st_id s) db' =
        (case find_attempt (st_id s) ?db1 of Some x \<Rightarrow> Some x
         | None \<Rightarrow> if s \<in> set ss \<and> reconcilable (st_status s) then Some (migrated_attempt now s) else None)"
      using Cons.IH [of ?db1] Cons.prems(2,3) x by auto
    moreover have "find_attempt (st_id r) db' =
       (case find_attempt (st_id r) db of Some x \<Rightarrow> Some x
        | None \<Rightarrow> if r \<in> set (s # ss) \<and> reconcilable (st_status r) then Some (migrated_attempt now r) else None)"
      if r: "r \<in> set (db_settlements db)" for r
    proof (cases "st_id r = st_id s")
      case same: True
      then have "r = s" using uniq r by blast
      with f r True show ?thesis by (simp add: find)
    next
      case False
      with f r show ?thesis by (auto simp: find split: option.splits)
    qed
    ultimately show ?thesis unfolding step by blast
  qed
qed

lemma mark_posted_ok: "schema_ok db \<Longrightarrow> schema_ok (mark_posted db)"
  by (simp add: schema_defs mark_posted_def table_simps)

text \<open>
  C37: the migration of a correct database of the first schema never fails; it marks every journal
  as posted, leaves the other rows as they are, and gives exactly the settlements that are on
  their way an attempt, with the first token and a lease that has expired, so that all of them are
  due for the next pass of the worker.
\<close>

theorem upgrade_resumes_in_flight:
  assumes "schema_ok db" and "db_attempts db = []"
  shows "\<exists>db'. upgrade now db = Inr (db', new_durable_provider) \<and> schema_ok db' \<and>
    db_settlements db' = db_settlements db \<and> db_accounts db' = db_accounts db \<and> db_postings db' = db_postings db \<and>
    (\<forall>j \<in> set (db_journals db'). j_posted j) \<and>
    (\<forall>s \<in> set (db_settlements db).
       (if reconcilable (st_status s)
        then \<exists>x. find_attempt (st_id s) db' = Some x \<and> due now s x \<and> at_token x = 1
        else find_attempt (st_id s) db' = None))"
proof -
  obtain db1 where m: "migrate_attempts now (db_settlements db) db = Inr db1" "schema_ok db1"
    "db_settlements db1 = db_settlements db" "db_accounts db1 = db_accounts db" "db_postings db1 = db_postings db"
    and f: "\<forall>s \<in> set (db_settlements db). find_attempt (st_id s) db1 =
       (case find_attempt (st_id s) db of Some x \<Rightarrow> Some x
        | None \<Rightarrow> if s \<in> set (db_settlements db) \<and> reconcilable (st_status s) then Some (migrated_attempt now s) else None)"
    using migrate_attempts_rows [OF assms(1), of "db_settlements db" now] assms(2) by auto
  have "find_attempt i db = None" for i using assms(2) by (simp add: find_attempt_def)
  then have "if reconcilable (st_status s)
        then \<exists>x. find_attempt (st_id s) (mark_posted db1) = Some x \<and> due now s x \<and> at_token x = 1
        else find_attempt (st_id s) (mark_posted db1) = None" if "s \<in> set (db_settlements db)" for s
    using f that by (auto simp: mark_posted_def due_def migrated_attempt_def)
  moreover have "\<forall>j \<in> set (db_journals (mark_posted db1)). j_posted j" by (simp add: mark_posted_def ball_upd_rows)
  moreover have "db_settlements (mark_posted db1) = db_settlements db" "db_accounts (mark_posted db1) = db_accounts db"
    "db_postings (mark_posted db1) = db_postings db" using m by (simp_all add: mark_posted_def)
  ultimately show ?thesis using m(1) mark_posted_ok [OF m(2)] by (simp add: upgrade_def)
qed

theorem upgrade_resumes_in_flight_witness:
  "\<exists>db' x. upgrade 5 (downgrade (pending_db, new_durable_provider)) = Inr (db', new_durable_provider) \<and> find_attempt 7 db' = Some x \<and> at_token x = 1"
proof -
  let ?db = "downgrade (pending_db, new_durable_provider)"
  have "schema_ok pending_db" using reachable_parts(2) [OF random_config_ok pending_reachable] .
  then have "schema_ok ?db"
    by (simp add: schema_defs downgrade_def table_simps)
  moreover have "db_attempts ?db = []" by (simp add: downgrade_def)
  moreover obtain s where "find_settlement 7 pending_db = Some s" "st_status s = PENDING_RECONCILIATION"
    using demo_rows(2) by auto
  then have "s \<in> set (db_settlements ?db)" "st_id s = 7" "reconcilable (st_status s)"
    using find_Some_set by (fastforce simp: find_settlement_def downgrade_def reconcilable_def)+
  ultimately show ?thesis using upgrade_resumes_in_flight [of ?db 5] by fastforce
qed

end
