(* ===== verification/Catalog.thy ===== *)
theory Catalog
  imports Prelude
begin

text \<open>
  The schema itself: the catalog of types, tables, indexes, functions and triggers, the data
  definition statements of the two migrations in \<open>alembic/versions\<close> with their chain of revisions, the
  run of the due ones in \<open>alembic/env.py\<close>, and the tables that the classes of \<open>app/models.py\<close> declare.
\<close>

section \<open>Objects of the catalog\<close>

datatype column_type = Uuid_Type | String_Type "nat option" | Numeric_Type nat nat | Json_Type |
  Integer_Type | Big_Integer_Type | Boolean_Type | Timestamp_Type | Enum_Type string

record column =
  cn_name :: string
  cn_type :: column_type
  cn_nullable :: bool
  cn_default :: "string option"
  cn_identity :: bool

datatype table_constraint = Primary_Key "string list" | Unique "string option" "string list" |
  Check string string | Foreign_Key string string string

record table =
  tb_name :: string
  tb_columns :: "column list"
  tb_constraints :: "table_constraint list"

record index =
  ix_name :: string
  ix_table :: string
  ix_columns :: "string list"
  ix_unique :: bool
  ix_not_null :: "string option"

record trigger =
  tg_name :: string
  tg_when :: string
  tg_table :: string
  tg_function :: string

record catalog =
  ct_types :: "(string \<times> string list) list"
  ct_tables :: "table list"
  ct_indexes :: "index list"
  ct_functions :: "string list"
  ct_triggers :: "trigger list"

definition empty_catalog :: catalog where
  "empty_catalog = \<lparr>ct_types = [], ct_tables = [], ct_indexes = [], ct_functions = [], ct_triggers = []\<rparr>"

definition required :: "string \<Rightarrow> column_type \<Rightarrow> column" where
  "required name ty = \<lparr>cn_name = name, cn_type = ty, cn_nullable = False, cn_default = None, cn_identity = False\<rparr>"

definition optional :: "string \<Rightarrow> column_type \<Rightarrow> column" where
  "optional name ty = (required name ty)\<lparr>cn_nullable := True\<rparr>"

text \<open>A time stamp that the database sets.\<close>

definition stamp :: "string \<Rightarrow> column" where
  "stamp name = (required name Timestamp_Type)\<lparr>cn_default := Some ''now()''\<rparr>"

section \<open>Data definition statements\<close>

datatype ddl = Create_Type string "string list" | Drop_Type string
  | Create_Table table | Drop_Table string
  | Create_Index index | Drop_Index string
  | Add_Column string column | Set_Not_Null string string | Drop_Column string string
  | Create_Function string | Drop_Function string
  | Create_Trigger trigger | Drop_Trigger string string

datatype ddl_error = Duplicate_Object string | Undefined_Object string | Dependent_Objects string

definition has_type :: "string \<Rightarrow> catalog \<Rightarrow> bool" where
  "has_type n c \<longleftrightarrow> list_ex (\<lambda>t. fst t = n) (ct_types c)"

definition has_table :: "string \<Rightarrow> catalog \<Rightarrow> bool" where
  "has_table n c \<longleftrightarrow> list_ex (\<lambda>t. tb_name t = n) (ct_tables c)"

definition has_index :: "string \<Rightarrow> catalog \<Rightarrow> bool" where
  "has_index n c \<longleftrightarrow> list_ex (\<lambda>x. ix_name x = n) (ct_indexes c)"

definition has_function :: "string \<Rightarrow> catalog \<Rightarrow> bool" where
  "has_function n c \<longleftrightarrow> list_ex (\<lambda>f. f = n) (ct_functions c)"

definition has_column :: "string \<Rightarrow> string \<Rightarrow> catalog \<Rightarrow> bool" where
  "has_column t n c \<longleftrightarrow> list_ex (\<lambda>x. tb_name x = t \<and> list_ex (\<lambda>k. cn_name k = n) (tb_columns x)) (ct_tables c)"

fun enum_type :: "column \<Rightarrow> string list" where
  "enum_type k = (case cn_type k of Enum_Type n \<Rightarrow> [n] | _ \<Rightarrow> [])"

fun foreign_targets :: "table_constraint \<Rightarrow> (string \<times> string) list" where
  "foreign_targets (Foreign_Key k t n) = [(t, n)]"
| "foreign_targets _ = []"

definition table_enums :: "table \<Rightarrow> string list" where
  "table_enums t = concat (map enum_type (tb_columns t))"

definition table_targets :: "table \<Rightarrow> (string \<times> string) list" where
  "table_targets t = concat (map foreign_targets (tb_constraints t))"

fun mentions_column :: "string \<Rightarrow> table_constraint \<Rightarrow> bool" where
  "mentions_column n (Primary_Key ks) \<longleftrightarrow> n \<in> set ks"
| "mentions_column n (Unique name ks) \<longleftrightarrow> n \<in> set ks"
| "mentions_column n (Check name condition) \<longleftrightarrow> False"
| "mentions_column n (Foreign_Key k t m) \<longleftrightarrow> k = n"

definition alter_table :: "string \<Rightarrow> (table \<Rightarrow> table) \<Rightarrow> catalog \<Rightarrow> catalog" where
  "alter_table n f c = c\<lparr>ct_tables := map (\<lambda>t. if tb_name t = n then f t else t) (ct_tables c)\<rparr>"

text \<open>
  One statement.  A table or a type that is used by others is not dropped (\<open>RESTRICT\<close>); indexes and
  triggers go with their table, keys and indexes with their columns.  No \<open>CHECK\<close> of the migrations
  is about a column that they drop.
\<close>

fun execute :: "ddl \<Rightarrow> catalog \<Rightarrow> ddl_error + catalog" where
  "execute (Create_Type n labels) c =
     (if has_type n c then Inl (Duplicate_Object n) else Inr (c\<lparr>ct_types := ct_types c @ [(n, labels)]\<rparr>))"
| "execute (Drop_Type n) c =
     (if \<not> has_type n c then Inl (Undefined_Object n)
      else if list_ex (\<lambda>t. n \<in> set (table_enums t)) (ct_tables c) then Inl (Dependent_Objects n)
      else Inr (c\<lparr>ct_types := filter (\<lambda>t. fst t \<noteq> n) (ct_types c)\<rparr>))"
| "execute (Create_Table t) c =
     (if has_table (tb_name t) c \<or> has_index (tb_name t) c then Inl (Duplicate_Object (tb_name t))
      else if \<not> list_all (\<lambda>n. has_type n c) (table_enums t) \<or> \<not> list_all (\<lambda>(u, k). has_column u k c) (table_targets t)
      then Inl (Undefined_Object (tb_name t))
      else Inr (c\<lparr>ct_tables := ct_tables c @ [t]\<rparr>))"
| "execute (Drop_Table n) c =
     (if \<not> has_table n c then Inl (Undefined_Object n)
      else if list_ex (\<lambda>t. tb_name t \<noteq> n \<and> n \<in> set (map fst (table_targets t))) (ct_tables c)
      then Inl (Dependent_Objects n)
      else Inr (c\<lparr>ct_tables := filter (\<lambda>t. tb_name t \<noteq> n) (ct_tables c),
                  ct_indexes := filter (\<lambda>x. ix_table x \<noteq> n) (ct_indexes c),
                  ct_triggers := filter (\<lambda>g. tg_table g \<noteq> n) (ct_triggers c)\<rparr>))"
| "execute (Create_Index x) c =
     (if has_table (ix_name x) c \<or> has_index (ix_name x) c then Inl (Duplicate_Object (ix_name x))
      else if \<not> list_all (\<lambda>k. has_column (ix_table x) k c) (ix_columns x) then Inl (Undefined_Object (ix_table x))
      else Inr (c\<lparr>ct_indexes := ct_indexes c @ [x]\<rparr>))"
| "execute (Drop_Index n) c =
     (if \<not> has_index n c then Inl (Undefined_Object n)
      else Inr (c\<lparr>ct_indexes := filter (\<lambda>x. ix_name x \<noteq> n) (ct_indexes c)\<rparr>))"
| "execute (Add_Column t k) c =
     (if \<not> has_table t c \<or> \<not> list_all (\<lambda>n. has_type n c) (enum_type k) then Inl (Undefined_Object t)
      else if has_column t (cn_name k) c then Inl (Duplicate_Object (cn_name k))
      else Inr (alter_table t (tb_columns_update (\<lambda>ks. ks @ [k])) c))"
| "execute (Set_Not_Null t n) c =
     (if \<not> has_column t n c then Inl (Undefined_Object n)
      else Inr (alter_table t
        (tb_columns_update (map (\<lambda>k. if cn_name k = n then k\<lparr>cn_nullable := False\<rparr> else k))) c))"
| "execute (Drop_Column t n) c =
     (if \<not> has_column t n c then Inl (Undefined_Object n)
      else if list_ex (\<lambda>u. (t, n) \<in> set (table_targets u)) (ct_tables c) then Inl (Dependent_Objects n)
      else Inr ((alter_table t (tb_columns_update (filter (\<lambda>k. cn_name k \<noteq> n)) \<circ>
            tb_constraints_update (filter (\<lambda>k. \<not> mentions_column n k))) c)
          \<lparr>ct_indexes := filter (\<lambda>x. \<not> (ix_table x = t \<and> n \<in> set (ix_columns x))) (ct_indexes c)\<rparr>))"
| "execute (Create_Function n) c =
     (if has_function n c then Inl (Duplicate_Object n) else Inr (c\<lparr>ct_functions := ct_functions c @ [n]\<rparr>))"
| "execute (Drop_Function n) c =
     (if list_ex (\<lambda>g. tg_function g = n) (ct_triggers c) then Inl (Dependent_Objects n)
      else Inr (c\<lparr>ct_functions := filter (\<lambda>f. f \<noteq> n) (ct_functions c)\<rparr>))"
| "execute (Create_Trigger g) c =
     (if \<not> has_table (tg_table g) c \<or> \<not> has_function (tg_function g) c then Inl (Undefined_Object (tg_name g))
      else if list_ex (\<lambda>h. tg_name h = tg_name g \<and> tg_table h = tg_table g) (ct_triggers c)
      then Inl (Duplicate_Object (tg_name g))
      else Inr (c\<lparr>ct_triggers := ct_triggers c @ [g]\<rparr>))"
| "execute (Drop_Trigger n t) c =
     Inr (c\<lparr>ct_triggers := filter (\<lambda>g. \<not> (tg_name g = n \<and> tg_table g = t)) (ct_triggers c)\<rparr>)"

fun run_ddl :: "ddl list \<Rightarrow> catalog \<Rightarrow> ddl_error + catalog" where
  "run_ddl [] c = Inr c"
| "run_ddl (s # ss) c = bind_result (execute s c) (run_ddl ss)"

lemma run_ddl_append: "run_ddl (ss @ ts) c = bind_result (run_ddl ss c) (run_ddl ts)"
  by (induction ss arbitrary: c) (auto simp: bind_result_def split: sum.splits)

text \<open>
  \<open>with context.begin_transaction(): context.run_migrations()\<close>.  The tool keeps the revision of the
  database in a table of its own, written in the same transaction: the second component of the
  state.  Its command (upgrade or downgrade) decides from that revision which scripts are due and
  which revision each of them leads to; this decision is the argument \<open>steps\<close>.  The database stays
  as it was if a statement fails.
\<close>

type_synonym migration_step = "ddl list \<times> string option"

definition due_statements :: "migration_step list \<Rightarrow> ddl list" where
  "due_statements steps = concat (map fst steps)"

definition do_run_migrations ::
  "(string option \<Rightarrow> migration_step list) \<Rightarrow> catalog \<times> string option \<Rightarrow> ddl_error option \<times> catalog \<times> string option" where
  "do_run_migrations steps = (\<lambda>(c, v).
     case run_ddl (due_statements (steps v)) c of
       Inl e \<Rightarrow> (Some e, c, v)
     | Inr c' \<Rightarrow> (None, c', fold (\<lambda>(_, revision) _. revision) (steps v) v))"

text \<open>
  Online, the scripts run on the connected database; offline, the statements that they would execute
  are printed, for someone to run them in one transaction.
\<close>

definition run_migrations_offline :: "(string option \<Rightarrow> migration_step list) \<Rightarrow> string option \<Rightarrow> ddl list" where
  "run_migrations_offline steps v = due_statements (steps v)"

definition run_migrations_online ::
  "(string option \<Rightarrow> migration_step list) \<Rightarrow> catalog \<times> string option \<Rightarrow> ddl_error option \<times> catalog \<times> string option" where
  "run_migrations_online steps w = do_run_migrations steps w"

definition run_environment ::
  "bool \<Rightarrow> (string option \<Rightarrow> migration_step list) \<Rightarrow> catalog \<times> string option \<Rightarrow>
     ddl list \<times> ddl_error option \<times> catalog \<times> string option" where
  "run_environment is_offline_mode steps w =
     (if is_offline_mode then (run_migrations_offline steps (snd w), None, w)
      else ([], run_migrations_online steps w))"

lemma offline_script_does_the_same:
  assumes "run_environment True steps (c, v) = (script, None, c, v)"
    and "run_environment False steps (c, v) = ([], None, c', v')"
  shows "run_ddl script c = Inr c'"
  using assms by (auto simp: run_environment_def run_migrations_offline_def run_migrations_online_def
      do_run_migrations_def split: sum.splits)

text \<open>The database that the migration tool connects to.\<close>

definition database_url :: "string option \<Rightarrow> string option \<Rightarrow> string option \<Rightarrow> string option" where
  "database_url attribute environment main_option =
     (case attribute of
        Some (ch # url) \<Rightarrow> Some (ch # url)
      | _ \<Rightarrow> (case environment of Some url \<Rightarrow> Some url | None \<Rightarrow> main_option))"

section \<open>The migrations\<close>

definition initial_types :: "(string \<times> string list) list" where
  "initial_types =
    [(''currency'', [''USD'', ''USDC'', ''EUR'', ''PHP'', ''AED'']),
     (''account_class'', [''ASSET'', ''LIABILITY'']),
     (''account_purpose'', [''AVAILABLE'', ''RESERVED'', ''OMNIBUS'']),
     (''posting_side'', [''DEBIT'', ''CREDIT'']),
     (''journal_event'', [''OPENING'', ''RESERVE'', ''CONSUME'', ''RELEASE'']),
     (''settlement_status'', [''RESERVED'', ''PAYOUT_IN_PROGRESS'', ''SUCCESS'', ''FAILED'', ''PENDING_RECONCILIATION''])]"

definition initial_upgrade :: "ddl list" where
  "initial_upgrade = map (\<lambda>(n, labels). Create_Type n labels) initial_types @
    [Create_Table \<lparr>tb_name = ''accounts'',
       tb_columns =
         [required ''id'' Uuid_Type,
          required ''owner_id'' (String_Type None),
          required ''currency'' (Enum_Type ''currency''),
          required ''account_class'' (Enum_Type ''account_class''),
          required ''purpose'' (Enum_Type ''account_purpose''),
          required ''balance'' (Numeric_Type 24 8)],
       tb_constraints =
         [Check ''ck_accounts_balance_nonnegative'' ''balance >= 0'',
          Primary_Key [''id''],
          Unique None [''owner_id'', ''currency'', ''purpose'']]\<rparr>,
     Create_Table \<lparr>tb_name = ''settlements'',
       tb_columns =
         [required ''id'' Uuid_Type,
          required ''owner_id'' (String_Type None),
          required ''idempotency_key'' (String_Type None),
          required ''request_fingerprint'' (String_Type None),
          required ''amount_usd'' (Numeric_Type 24 8),
          required ''target_currency'' (Enum_Type ''currency''),
          required ''route'' Json_Type,
          required ''snapshot_version'' Integer_Type,
          required ''aggregate_rate'' (Numeric_Type 24 8),
          required ''quoted_amount'' (Numeric_Type 32 8),
          required ''provider_operation_id'' Uuid_Type,
          required ''status'' (Enum_Type ''settlement_status''),
          stamp ''created_at'',
          stamp ''updated_at''],
       tb_constraints =
         [Check ''ck_settlements_rate_positive'' ''aggregate_rate > 0'',
          Check ''ck_settlements_amount_positive'' ''amount_usd > 0'',
          Check ''ck_settlements_provider_operation_matches_id'' ''provider_operation_id = id'',
          Check ''ck_settlements_quote_positive'' ''quoted_amount > 0'',
          Primary_Key [''id''],
          Unique (Some ''uq_settlements_owner_idempotency_key'') [''owner_id'', ''idempotency_key'']]\<rparr>,
     Create_Table \<lparr>tb_name = ''journal_transactions'',
       tb_columns =
         [required ''id'' Uuid_Type,
          optional ''settlement_id'' Uuid_Type,
          required ''event'' (Enum_Type ''journal_event''),
          stamp ''created_at''],
       tb_constraints =
         [Check ''ck_journal_transactions_event_settlement''
            ''(event = 'OPENING' AND settlement_id IS NULL) OR (event <> 'OPENING' AND settlement_id IS NOT NULL)'',
          Foreign_Key ''settlement_id'' ''settlements'' ''id'',
          Primary_Key [''id'']]\<rparr>,
     Create_Index \<lparr>ix_name = ''uq_journal_transactions_settlement_event'', ix_table = ''journal_transactions'',
       ix_columns = [''settlement_id'', ''event''], ix_unique = True, ix_not_null = Some ''settlement_id''\<rparr>,
     Create_Table \<lparr>tb_name = ''postings'',
       tb_columns =
         [required ''id'' Uuid_Type,
          required ''journal_id'' Uuid_Type,
          required ''account_id'' Uuid_Type,
          required ''currency'' (Enum_Type ''currency''),
          required ''side'' (Enum_Type ''posting_side''),
          required ''amount'' (Numeric_Type 24 8)],
       tb_constraints =
         [Check ''ck_postings_amount_positive'' ''amount > 0'',
          Foreign_Key ''account_id'' ''accounts'' ''id'',
          Foreign_Key ''journal_id'' ''journal_transactions'' ''id'',
          Primary_Key [''id'']]\<rparr>]"

definition initial_downgrade :: "ddl list" where
  "initial_downgrade =
    [Drop_Table ''postings'',
     Drop_Index ''uq_journal_transactions_settlement_event'',
     Drop_Table ''journal_transactions'',
     Drop_Table ''settlements'',
     Drop_Table ''accounts'',
     Drop_Type ''settlement_status'',
     Drop_Type ''journal_event'',
     Drop_Type ''posting_side'',
     Drop_Type ''account_purpose'',
     Drop_Type ''account_class'',
     Drop_Type ''currency'']"

definition guards_tables :: "ddl list" where
  "guards_tables =
    [Create_Table \<lparr>tb_name = ''mock_provider_operations'',
       tb_columns =
         [required ''operation_id'' Uuid_Type,
          (required ''ordinal'' Big_Integer_Type)\<lparr>cn_identity := True\<rparr>,
          required ''submission_outcome'' (String_Type (Some 32)),
          required ''authoritative_outcome'' (String_Type (Some 32)),
          required ''provider_reference'' (String_Type (Some 64))],
       tb_constraints = [Primary_Key [''operation_id''], Unique None [''ordinal'']]\<rparr>,
     Create_Table \<lparr>tb_name = ''payout_attempts'',
       tb_columns =
         [required ''settlement_id'' Uuid_Type,
          required ''operation_id'' Uuid_Type,
          required ''state'' (String_Type (Some 32)),
          required ''attempt_token'' Big_Integer_Type,
          required ''lease_expires_at'' Timestamp_Type,
          optional ''last_outcome'' (String_Type (Some 32)),
          optional ''provider_reference'' (String_Type (Some 64))],
       tb_constraints =
         [Check ''ck_payout_attempt_token_positive'' ''attempt_token > 0'',
          Foreign_Key ''settlement_id'' ''settlements'' ''id'',
          Primary_Key [''settlement_id''],
          Unique None [''operation_id'']]\<rparr>]"

text \<open>Between the two statements all journals are marked as posted (\<open>mark_posted\<close>).\<close>

definition posted_column :: "ddl list" where
  "posted_column =
    [Add_Column ''journal_transactions'' ((optional ''is_posted'' Boolean_Type)\<lparr>cn_default := Some ''false''\<rparr>),
     Set_Not_Null ''journal_transactions'' ''is_posted'']"

definition guards_statements :: "ddl list" where
  "guards_statements =
    [Create_Function ''guard_posting_mutation'',
     Create_Trigger \<lparr>tg_name = ''posting_mutation_guard'', tg_when = ''BEFORE INSERT OR UPDATE OR DELETE'',
       tg_table = ''postings'', tg_function = ''guard_posting_mutation''\<rparr>,
     Create_Function ''guard_journal_mutation'',
     Create_Trigger \<lparr>tg_name = ''journal_mutation_guard'', tg_when = ''BEFORE UPDATE OR DELETE'',
       tg_table = ''journal_transactions'', tg_function = ''guard_journal_mutation''\<rparr>,
     Create_Function ''check_posted_journal'',
     Create_Trigger \<lparr>tg_name = ''posted_journal_check'', tg_when = ''AFTER INSERT DEFERRABLE INITIALLY DEFERRED'',
       tg_table = ''journal_transactions'', tg_function = ''check_posted_journal''\<rparr>]"

text \<open>The second migration without its statements on data, which \<open>Migrations\<close> has.\<close>

definition guards_upgrade :: "ddl list" where
  "guards_upgrade = guards_tables @ posted_column @ guards_statements"

definition guards_downgrade :: "ddl list" where
  "guards_downgrade =
    [Drop_Trigger ''posted_journal_check'' ''journal_transactions'',
     Drop_Function ''check_posted_journal'',
     Drop_Trigger ''journal_mutation_guard'' ''journal_transactions'',
     Drop_Function ''guard_journal_mutation'',
     Drop_Trigger ''posting_mutation_guard'' ''postings'',
     Drop_Function ''guard_posting_mutation'',
     Drop_Column ''journal_transactions'' ''is_posted'',
     Drop_Table ''payout_attempts'',
     Drop_Table ''mock_provider_operations'']"

section \<open>The chain of revisions\<close>

record revision =
  rv_revision :: string
  rv_down_revision :: "string option"
  rv_upgrade :: "ddl list"
  rv_downgrade :: "ddl list"

definition initial_revision :: revision where
  "initial_revision = \<lparr>rv_revision = ''0001_initial'', rv_down_revision = None,
     rv_upgrade = initial_upgrade, rv_downgrade = initial_downgrade\<rparr>"

definition guards_revision :: revision where
  "guards_revision = \<lparr>rv_revision = ''0002_durable_guards'', rv_down_revision = Some ''0001_initial'',
     rv_upgrade = guards_upgrade, rv_downgrade = guards_downgrade\<rparr>"

definition versions :: "revision list" where
  "versions = [initial_revision, guards_revision]"

text \<open>
  What the tool promises of the commands \<open>upgrade head\<close> and \<open>downgrade base\<close>: the due scripts follow
  the links \<open>down_revision\<close> from the revision of the database to one that no script follows, or
  back to the empty database.
\<close>

fun leads_to_head :: "revision list \<Rightarrow> string option \<Rightarrow> revision list \<Rightarrow> bool" where
  "leads_to_head rs v [] \<longleftrightarrow> list_all (\<lambda>r. rv_down_revision r \<noteq> v) rs"
| "leads_to_head rs v (r # plan) \<longleftrightarrow>
     r \<in> set rs \<and> rv_down_revision r = v \<and> leads_to_head rs (Some (rv_revision r)) plan"

fun leads_to_base :: "revision list \<Rightarrow> string option \<Rightarrow> revision list \<Rightarrow> bool" where
  "leads_to_base rs v [] \<longleftrightarrow> v = None"
| "leads_to_base rs v (r # plan) \<longleftrightarrow>
     r \<in> set rs \<and> v = Some (rv_revision r) \<and> leads_to_base rs (rv_down_revision r) plan"

definition upgrade_steps :: "(string option \<Rightarrow> revision list) \<Rightarrow> string option \<Rightarrow> migration_step list" where
  "upgrade_steps plan v = map (\<lambda>r. (rv_upgrade r, Some (rv_revision r))) (plan v)"

definition downgrade_steps :: "(string option \<Rightarrow> revision list) \<Rightarrow> string option \<Rightarrow> migration_step list" where
  "downgrade_steps plan v = map (\<lambda>r. (rv_downgrade r, rv_down_revision r)) (plan v)"

section \<open>The declared tables\<close>

definition metadata_types :: "(string \<times> string list) list" where
  "metadata_types =
    [(''currency'', [''USD'', ''USDC'', ''EUR'', ''PHP'', ''AED'']),
     (''account_class'', [''ASSET'', ''LIABILITY'']),
     (''account_purpose'', [''AVAILABLE'', ''RESERVED'', ''OMNIBUS'']),
     (''posting_side'', [''DEBIT'', ''CREDIT'']),
     (''journal_event'', [''OPENING'', ''RESERVE'', ''CONSUME'', ''RELEASE'']),
     (''settlement_status'', [''RESERVED'', ''PAYOUT_IN_PROGRESS'', ''SUCCESS'', ''FAILED'', ''PENDING_RECONCILIATION''])]"

definition account_table :: table where
  "account_table = \<lparr>tb_name = ''accounts'',
     tb_columns =
       [required ''id'' Uuid_Type,
        required ''owner_id'' (String_Type None),
        required ''currency'' (Enum_Type ''currency''),
        required ''account_class'' (Enum_Type ''account_class''),
        required ''purpose'' (Enum_Type ''account_purpose''),
        required ''balance'' (Numeric_Type 24 8)],
     tb_constraints =
       [Unique None [''owner_id'', ''currency'', ''purpose''],
        Check ''ck_accounts_balance_nonnegative'' ''balance >= 0'',
        Primary_Key [''id'']]\<rparr>"

definition settlement_table :: table where
  "settlement_table = \<lparr>tb_name = ''settlements'',
     tb_columns =
       [required ''id'' Uuid_Type,
        required ''owner_id'' (String_Type None),
        required ''idempotency_key'' (String_Type None),
        required ''request_fingerprint'' (String_Type None),
        required ''amount_usd'' (Numeric_Type 24 8),
        required ''target_currency'' (Enum_Type ''currency''),
        required ''route'' Json_Type,
        required ''snapshot_version'' Integer_Type,
        required ''aggregate_rate'' (Numeric_Type 24 8),
        required ''quoted_amount'' (Numeric_Type 32 8),
        required ''provider_operation_id'' Uuid_Type,
        required ''status'' (Enum_Type ''settlement_status''),
        stamp ''created_at'',
        stamp ''updated_at''],
     tb_constraints =
       [Unique (Some ''uq_settlements_owner_idempotency_key'') [''owner_id'', ''idempotency_key''],
        Check ''ck_settlements_amount_positive'' ''amount_usd > 0'',
        Check ''ck_settlements_rate_positive'' ''aggregate_rate > 0'',
        Check ''ck_settlements_quote_positive'' ''quoted_amount > 0'',
        Check ''ck_settlements_provider_operation_matches_id'' ''provider_operation_id = id'',
        Primary_Key [''id'']]\<rparr>"

definition journal_table :: table where
  "journal_table = \<lparr>tb_name = ''journal_transactions'',
     tb_columns =
       [required ''id'' Uuid_Type,
        optional ''settlement_id'' Uuid_Type,
        required ''event'' (Enum_Type ''journal_event''),
        (required ''is_posted'' Boolean_Type)\<lparr>cn_default := Some ''false''\<rparr>,
        stamp ''created_at''],
     tb_constraints =
       [Check ''ck_journal_transactions_event_settlement''
          ''(event = 'OPENING' AND settlement_id IS NULL) OR (event <> 'OPENING' AND settlement_id IS NOT NULL)'',
        Primary_Key [''id''],
        Foreign_Key ''settlement_id'' ''settlements'' ''id'']\<rparr>"

definition journal_index :: index where
  "journal_index = \<lparr>ix_name = ''uq_journal_transactions_settlement_event'', ix_table = ''journal_transactions'',
     ix_columns = [''settlement_id'', ''event''], ix_unique = True, ix_not_null = Some ''settlement_id''\<rparr>"

definition posting_table :: table where
  "posting_table = \<lparr>tb_name = ''postings'',
     tb_columns =
       [required ''id'' Uuid_Type,
        required ''journal_id'' Uuid_Type,
        required ''account_id'' Uuid_Type,
        required ''currency'' (Enum_Type ''currency''),
        required ''side'' (Enum_Type ''posting_side''),
        required ''amount'' (Numeric_Type 24 8)],
     tb_constraints =
       [Check ''ck_postings_amount_positive'' ''amount > 0'',
        Primary_Key [''id''],
        Foreign_Key ''journal_id'' ''journal_transactions'' ''id'',
        Foreign_Key ''account_id'' ''accounts'' ''id'']\<rparr>"

definition operation_table :: table where
  "operation_table = \<lparr>tb_name = ''mock_provider_operations'',
     tb_columns =
       [required ''operation_id'' Uuid_Type,
        (required ''ordinal'' Big_Integer_Type)\<lparr>cn_identity := True\<rparr>,
        required ''submission_outcome'' (String_Type (Some 32)),
        required ''authoritative_outcome'' (String_Type (Some 32)),
        required ''provider_reference'' (String_Type (Some 64))],
     tb_constraints = [Primary_Key [''operation_id''], Unique None [''ordinal'']]\<rparr>"

definition attempt_table :: table where
  "attempt_table = \<lparr>tb_name = ''payout_attempts'',
     tb_columns =
       [required ''settlement_id'' Uuid_Type,
        required ''operation_id'' Uuid_Type,
        required ''state'' (String_Type (Some 32)),
        required ''attempt_token'' Big_Integer_Type,
        required ''lease_expires_at'' Timestamp_Type,
        optional ''last_outcome'' (String_Type (Some 32)),
        optional ''provider_reference'' (String_Type (Some 64))],
     tb_constraints =
       [Check ''ck_payout_attempt_token_positive'' ''attempt_token > 0'',
        Primary_Key [''settlement_id''],
        Foreign_Key ''settlement_id'' ''settlements'' ''id'',
        Unique None [''operation_id'']]\<rparr>"

definition metadata_tables :: "table list" where
  "metadata_tables = [account_table, settlement_table, journal_table, posting_table, operation_table, attempt_table]"

end
