(* ===== verification/Catalog_Properties.thy ===== *)
theory Catalog_Properties
  imports Catalog "HOL-Library.Multiset"
begin

text \<open>
  The migrations build exactly the tables that the classes of \<open>models.py\<close> declare, beside whatever
  else the database holds, and their downgrades take exactly these away again.
\<close>

section \<open>Two parts of a catalog\<close>

definition beside :: "catalog \<Rightarrow> catalog \<Rightarrow> catalog" where
  "beside c d = \<lparr>ct_types = ct_types c @ ct_types d, ct_tables = ct_tables c @ ct_tables d,
     ct_indexes = ct_indexes c @ ct_indexes d, ct_functions = ct_functions c @ ct_functions d,
     ct_triggers = ct_triggers c @ ct_triggers d\<rparr>"

lemma beside_empty [simp]: "beside c empty_catalog = c"
  by (simp add: beside_def empty_catalog_def)

lemma beside_fields:
  "ct_types (beside c d) = ct_types c @ ct_types d" "ct_tables (beside c d) = ct_tables c @ ct_tables d"
  "ct_indexes (beside c d) = ct_indexes c @ ct_indexes d" "ct_functions (beside c d) = ct_functions c @ ct_functions d"
  "ct_triggers (beside c d) = ct_triggers c @ ct_triggers d"
  by (simp_all add: beside_def)

lemma beside_updates:
  "(beside c d)\<lparr>ct_types := ct_types c @ ts\<rparr> = beside c (d\<lparr>ct_types := ts\<rparr>)"
  "(beside c d)\<lparr>ct_tables := ct_tables c @ us\<rparr> = beside c (d\<lparr>ct_tables := us\<rparr>)"
  "(beside c d)\<lparr>ct_indexes := ct_indexes c @ xs\<rparr> = beside c (d\<lparr>ct_indexes := xs\<rparr>)"
  "(beside c d)\<lparr>ct_functions := ct_functions c @ fs\<rparr> = beside c (d\<lparr>ct_functions := fs\<rparr>)"
  "(beside c d)\<lparr>ct_triggers := ct_triggers c @ gs\<rparr> = beside c (d\<lparr>ct_triggers := gs\<rparr>)"
  by (simp_all add: beside_def)

text \<open>The objects that a part or a statement names.\<close>

datatype object_name = Type_Name string | Relation_Name string | Function_Name string

definition table_objects :: "table \<Rightarrow> object_name list" where
  "table_objects t = Relation_Name (tb_name t) # map Type_Name (table_enums t) @
     map (Relation_Name \<circ> fst) (table_targets t)"

definition index_objects :: "index \<Rightarrow> object_name list" where
  "index_objects x = [Relation_Name (ix_name x), Relation_Name (ix_table x)]"

definition trigger_objects :: "trigger \<Rightarrow> object_name list" where
  "trigger_objects g = [Relation_Name (tg_table g), Function_Name (tg_function g)]"

definition catalog_objects :: "catalog \<Rightarrow> object_name list" where
  "catalog_objects c = map (Type_Name \<circ> fst) (ct_types c) @ concat (map table_objects (ct_tables c)) @
     concat (map index_objects (ct_indexes c)) @ map Function_Name (ct_functions c) @
     concat (map trigger_objects (ct_triggers c))"

fun statement_objects :: "ddl \<Rightarrow> object_name list" where
  "statement_objects (Create_Type n labels) = [Type_Name n]"
| "statement_objects (Drop_Type n) = [Type_Name n]"
| "statement_objects (Create_Table t) = table_objects t"
| "statement_objects (Drop_Table n) = [Relation_Name n]"
| "statement_objects (Create_Index x) = index_objects x"
| "statement_objects (Drop_Index n) = [Relation_Name n]"
| "statement_objects (Add_Column t k) = Relation_Name t # map Type_Name (enum_type k)"
| "statement_objects (Set_Not_Null t n) = [Relation_Name t]"
| "statement_objects (Drop_Column t n) = [Relation_Name t]"
| "statement_objects (Create_Function n) = [Function_Name n]"
| "statement_objects (Drop_Function n) = [Function_Name n]"
| "statement_objects (Create_Trigger g) = trigger_objects g"
| "statement_objects (Drop_Trigger n t) = [Relation_Name t]"

definition script_objects :: "ddl list \<Rightarrow> object_name list" where
  "script_objects ss = concat (map statement_objects ss)"

definition unrelated :: "object_name list \<Rightarrow> catalog \<Rightarrow> bool" where
  "unrelated ns c \<longleftrightarrow> list_all (\<lambda>n. n \<notin> set (catalog_objects c)) ns"

lemma unrelated_type:
  assumes "Type_Name n \<notin> set (catalog_objects c)"
  shows "has_type n (beside c d) = has_type n d"
    and "filter (\<lambda>t. fst t \<noteq> n) (ct_types c) = ct_types c"
    and "\<not> list_ex (\<lambda>t. n \<in> set (table_enums t)) (ct_tables c)"
  using assms
  by (auto simp: has_type_def beside_def catalog_objects_def table_objects_def list_ex_iff image_iff filter_id_conv)

lemma unrelated_relation:
  assumes "Relation_Name n \<notin> set (catalog_objects c)"
  shows "has_table n (beside c d) = has_table n d" and "has_index n (beside c d) = has_index n d"
    and "has_column n k (beside c d) = has_column n k d"
    and "filter (\<lambda>t. tb_name t \<noteq> n) (ct_tables c) = ct_tables c"
    and "filter (\<lambda>x. ix_table x \<noteq> n) (ct_indexes c) = ct_indexes c"
    and "filter (\<lambda>x. ix_name x \<noteq> n) (ct_indexes c) = ct_indexes c"
    and "filter (\<lambda>x. ix_table x = n \<longrightarrow> k \<notin> set (ix_columns x)) (ct_indexes c) = ct_indexes c"
    and "filter (\<lambda>g. tg_table g \<noteq> n) (ct_triggers c) = ct_triggers c"
    and "filter (\<lambda>g. tg_name g = m \<longrightarrow> tg_table g \<noteq> n) (ct_triggers c) = ct_triggers c"
    and "\<not> list_ex (\<lambda>g. tg_name g = m \<and> tg_table g = n) (ct_triggers c)"
    and "\<not> list_ex (\<lambda>t. tb_name t \<noteq> n \<and> n \<in> fst ` set (table_targets t)) (ct_tables c)"
  using assms
  by (auto simp: has_table_def has_index_def has_column_def beside_def catalog_objects_def table_objects_def
      index_objects_def trigger_objects_def list_ex_iff image_iff filter_id_conv)

lemma unrelated_columns:
  assumes "Relation_Name n \<notin> set (catalog_objects c)"
  shows "\<not> list_ex (\<lambda>t. (n, k) \<in> set (table_targets t)) (ct_tables c)"
    and "alter_table n f (beside c d) = beside c (alter_table n f d)"
proof -
  have "\<forall>t \<in> set (ct_tables c). tb_name t \<noteq> n \<and> n \<notin> fst ` set (table_targets t)"
    using assms by (auto simp: catalog_objects_def table_objects_def)
  then show "\<not> list_ex (\<lambda>t. (n, k) \<in> set (table_targets t)) (ct_tables c)"
    and "alter_table n f (beside c d) = beside c (alter_table n f d)"
    by (force simp: list_ex_iff alter_table_def beside_def intro: map_idI)+
qed

lemma unrelated_function:
  assumes "Function_Name n \<notin> set (catalog_objects c)"
  shows "has_function n (beside c d) = has_function n d"
    and "filter (\<lambda>f. f \<noteq> n) (ct_functions c) = ct_functions c"
    and "\<not> list_ex (\<lambda>g. tg_function g = n) (ct_triggers c)"
  using assms
  by (auto simp: has_function_def beside_def catalog_objects_def trigger_objects_def list_ex_iff filter_id_conv)

lemmas unrelated_simps = unrelated_type unrelated_relation unrelated_columns unrelated_function

text \<open>A statement does to a part what it does to the part alone.\<close>

lemma execute_beside:
  assumes "unrelated (statement_objects s) c"
  shows "execute s (beside c d) = map_sum id (beside c) (execute s d)"
proof -
  note simps = unrelated_def unrelated_simps beside_fields beside_updates
  show ?thesis
  proof (cases s)
    case (Create_Table t)
    have "list_all (\<lambda>n. has_type n (beside c d)) (table_enums t) = list_all (\<lambda>n. has_type n d) (table_enums t)"
      using assms Create_Table by (auto simp: list_all_iff table_objects_def simps)
    moreover have "list_all (\<lambda>(u, k). has_column u k (beside c d)) (table_targets t) =
        list_all (\<lambda>(u, k). has_column u k d) (table_targets t)"
      using assms Create_Table by (force simp: list_all_iff table_objects_def simps)
    ultimately show ?thesis using assms Create_Table by (simp add: simps table_objects_def)
  next
    case (Add_Column t k)
    then have "list_all (\<lambda>n. has_type n (beside c d)) (enum_type k) = list_all (\<lambda>n. has_type n d) (enum_type k)"
      using assms by (auto simp: list_all_iff simps)
    then show ?thesis using assms Add_Column by (simp add: simps)
  qed (use assms in \<open>simp_all add: simps index_objects_def trigger_objects_def\<close>)
qed

lemma run_ddl_beside:
  "unrelated (script_objects ss) c \<Longrightarrow> run_ddl ss (beside c d) = map_sum id (beside c) (run_ddl ss d)"
proof (induction ss arbitrary: d)
  case (Cons s ss)
  then have "unrelated (statement_objects s) c" "unrelated (script_objects ss) c"
    by (simp_all add: unrelated_def script_objects_def)
  with Cons.IH execute_beside show ?case by (cases "execute s d") simp_all
qed simp

section \<open>The schema of the program\<close>

text \<open>The same table up to the order of columns and constraints.\<close>

definition same_table :: "table \<Rightarrow> table \<Rightarrow> bool" where
  "same_table t u \<longleftrightarrow> tb_name t = tb_name u \<and> mset (tb_columns t) = mset (tb_columns u) \<and>
     mset (tb_constraints t) = mset (tb_constraints u)"

definition declared_schema :: "catalog \<Rightarrow> bool" where
  "declared_schema c \<longleftrightarrow> ct_types c = metadata_types \<and> ct_indexes c = [journal_index] \<and>
     list_all2 same_table (ct_tables c) metadata_tables"

lemma built_schema:
  "\<exists>d1 d. run_ddl initial_upgrade empty_catalog = Inr d1 \<and> run_ddl guards_upgrade d1 = Inr d \<and> declared_schema d \<and>
     run_ddl (guards_downgrade @ initial_downgrade) d = Inr empty_catalog"
proof -
  have "case run_ddl initial_upgrade empty_catalog of Inl e \<Rightarrow> False
    | Inr d1 \<Rightarrow> (case run_ddl guards_upgrade d1 of Inl e \<Rightarrow> False
        | Inr d \<Rightarrow> declared_schema d \<and> run_ddl (guards_downgrade @ initial_downgrade) d = Inr empty_catalog)"
    by code_simp
  then show ?thesis by (auto split: sum.splits)
qed

lemma unrelated_part: "unrelated ns c \<Longrightarrow> set ms \<subseteq> set ns \<Longrightarrow> unrelated ms c"
  by (auto simp: unrelated_def list_all_iff)

text \<open>The links of the two scripts leave the tool no choice.\<close>

lemma version_fields:
  "rv_revision initial_revision = ''0001_initial''" "rv_down_revision initial_revision = None"
  "rv_upgrade initial_revision = initial_upgrade" "rv_downgrade initial_revision = initial_downgrade"
  "rv_revision guards_revision = ''0002_durable_guards''" "rv_down_revision guards_revision = Some ''0001_initial''"
  "rv_upgrade guards_revision = guards_upgrade" "rv_downgrade guards_revision = guards_downgrade"
  by (simp_all add: initial_revision_def guards_revision_def)

lemma plan_to_head:
  "leads_to_head versions v plan \<longleftrightarrow>
     (case plan of
        [] \<Rightarrow> v \<noteq> None \<and> v \<noteq> Some ''0001_initial''
      | r # plan' \<Rightarrow> (r = initial_revision \<and> v = None \<or> r = guards_revision \<and> v = Some ''0001_initial'') \<and>
          leads_to_head versions (Some (rv_revision r)) plan')"
  by (cases plan; cases v) (auto simp: versions_def version_fields)

lemma plan_to_base:
  "leads_to_base versions v plan \<longleftrightarrow>
     (case plan of
        [] \<Rightarrow> v = None
      | r # plan' \<Rightarrow> (r = initial_revision \<or> r = guards_revision) \<and> v = Some (rv_revision r) \<and>
          leads_to_base versions (rv_down_revision r) plan')"
  by (cases plan) (auto simp: versions_def version_fields)

lemma plans_to_head:
  "leads_to_head versions (Some ''0002_durable_guards'') plan \<Longrightarrow> plan = []"
  "leads_to_head versions (Some ''0001_initial'') plan \<Longrightarrow> plan = [guards_revision]"
  "leads_to_head versions None plan \<Longrightarrow> plan = [initial_revision, guards_revision]"
proof -
  show head: "leads_to_head versions (Some ''0002_durable_guards'') plan \<Longrightarrow> plan = []" for plan
    by (subst (asm) plan_to_head) (simp split: list.splits)
  show first: "leads_to_head versions (Some ''0001_initial'') plan \<Longrightarrow> plan = [guards_revision]" for plan
    by (subst (asm) plan_to_head) (auto simp: version_fields split: list.splits dest: head)
  show "leads_to_head versions None plan \<Longrightarrow> plan = [initial_revision, guards_revision]"
    by (subst (asm) plan_to_head) (auto simp: version_fields split: list.splits dest: first)
qed

lemma plans_to_base:
  "leads_to_base versions None plan \<Longrightarrow> plan = []"
  "leads_to_base versions (Some ''0001_initial'') plan \<Longrightarrow> plan = [initial_revision]"
  "leads_to_base versions (Some ''0002_durable_guards'') plan \<Longrightarrow> plan = [guards_revision, initial_revision]"
proof -
  show base: "leads_to_base versions None plan \<Longrightarrow> plan = []" for plan
    by (subst (asm) plan_to_base) (auto split: list.splits)
  show first: "leads_to_base versions (Some ''0001_initial'') plan \<Longrightarrow> plan = [initial_revision]" for plan
    by (subst (asm) plan_to_base) (auto simp: version_fields split: list.splits dest: base)
  show "leads_to_base versions (Some ''0002_durable_guards'') plan \<Longrightarrow> plan = [guards_revision, initial_revision]"
    by (subst (asm) plan_to_base) (auto simp: version_fields split: list.splits dest: first)
qed

lemma unrelated_scripts:
  assumes "unrelated (script_objects (initial_upgrade @ guards_upgrade)) c"
  shows "unrelated (script_objects initial_upgrade) c" and "unrelated (script_objects guards_upgrade) c"
    and "unrelated (script_objects (guards_downgrade @ initial_downgrade)) c"
proof -
  let ?all = "script_objects (initial_upgrade @ guards_upgrade)"
  have "list_all (\<lambda>n. n \<in> set ?all) (script_objects (guards_downgrade @ initial_downgrade))"
    and "list_all (\<lambda>n. n \<in> set ?all) (script_objects initial_upgrade)"
    and "list_all (\<lambda>n. n \<in> set ?all) (script_objects guards_upgrade)"
    by code_simp+
  then show "unrelated (script_objects initial_upgrade) c" "unrelated (script_objects guards_upgrade) c"
    "unrelated (script_objects (guards_downgrade @ initial_downgrade)) c"
    by (auto simp: list_all_iff intro: unrelated_part [OF assms])
qed

text \<open>
  C38: in a database that has none of the objects that the migrations name, \<open>upgrade head\<close> adds
  exactly the types, tables (columns, keys, checks) and the index that the classes of \<open>models.py\<close>
  declare, and the same from a database that has the first revision already; every later
  \<open>upgrade head\<close>, as at each start of the container, succeeds and changes nothing; \<open>downgrade base\<close>
  gives the database back as it was.  This holds for every way in which the tool chooses the due
  scripts along the links \<open>down_revision\<close>.
\<close>

theorem migrations_build_models:
  assumes "unrelated (script_objects (initial_upgrade @ guards_upgrade)) c"
    and "\<forall>v \<in> insert None (set (map (Some \<circ> rv_revision) versions)).
      leads_to_head versions v (to_head v) \<and> leads_to_base versions v (to_base v)"
  shows "\<exists>first d. declared_schema d \<and>
    do_run_migrations (upgrade_steps to_head) (c, None) = (None, beside c d, Some ''0002_durable_guards'') \<and>
    run_ddl initial_upgrade c = Inr first \<and>
    do_run_migrations (upgrade_steps to_head) (first, Some ''0001_initial'')
      = (None, beside c d, Some ''0002_durable_guards'') \<and>
    do_run_migrations (upgrade_steps to_head) (beside c d, Some ''0002_durable_guards'')
      = (None, beside c d, Some ''0002_durable_guards'') \<and>
    do_run_migrations (downgrade_steps to_base) (beside c d, Some ''0002_durable_guards'') = (None, c, None)"
proof -
  note other = unrelated_scripts [OF assms(1)]
  have known: "insert None (set (map (Some \<circ> rv_revision) versions)) =
      {None, Some ''0001_initial'', Some ''0002_durable_guards''}"
    by (auto simp: versions_def version_fields)
  have plans: "to_head None = [initial_revision, guards_revision]" "to_head (Some ''0001_initial'') = [guards_revision]"
    "to_head (Some ''0002_durable_guards'') = []"
    "to_base (Some ''0002_durable_guards'') = [guards_revision, initial_revision]"
    using assms(2) unfolding known by (simp_all add: plans_to_head plans_to_base)
  obtain d1 d where d: "run_ddl initial_upgrade empty_catalog = Inr d1" "run_ddl guards_upgrade d1 = Inr d"
    "declared_schema d" "run_ddl (guards_downgrade @ initial_downgrade) d = Inr empty_catalog"
    using built_schema by blast
  have up: "run_ddl initial_upgrade c = Inr (beside c d1)" "run_ddl guards_upgrade (beside c d1) = Inr (beside c d)"
    using run_ddl_beside [OF other(1), of empty_catalog] run_ddl_beside [OF other(2), of d1] d(1,2) by simp_all
  have down: "run_ddl (guards_downgrade @ initial_downgrade) (beside c d) = Inr c"
    using run_ddl_beside [OF other(3), of d] d(4) by simp
  note steps = do_run_migrations_def due_statements_def upgrade_steps_def downgrade_steps_def plans version_fields
  have "do_run_migrations (upgrade_steps to_head) (c, None) = (None, beside c d, Some ''0002_durable_guards'')"
    by (simp add: steps run_ddl_append up)
  moreover have "do_run_migrations (upgrade_steps to_head) (beside c d1, Some ''0001_initial'')
      = (None, beside c d, Some ''0002_durable_guards'')"
    by (simp add: steps up)
  moreover have "do_run_migrations (upgrade_steps to_head) (beside c d, Some ''0002_durable_guards'')
      = (None, beside c d, Some ''0002_durable_guards'')"
    by (simp add: steps)
  moreover have "do_run_migrations (downgrade_steps to_base) (beside c d, Some ''0002_durable_guards'') = (None, c, None)"
    using down by (simp add: steps)
  ultimately show ?thesis using d(3) up(1) by blast
qed

definition billing_catalog :: catalog where
  "billing_catalog = empty_catalog\<lparr>ct_types := [(''invoice_state'', [''OPEN'', ''CLOSED''])],
     ct_tables := [\<lparr>tb_name = ''invoices'',
       tb_columns = [required ''id'' Uuid_Type, required ''state'' (Enum_Type ''invoice_state'')],
       tb_constraints = [Primary_Key [''id'']]\<rparr>]\<rparr>"

text \<open>The choices that follow the links.\<close>

definition chosen_to_head :: "string option \<Rightarrow> revision list" where
  "chosen_to_head v = dropWhile (\<lambda>r. rv_down_revision r \<noteq> v) versions"

definition chosen_to_base :: "string option \<Rightarrow> revision list" where
  "chosen_to_base v = (case v of None \<Rightarrow> [] | Some n \<Rightarrow> dropWhile (\<lambda>r. rv_revision r \<noteq> n) (rev versions))"

theorem migrations_build_models_witness:
  "\<exists>d. do_run_migrations (upgrade_steps chosen_to_head) (billing_catalog, None)
      = (None, beside billing_catalog d, Some ''0002_durable_guards'') \<and>
     do_run_migrations (upgrade_steps chosen_to_head) (beside billing_catalog d, Some ''0002_durable_guards'')
      = (None, beside billing_catalog d, Some ''0002_durable_guards'') \<and>
     do_run_migrations (downgrade_steps chosen_to_base) (beside billing_catalog d, Some ''0002_durable_guards'')
      = (None, billing_catalog, None)"
proof -
  have "unrelated (script_objects (initial_upgrade @ guards_upgrade)) billing_catalog" by code_simp
  moreover have "\<forall>v \<in> insert None (set (map (Some \<circ> rv_revision) versions)).
      leads_to_head versions v (chosen_to_head v) \<and> leads_to_base versions v (chosen_to_base v)"
    by (simp add: chosen_to_head_def chosen_to_base_def versions_def version_fields)
  ultimately show ?thesis using migrations_build_models by meson
qed

end
