(* ===== verification/Row_Locks.thy ===== *)
theory Row_Locks
  imports Service Schema
begin

text \<open>
  The locks that the transactions wait for: rows selected \<open>FOR UPDATE\<close>, rows skipped when they are
  locked, unique keys of uncommitted inserts and the advisory lock of the seed.  All transactions
  take them in one order, so no interleaving of transactions can deadlock.
\<close>

section \<open>What can be locked\<close>

datatype resource =
    Seed_Lock
  | Idempotency_Key string string
  | Settlement_Row nat
  | Attempt_Row nat
  | Account_Row nat
  | Operation_Row nat

text \<open>The order of the code: by table, the rows of a table by their ids.\<close>

fun resource_key :: "resource \<Rightarrow> nat \<times> string \<times> string \<times> nat" where
  "resource_key Seed_Lock = (0, [], [], 0)"
| "resource_key (Idempotency_Key owner key) = (1, owner, key, 0)"
| "resource_key (Settlement_Row i) = (2, [], [], i)"
| "resource_key (Attempt_Row i) = (3, [], [], i)"
| "resource_key (Account_Row i) = (4, [], [], i)"
| "resource_key (Operation_Row i) = (5, [], [], i)"

lemma resource_key_inj: "resource_key a = resource_key b \<Longrightarrow> a = b"
  by (cases a; cases b) auto

instantiation resource :: linorder
begin

definition less_eq_resource :: "resource \<Rightarrow> resource \<Rightarrow> bool" where
  "less_eq_resource a b \<longleftrightarrow> resource_key a \<le> resource_key b"

definition less_resource :: "resource \<Rightarrow> resource \<Rightarrow> bool" where
  "less_resource a b \<longleftrightarrow> resource_key a < resource_key b"

instance
  by standard (auto simp: less_eq_resource_def less_resource_def intro: resource_key_inj)

end

text \<open>A request waits until the resource is free, or, with \<open>SKIP LOCKED\<close>, only takes a free one.\<close>

datatype request = Wait (wanted: resource) | Try (wanted: resource)

section \<open>The locks of each transaction\<close>

text \<open>\<open>_locked_accounts\<close> selects the rows \<open>FOR UPDATE\<close> in the order of their ids.\<close>

definition locked_rows :: "purpose_key list \<Rightarrow> db \<Rightarrow> account list" where
  "locked_rows keys db =
     sort_key a_id (filter (\<lambda>a. a_currency a = USD \<and> purpose_key a \<in> set keys) (db_accounts db))"

definition account_locks :: "account list \<Rightarrow> request list" where
  "account_locks accounts = map (Wait \<circ> Account_Row \<circ> a_id) accounts"

lemma wanted_account_locks [simp]: "wanted ` set (account_locks accounts) = (Account_Row \<circ> a_id) ` set accounts"
  by (auto simp: account_locks_def image_comp)

text \<open>The insert waits for an uncommitted one with the same key; then \<open>reserve\<close> locks two accounts.\<close>

definition submit_locks :: "db \<Rightarrow> string \<Rightarrow> string \<Rightarrow> request list" where
  "submit_locks db owner key = Wait (Idempotency_Key owner key) #
     account_locks (locked_rows [(owner, AVAILABLE), (owner, RESERVED)] db)"

text \<open>
  Both claims lock the settlement first; then \<open>_claim_reserved\<close> inserts the attempt under its key,
  and \<open>_claim_for_reconciliation\<close> locks its row or inserts it.
\<close>

definition claim_locks :: "nat \<Rightarrow> request list" where
  "claim_locks i = [Wait (Settlement_Row i), Wait (Attempt_Row i)]"

text \<open>The batch examines rows of the two joined tables and skips those that are locked.\<close>

definition batch_locks :: "nat list \<Rightarrow> request list" where
  "batch_locks ids = concat (map (\<lambda>i. [Try (Settlement_Row i), Try (Attempt_Row i)]) ids)"

text \<open>Settlement, attempt, and then the accounts of \<open>consume\<close> or \<open>release\<close>.\<close>

definition finalize_locks :: "db \<Rightarrow> nat \<Rightarrow> string \<Rightarrow> provider_result option \<Rightarrow> request list" where
  "finalize_locks db i owner result = Wait (Settlement_Row i) # Wait (Attempt_Row i) #
     (if result = Some PAID then account_locks (locked_rows [(owner, RESERVED), (''system'', OMNIBUS)] db)
      else if result = Some UNPAID then account_locks (locked_rows [(owner, RESERVED), (owner, AVAILABLE)] db)
      else [])"

text \<open>The insert of the provider waits for an uncommitted one of the same operation.\<close>

definition outcome_locks :: "nat \<Rightarrow> request list" where
  "outcome_locks i = [Wait (Operation_Row i)]"

text \<open>The audit locks all accounts, and a seed audits under its advisory lock.\<close>

definition audit_locks :: "db \<Rightarrow> request list" where
  "audit_locks db = account_locks (sort_key a_id (db_accounts db))"

definition seed_locks :: "db \<Rightarrow> request list" where
  "seed_locks db = Wait Seed_Lock # audit_locks db"

text \<open>The transactions of the program; other transactions may have committed before each starts.\<close>

inductive code_locks :: "request list \<Rightarrow> bool" where
  code_submit: "schema_ok db \<Longrightarrow> code_locks (submit_locks db owner key)"
| code_claim: "code_locks (claim_locks i)"
| code_batch: "code_locks (batch_locks ids)"
| code_finalize: "schema_ok db \<Longrightarrow> code_locks (finalize_locks db i owner result)"
| code_outcome: "code_locks (outcome_locks i)"
| code_audit: "schema_ok db \<Longrightarrow> code_locks (audit_locks db)"
| code_seed: "schema_ok db \<Longrightarrow> code_locks (seed_locks db)"

section \<open>The lock manager\<close>

record lock_holder =
  lh_held :: "resource list"
  lh_requests :: "request list"

definition active :: "lock_holder \<Rightarrow> bool" where
  "active t \<longleftrightarrow> lh_held t \<noteq> [] \<or> lh_requests t \<noteq> []"

definition locked_by_other :: "nat \<Rightarrow> lock_holder list \<Rightarrow> resource \<Rightarrow> bool" where
  "locked_by_other k ts r \<longleftrightarrow> (\<exists>m < length ts. m \<noteq> k \<and> r \<in> set (lh_held (ts ! m)))"

text \<open>A transaction takes its next lock, skips it, or commits and gives all its locks back.\<close>

inductive proceed :: "lock_holder list \<Rightarrow> lock_holder list \<Rightarrow> bool" where
  proceed_lock: "k < length ts \<Longrightarrow> lh_requests (ts ! k) = q # qs \<Longrightarrow> \<not> locked_by_other k ts (wanted q) \<Longrightarrow>
     proceed ts (ts[k := \<lparr>lh_held = wanted q # lh_held (ts ! k), lh_requests = qs\<rparr>])"
| proceed_skip: "k < length ts \<Longrightarrow> lh_requests (ts ! k) = Try r # qs \<Longrightarrow> locked_by_other k ts r \<Longrightarrow>
     proceed ts (ts[k := \<lparr>lh_held = lh_held (ts ! k), lh_requests = qs\<rparr>])"
| proceed_commit: "k < length ts \<Longrightarrow> lh_requests (ts ! k) = [] \<Longrightarrow> lh_held (ts ! k) \<noteq> [] \<Longrightarrow>
     proceed ts (ts[k := \<lparr>lh_held = [], lh_requests = []\<rparr>])"

text \<open>Besides, transactions begin, and any may end early (a return, an error, a cancelled task).\<close>

inductive lock_step :: "(request list \<Rightarrow> bool) \<Rightarrow> lock_holder list \<Rightarrow> lock_holder list \<Rightarrow> bool"
  for starts :: "request list \<Rightarrow> bool" where
  lock_proceed: "proceed ts ts' \<Longrightarrow> lock_step starts ts ts'"
| lock_begin: "starts qs \<Longrightarrow> lock_step starts ts (ts @ [\<lparr>lh_held = [], lh_requests = qs\<rparr>])"
| lock_end: "k < length ts \<Longrightarrow> lock_step starts ts (ts[k := \<lparr>lh_held = [], lh_requests = []\<rparr>])"

section \<open>Locking in order\<close>

definition in_order :: "lock_holder \<Rightarrow> bool" where
  "in_order t \<longleftrightarrow> (\<forall>q \<in> set (lh_requests t). \<exists>r. q = Try r) \<or>
     sorted_wrt (<) (rev (lh_held t) @ map wanted (lh_requests t))"

definition locks_ok :: "lock_holder list \<Rightarrow> bool" where
  "locks_ok ts \<longleftrightarrow> list_all in_order ts \<and>
     (\<forall>k < length ts. \<forall>r \<in> set (lh_held (ts ! k)). \<not> locked_by_other k ts r)"

lemma locked_by_other_update:
  assumes "k < length ts"
  shows "locked_by_other m (ts[k := t]) r \<longleftrightarrow>
    (k \<noteq> m \<and> r \<in> set (lh_held t)) \<or> (\<exists>n < length ts. n \<noteq> m \<and> n \<noteq> k \<and> r \<in> set (lh_held (ts ! n)))"
  using assms by (auto simp: locked_by_other_def nth_list_update)

text \<open>Taking only free resources keeps the holders apart.\<close>

lemma update_locks_ok:
  assumes "locks_ok ts" and k: "k < length ts" and "in_order t"
    and new: "\<And>r. r \<in> set (lh_held t) \<Longrightarrow> r \<in> set (lh_held (ts ! k)) \<or> \<not> locked_by_other k ts r"
  shows "locks_ok (ts[k := t])"
proof -
  have free: "\<not> locked_by_other m ts r" if "m < length ts" "r \<in> set (lh_held (ts ! m))" for m r
    using assms(1) that by (simp add: locks_ok_def)
  have own: "\<not> locked_by_other k ts r" if "r \<in> set (lh_held t)" for r
    using new [OF that] free [OF k] by blast
  have "\<not> locked_by_other m (ts[k := t]) r" if m: "m < length ts" "r \<in> set (lh_held (ts[k := t] ! m))" for m r
  proof (cases "m = k")
    case True
    with own m k show ?thesis by (auto simp: locked_by_other_update) (auto simp: locked_by_other_def)
  next
    case False
    then have r: "r \<in> set (lh_held (ts ! m))" using m by simp
    with own [of r] False m(1) have "r \<notin> set (lh_held t)" by (auto simp: locked_by_other_def)
    with free [OF m(1) r] k show ?thesis by (auto simp: locked_by_other_update) (auto simp: locked_by_other_def)
  qed
  moreover have "list_all in_order (ts[k := t])"
    using assms(1,3) set_update_subset_insert [of ts k t] by (auto simp: locks_ok_def list_all_iff)
  ultimately show ?thesis by (simp add: locks_ok_def)
qed

lemma in_order_done [simp]: "in_order \<lparr>lh_held = [], lh_requests = []\<rparr>"
  by (simp add: in_order_def)

lemma in_order_lock:
  assumes "in_order t" and "lh_requests t = q # qs"
  shows "in_order \<lparr>lh_held = wanted q # lh_held t, lh_requests = qs\<rparr>"
    and "in_order \<lparr>lh_held = lh_held t, lh_requests = qs\<rparr>"
  using assms by (auto simp: in_order_def sorted_wrt_append)

lemma proceed_ok:
  assumes "proceed ts ts'" and ok: "locks_ok ts"
  shows "locks_ok ts'"
  using assms(1)
proof cases
  case (proceed_lock k q qs)
  then have "in_order (ts ! k)" using ok by (simp add: locks_ok_def list_all_length)
  note order = in_order_lock [OF this proceed_lock(3)]
  show ?thesis unfolding proceed_lock(1)
    by (rule update_locks_ok [OF ok proceed_lock(2) order(1)]) (use proceed_lock(4) in auto)
next
  case (proceed_skip k r qs)
  then have "in_order (ts ! k)" using ok by (simp add: locks_ok_def list_all_length)
  note order = in_order_lock [OF this proceed_skip(3)]
  show ?thesis unfolding proceed_skip(1) by (rule update_locks_ok [OF ok proceed_skip(2) order(2)]) simp
next
  case (proceed_commit k)
  show ?thesis unfolding proceed_commit(1) by (rule update_locks_ok [OF ok proceed_commit(2) in_order_done]) simp
qed

text \<open>Of the waiting transactions the one with the greatest wish can go on.\<close>

lemma ordered_progress:
  assumes ok: "locks_ok ts" and "t \<in> set ts" and "active t"
  shows "\<exists>ts'. proceed ts ts'"
proof (rule ccontr)
  assume stuck: "\<nexists>ts'. proceed ts ts'"
  have waits: "\<exists>r qs. lh_requests (ts ! k) = Wait r # qs \<and> locked_by_other k ts r \<and>
      (\<forall>h \<in> set (lh_held (ts ! k)). h < r)" if k: "k < length ts" and act: "active (ts ! k)" for k
  proof (cases "lh_requests (ts ! k)")
    case Nil
    then show ?thesis using act proceed_commit [OF k Nil] stuck by (auto simp: active_def)
  next
    case (Cons q qs)
    have taken: "locked_by_other k ts (wanted q)" using proceed_lock [OF k Cons] stuck by blast
    then obtain r where q: "q = Wait r" using proceed_skip [OF k, of "wanted q" qs] Cons stuck by (cases q) auto
    have "in_order (ts ! k)" using ok k by (simp add: locks_ok_def list_all_length)
    then have "\<forall>h \<in> set (lh_held (ts ! k)). h < r" using Cons q by (auto simp: in_order_def sorted_wrt_append)
    with Cons q taken show ?thesis by auto
  qed
  define wish where "wish k = wanted (hd (lh_requests (ts ! k)))" for k
  let ?A = "{k. k < length ts \<and> active (ts ! k)}"
  have fin: "finite (wish ` ?A)" by simp
  obtain n where "n < length ts" "ts ! n = t" using assms(2) by (auto simp: in_set_conv_nth)
  then have "wish n \<in> wish ` ?A" using assms(3) by simp
  with fin have "Max (wish ` ?A) \<in> wish ` ?A" by (metis Max_in empty_iff)
  then obtain k where k: "Max (wish ` ?A) = wish k" "k \<in> ?A" by (rule imageE)
  have "k < length ts" "active (ts ! k)" using k(2) by blast+
  from waits [OF this] obtain r rs where r: "lh_requests (ts ! k) = Wait r # rs" "locked_by_other k ts r" by blast
  have wish: "wish k = r" by (simp add: wish_def r(1))
  obtain m where m: "m < length ts" "wish k \<in> set (lh_held (ts ! m))"
    using r(2) unfolding locked_by_other_def wish by blast
  then have act: "active (ts ! m)" by (auto simp: active_def)
  then have mA: "m \<in> ?A" using m(1) by simp
  obtain r' qs where "lh_requests (ts ! m) = Wait r' # qs" "\<forall>h \<in> set (lh_held (ts ! m)). h < r'"
    using waits [OF m(1) act] by blast
  then have "wish k < wish m" using m(2) by (simp add: wish_def)
  moreover have "wish m \<le> wish k" using Max_ge [OF fin, of "wish m"] mA by (simp add: k(1))
  ultimately show False by simp
qed

text \<open>How many steps the begun transactions can still take.\<close>

definition lock_work :: "lock_holder \<Rightarrow> nat" where
  "lock_work t = length (lh_requests t) + (if active t then 1 else 0)"

lemma proceed_decreases: "proceed ts ts' \<Longrightarrow> sum_list (map lock_work ts') < sum_list (map lock_work ts)"
  by (induction rule: proceed.induct) (auto intro!: sum_list_update_less simp: lock_work_def active_def)

lemma proceed_bounded:
  "(proceed ^^ m) ts ts' \<Longrightarrow> m + sum_list (map lock_work ts') \<le> sum_list (map lock_work ts)"
proof (induction m arbitrary: ts')
  case (Suc m)
  obtain mid where "(proceed ^^ m) ts mid" "proceed mid ts'" using Suc.prems by auto
  with Suc.IH [of mid] proceed_decreases [of mid ts'] show ?case by simp
qed simp

locale lock_discipline =
  fixes starts :: "request list \<Rightarrow> bool"
  assumes starts_ordered: "starts qs \<Longrightarrow> in_order \<lparr>lh_held = [], lh_requests = qs\<rparr>"
begin

lemma lock_step_ok: "lock_step starts ts ts' \<Longrightarrow> locks_ok ts \<Longrightarrow> locks_ok ts'"
proof (induction rule: lock_step.induct)
  case (lock_begin qs ts)
  then show ?case using starts_ordered [OF lock_begin(1)]
    by (auto simp: locks_ok_def locked_by_other_def nth_append less_Suc_eq split: if_splits)
next
  case (lock_end k ts)
  then show ?case by (auto intro: update_locks_ok)
qed (rule proceed_ok)

lemma reachable_locks: "(lock_step starts)\<^sup>*\<^sup>* [] ts \<Longrightarrow> locks_ok ts"
proof (induction rule: rtranclp_induct)
  case base
  show ?case by (simp add: locks_ok_def)
next
  case (step ts ts')
  then show ?case by (simp add: lock_step_ok)
qed

lemma no_deadlock: "(lock_step starts)\<^sup>*\<^sup>* [] ts \<Longrightarrow> t \<in> set ts \<Longrightarrow> active t \<Longrightarrow> \<exists>ts'. proceed ts ts'"
  by (rule ordered_progress [OF reachable_locks])

end

section \<open>The program locks in order\<close>

lemma account_locks_sorted:
  assumes "sorted (map a_id accounts)" and "distinct (map a_id accounts)"
  shows "sorted_wrt (<) (map wanted (account_locks accounts))"
proof -
  have "sorted_wrt (<) (map a_id accounts)" using assms by (simp add: strict_sorted_iff)
  then show ?thesis by (simp add: account_locks_def sorted_wrt_map less_resource_def)
qed

lemma locked_rows_sorted:
  assumes "schema_ok db"
  shows "sorted_wrt (<) (map wanted (account_locks (locked_rows keys db)))"
    and "sorted_wrt (<) (map wanted (audit_locks db))"
proof -
  have ids: "distinct (map a_id (db_accounts db))" using assms by (simp add: schema_defs)
  then have "distinct (map a_id (filter P (db_accounts db)))" for P by (simp add: distinct_map_filter)
  then show "sorted_wrt (<) (map wanted (account_locks (locked_rows keys db)))"
    and "sorted_wrt (<) (map wanted (audit_locks db))"
    using ids unfolding locked_rows_def audit_locks_def
    by (auto intro!: account_locks_sorted simp: distinct_map)
qed

lemma before_accounts [simp]: "fst (resource_key a) < 4 \<Longrightarrow> a < Account_Row n"
  by (cases "resource_key a") (auto simp: less_resource_def less_prod_def)

lemma account_locks_last: "x \<in> set (account_locks accounts) \<Longrightarrow> fst (resource_key a) < 4 \<Longrightarrow> a < wanted x"
  by (auto simp: account_locks_def)

lemma code_in_order: "code_locks qs \<Longrightarrow> in_order \<lparr>lh_held = [], lh_requests = qs\<rparr>"
proof (induction rule: code_locks.induct)
  case (code_batch ids)
  then show ?case by (auto simp: in_order_def batch_locks_def)
next
  case (code_claim i)
  then show ?case by (simp add: in_order_def claim_locks_def less_resource_def)
next
  case (code_finalize db i owner result)
  have "Settlement_Row i < Attempt_Row i" by (simp add: less_resource_def)
  with locked_rows_sorted(1) [OF code_finalize] show ?case by (auto simp: in_order_def finalize_locks_def intro: account_locks_last)
qed (auto simp: in_order_def submit_locks_def outcome_locks_def seed_locks_def locked_rows_sorted intro: account_locks_last,
    auto simp: audit_locks_def intro: account_locks_last)

interpretation code: lock_discipline code_locks
  by unfold_locales (rule code_in_order)

text \<open>
  C18: the transactions of the program never deadlock: whatever transactions begin, take or skip their
  row locks and end, in any order and number, no row is ever held by two, and while any of them has
  not ended, one of them can take, skip or give back its locks; without new transactions all of them
  end after boundedly many steps.
\<close>

theorem transactions_never_deadlock:
  assumes "(lock_step code_locks)\<^sup>*\<^sup>* [] ts"
  shows "(\<forall>k < length ts. \<forall>r \<in> set (lh_held (ts ! k)). \<not> locked_by_other k ts r) \<and>
    ((\<exists>t \<in> set ts. active t) \<longrightarrow> (\<exists>ts'. proceed ts ts')) \<and>
    (\<forall>m ts'. (proceed ^^ m) ts ts' \<longrightarrow> m \<le> sum_list (map lock_work ts))"
  using code.reachable_locks [OF assms] code.no_deadlock [OF assms] proceed_bounded [of _ ts]
  by (auto simp: locks_ok_def dest: add_leD1)

definition contended :: "lock_holder list" where
  "contended = [\<lparr>lh_held = [Settlement_Row 7], lh_requests = [Wait (Attempt_Row 7)]\<rparr>,
     \<lparr>lh_held = [], lh_requests = claim_locks 7\<rparr>, \<lparr>lh_held = [], lh_requests = batch_locks [7]\<rparr>]"

theorem transactions_never_deadlock_witness:
  "(\<exists>ts'. proceed contended ts') \<and> \<not> (\<exists>ts'. (proceed ^^ 9) contended ts')"
proof -
  let ?t = "\<lambda>qs. \<lparr>lh_held = [], lh_requests = qs\<rparr>" and ?c = "claim_locks 7" and ?b = "batch_locks [7]"
  have "lock_step code_locks [] [?t ?c]" using lock_begin [of code_locks ?c "[]", OF code_claim] by simp
  moreover have "lock_step code_locks [?t ?c] [?t ?c, ?t ?c]" using lock_begin [of code_locks ?c "[?t ?c]", OF code_claim] by simp
  moreover have "lock_step code_locks [?t ?c, ?t ?c] [?t ?c, ?t ?c, ?t ?b]"
    using lock_begin [of code_locks ?b "[?t ?c, ?t ?c]", OF code_batch] by simp
  moreover have "proceed [?t ?c, ?t ?c, ?t ?b] contended"
    using proceed_lock [of 0 "[?t ?c, ?t ?c, ?t ?b]" "Wait (Settlement_Row 7)" "[Wait (Attempt_Row 7)]"]
    by (auto simp: contended_def claim_locks_def locked_by_other_def nth_Cons split: nat.splits)
  ultimately have "(lock_step code_locks)\<^sup>*\<^sup>* [] contended"
    by (meson lock_proceed rtranclp.rtrancl_into_rtrancl rtranclp.rtrancl_refl)
  note all = transactions_never_deadlock [OF this]
  have "sum_list (map lock_work contended) = 8"
    by (simp add: contended_def lock_work_def active_def claim_locks_def batch_locks_def)
  moreover have "\<exists>t \<in> set contended. active t" by (simp add: contended_def active_def)
  ultimately show ?thesis using all by fastforce
qed

end
