(* ===== verification/Locked_Writes.thy ===== *)
theory Locked_Writes
  imports Row_Locks Worker_Pass
begin

text \<open>
  The locks of a transaction cover what it writes: rows that no other transaction may touch until it
  ends, which is why the transactions of the model are single steps.
\<close>

section \<open>What is written is locked\<close>

lemma post_writes_locked:
  assumes "post ids s event dk ck db = Inr db'" and ok: "accounts_ok db" and "dk \<noteq> ck"
    and a: "a \<in> set (db_accounts db)" "a \<notin> set (db_accounts db')"
  shows "a \<in> set (locked_rows [dk, ck] db)"
proof -
  obtain d c where d: "usd_account db dk = Some d" and c: "usd_account db ck = Some c"
    and db': "db' = entry_db ids (Some (st_id s)) event d c (st_amount s) db"
    using assms(1) by (auto simp: post_Inr [OF ok assms(3)])
  have rows: "d \<in> set (db_accounts db)" "a_currency d = USD" "purpose_key d = dk"
    "c \<in> set (db_accounts db)" "a_currency c = USD" "purpose_key c = ck"
    using usd_account_Some [OF ok] c d by auto
  have "a_id a = a_id d \<or> a_id a = a_id c"
  proof (rule ccontr)
    assume "\<not> ?thesis"
    then have "a \<in> set (db_accounts db')" using a(1) by (auto simp: db' entry_db_def set_balance_def set_upd_rows)
    with a(2) show False by blast
  qed
  moreover have "inj_on a_id (set (db_accounts db))" using ok by (simp add: accounts_ok_def distinct_map)
  ultimately have "a = d \<or> a = c" using a(1) rows(1,4) by (auto dest: inj_onD)
  with rows show ?thesis by (auto simp: locked_rows_def)
qed

text \<open>The rows that a transaction has overwritten, and the keys it has taken.\<close>

fun overwrites :: "db \<Rightarrow> db \<Rightarrow> resource \<Rightarrow> bool" where
  "overwrites db db' (Settlement_Row j) \<longleftrightarrow> find_settlement j db \<noteq> None \<and> find_settlement j db' \<noteq> find_settlement j db"
| "overwrites db db' (Attempt_Row j) \<longleftrightarrow> find_attempt j db' \<noteq> find_attempt j db"
| "overwrites db db' (Account_Row j) \<longleftrightarrow> (\<exists>a \<in> set (db_accounts db). a_id a = j \<and> a \<notin> set (db_accounts db'))"
| "overwrites db db' (Idempotency_Key owner key) \<longleftrightarrow>
     (\<exists>s \<in> set (db_settlements db'). st_owner s = owner \<and> st_key s = key) \<and>
     \<not> (\<exists>s \<in> set (db_settlements db). st_owner s = owner \<and> st_key s = key)"
| "overwrites db db' r \<longleftrightarrow> False"

definition covered :: "request list \<Rightarrow> db \<Rightarrow> db \<Rightarrow> bool" where
  "covered qs db db' \<longleftrightarrow> (\<forall>r. overwrites db db' r \<longrightarrow> r \<in> wanted ` set qs)"

lemma covered_refl [simp]: "covered qs db db"
proof -
  have "\<not> overwrites db db r" for r by (cases r) auto
  then show ?thesis by (simp add: covered_def)
qed

lemma covered_transact:
  assumes "transact m db = (r, db')" and "\<And>a db2. m db = Inr (a, db2) \<Longrightarrow> covered qs db db2"
  shows "covered qs db db'"
proof (cases r)
  case (Inl e)
  then have "db' = db" using transact_Inl [of m db e] assms(1) by simp
  then show ?thesis by simp
next
  case (Inr a)
  then obtain db2 where db2: "m db = Inr (a, db2)" "db' = db2\<lparr>db_inserted := []\<rparr>"
    using assms(1) by (auto simp: transact_Inr commit_Inr)
  have "overwrites db db' q = overwrites db db2 q" for q
    by (cases q) (simp_all add: db2(2) find_settlement_def find_attempt_def)
  with assms(2) [OF db2(1)] show ?thesis by (simp add: covered_def)
qed

lemma covered_post:
  assumes "post ids s event dk ck db = Inr db'" and ok: "accounts_ok db" and "dk \<noteq> ck"
  shows "covered (account_locks (locked_rows [dk, ck] db)) db db'"
  unfolding covered_def
proof (intro allI impI)
  fix r assume r: "overwrites db db' r"
  have same: "db_settlements db' = db_settlements db" "db_attempts db' = db_attempts db"
    using assms(1) by (auto simp: post_Inr [OF ok assms(3)] entry_db_def)
  then obtain a where "r = Account_Row (a_id a)" "a \<in> set (db_accounts db)" "a \<notin> set (db_accounts db')"
    using r by (cases r) (auto simp: find_settlement_def find_attempt_def)
  with post_writes_locked [OF assms] show "r \<in> wanted ` set (account_locks (locked_rows [dk, ck] db))"
    by simp
qed

text \<open>Writing only the own settlement and its attempt.\<close>

definition settlement_keys :: "db \<Rightarrow> (string \<times> string) set" where
  "settlement_keys db = (\<lambda>s. (st_owner s, st_key s)) ` set (db_settlements db)"

lemma settlement_keys_iff:
  "(\<exists>s \<in> set (db_settlements db). st_owner s = owner \<and> st_key s = key) \<longleftrightarrow> (owner, key) \<in> settlement_keys db"
  by (auto simp: settlement_keys_def)

lemma covered_own:
  assumes "covered qs db mid" and "db_accounts db' = db_accounts mid" and "settlement_keys db' = settlement_keys mid"
    and "\<And>j. j \<noteq> i \<Longrightarrow> find_settlement j db' = find_settlement j mid \<and> find_attempt j db' = find_attempt j mid"
    and "{Settlement_Row i, Attempt_Row i} \<subseteq> wanted ` set qs"
  shows "covered qs db db'"
  unfolding covered_def
proof (intro allI impI)
  fix r assume r: "overwrites db db' r"
  have "overwrites db mid r" if "r \<noteq> Settlement_Row i" "r \<noteq> Attempt_Row i"
    using r assms(2-4) that by (cases r) (auto simp: settlement_keys_iff)
  with assms(1,5) show "r \<in> wanted ` set qs" unfolding covered_def by blast
qed

lemma find_settlement_other: "j \<noteq> i \<Longrightarrow> find_settlement j (update_status i status db) = find_settlement j db"
  by (cases "find_settlement j db") (auto simp: find_settlement_status dest!: find_Some_set, auto simp: find_settlement_def dest: find_Some_set)

lemma update_status_keys [simp]: "settlement_keys (update_status i status db) = settlement_keys db"
  by (auto simp: settlement_keys_def update_status_def image_upd_rows)

lemma covered_settle:
  assumes "settle s status x mid = Inr (read, db')" and ids: "st_id s = i" "at_settlement x = i"
    and "covered qs db mid" and "{Settlement_Row i, Attempt_Row i} \<subseteq> wanted ` set qs"
  shows "covered qs db db'"
proof (rule covered_own [OF assms(4) _ _ _ assms(5)])
  have "only_touches i ids mid db'" for ids by (rule settle_touches [OF assms(1) ids only_touches_refl])
  then show "find_settlement j db' = find_settlement j mid \<and> find_attempt j db' = find_attempt j mid" if "j \<noteq> i" for j
    using that by (simp add: only_touches_def)
  have "update_attempt x (update_status i status mid) = Inr db'" using assms(1) ids(1) by (simp add: settle_Inr)
  then show "db_accounts db' = db_accounts mid" and "settlement_keys db' = settlement_keys mid"
    using update_status_keys [of i status mid]
    by (auto simp: update_attempt_Inr update_status_def settlement_keys_def)
qed

lemma submit_covered:
  assumes "service_ok auth db" and "submit ids i owner key fp command q db = Inr (u, db')"
  shows "covered (submit_locks db owner key) db db'"
proof -
  obtain s mid where s: "new_settlement i owner key fp command q = Inr s" "insert_settlement s db = Inr mid"
    "reserve ids s mid = Inr db'"
    using assms(2) by (auto simp: submit_def bind_result_eq_Inr)
  have owner: "st_owner s = owner" "st_key s = key" using s(1) by (auto simp: new_settlement_def bind_result_eq_Inr)
  have mid: "mid = db\<lparr>db_settlements := db_settlements db @ [s]\<rparr>" "find_settlement (st_id s) db = None"
    using s(2) by (simp_all add: insert_settlement_Inr)
  have ok: "accounts_ok mid" using service_schema [OF assms(1)] by (simp add: mid(1) schema_ok_def accounts_ok_def)
  let ?rows = "account_locks (locked_rows [(owner, AVAILABLE), (owner, RESERVED)] db)"
  have "locked_rows ks mid = locked_rows ks db" for ks by (simp add: locked_rows_def mid(1))
  then have cov: "covered ?rows mid db'"
    using covered_post [of ids s RESERVE "(owner, AVAILABLE)" "(owner, RESERVED)" mid db'] s(3) ok
    by (simp add: reserve_def owner)
  have "overwrites mid db' r \<or> r = Idempotency_Key owner key" if r: "overwrites db db' r" for r
  proof (cases r)
    case (Settlement_Row j)
    have "find_settlement j mid = find_settlement j db" if "find_settlement j db \<noteq> None"
      using that by (auto simp: mid(1) find_settlement_def find_append)
    with r Settlement_Row show ?thesis by auto
  next
    case (Idempotency_Key o' k')
    with r owner show ?thesis by (auto simp: mid(1))
  qed (use r in \<open>auto simp: mid(1) find_attempt_def\<close>)
  with cov show ?thesis unfolding covered_def submit_locks_def by fastforce
qed

lemma put_attempt_other:
  assumes "insert_attempt x db = Inr db' \<or> update_attempt x db = Inr db'" and "at_settlement x = i" and "j \<noteq> i"
  shows "find_attempt j db' = find_attempt j db"
  using assms find_attempt_upd [of j x db]
  by (auto simp: insert_attempt_Inr update_attempt_Inr find_attempt_def find_append split: option.splits)

lemma put_attempt_frame:
  assumes "insert_attempt x db = Inr db' \<or> update_attempt x db = Inr db'"
  shows "db_accounts db' = db_accounts db" "db_settlements db' = db_settlements db"
  using assms by (auto simp: insert_attempt_Inr update_attempt_Inr)

lemma put_attempt_covered:
  assumes "insert_attempt x (update_status i status db) = Inr db' \<or> update_attempt x (update_status i status db) = Inr db'"
    and "at_settlement x = i" and "{Settlement_Row i, Attempt_Row i} \<subseteq> wanted ` set qs"
  shows "covered qs db db'"
proof (rule covered_own [OF covered_refl _ _ _ assms(3)])
  note frame = put_attempt_frame [OF assms(1)]
  show "db_accounts db' = db_accounts db" by (simp add: frame update_status_def)
  show "settlement_keys db' = settlement_keys db"
    using update_status_keys [of i status db] by (simp add: settlement_keys_def frame(2))
  show "find_settlement j db' = find_settlement j db \<and> find_attempt j db' = find_attempt j db" if "j \<noteq> i" for j
    using put_attempt_other [OF assms(1,2) that] find_settlement_other [OF that, of status db]
    by (simp add: find_settlement_def find_attempt_def update_status_def frame(2))
qed

lemma claim_reserved_covered:
  assumes "service_ok auth db" and "claim_reserved deadline i db = Inr (c, db')"
  shows "covered (claim_locks i) db db'"
proof (cases "db' = db")
  case False
  then obtain s x where s: "find_settlement i db = Some s"
    and x: "insert_attempt x (update_status i PAYOUT_IN_PROGRESS db) = Inr db'" "at_settlement x = st_id s"
    using assms(2) by (auto simp: claim_reserved_def bind_result_eq_Inr split: option.splits if_splits)
  have "at_settlement x = i" using x(2) service_settlement(2) [OF assms(1) s] by simp
  with x(1) show ?thesis by (intro put_attempt_covered [of x i PAYOUT_IN_PROGRESS]) (simp_all add: claim_locks_def)
qed simp

lemma reclaim_covered:
  assumes "service_ok auth db" and "claim_for_reconciliation respect now deadline i db = Inr (c, db')"
  shows "covered (claim_locks i) db db'"
proof (cases "db' = db")
  case False
  have id: "st_id s = i" if "find_settlement i db = Some s" for s using service_settlement(2) [OF assms(1) that] .
  have at: "at_settlement x = i" if "find_attempt i db = Some x" for x
    using that find_attempt_Some [OF service_schema [OF assms(1)]] by simp
  obtain s where s: "find_settlement i db = Some s"
    using assms(2) by (auto simp: claim_for_reconciliation_def split: option.splits)
  obtain x where x: "insert_attempt x db = Inr db' \<or> update_attempt x db = Inr db'" "at_settlement x = i"
  proof (cases "find_attempt i db")
    case None
    with assms(2) False s show ?thesis
      by (auto simp: claim_for_reconciliation_def bind_result_eq_Inr id [OF s] split: if_splits intro: that)
  next
    case (Some y)
    with assms(2) False s show ?thesis
      by (auto simp: claim_for_reconciliation_def bind_result_eq_Inr at split: if_splits intro: that)
  qed
  have "update_status i (st_status s) db = db" using update_status_same [OF service_schema [OF assms(1)] service_settlement(1) [OF assms(1) s]] id [OF s] by simp
  with put_attempt_covered [of x i "st_status s" db db'] x show ?thesis by (auto simp: claim_locks_def)
qed simp

lemma batch_covered:
  assumes "service_ok auth db" and "transact (claim_due_batch locked now deadline limit) db = (Inr claims, db')"
  shows "covered (batch_locks (map (st_id \<circ> fst) (due_rows locked now limit db))) db db'"
  unfolding covered_def
proof (intro allI impI)
  fix r assume r: "overwrites db db' r"
  note claimed = batch_claims [OF assms]
  obtain attempts where db': "db' = db\<lparr>db_attempts := attempts, db_inserted := []\<rparr>" using claimed(1) by blast
  then obtain j where j: "r = Attempt_Row j" "find_attempt j db' \<noteq> find_attempt j db"
    using r by (cases r) (auto simp: find_settlement_def)
  with claimed(5) have "j \<in> (sr_id \<circ> cl_settlement) ` set claims" by blast
  then have "j \<in> (st_id \<circ> fst) ` set (due_rows locked now limit db)" using claimed(2) by (metis set_map)
  with j(1) show "r \<in> wanted ` set (batch_locks (map (st_id \<circ> fst) (due_rows locked now limit db)))"
    by (force simp: batch_locks_def)
qed

lemma finalize_covered:
  assumes "service_ok auth db" and fin: "finalize_attempt now ids i token result db = Inr (read, db')"
    and s: "find_settlement i db = Some s"
  shows "covered (finalize_locks db i (st_owner s) result) db db'"
proof -
  have ok: "accounts_ok db" using service_schema [OF assms(1)] by (simp add: schema_ok_def)
  obtain x where x: "find_attempt i db = Some x" using fin s by (auto simp: finalize_attempt_def split: option.splits)
  have id: "st_id s = i" "at_settlement x = i"
    using service_settlement(2) [OF assms(1) s] x find_attempt_Some [OF service_schema [OF assms(1)]] by simp_all
  have rows: "{Settlement_Row i, Attempt_Row i} \<subseteq> wanted ` set (finalize_locks db i (st_owner s) result)"
    by (simp add: finalize_locks_def)
  have more: "covered (finalize_locks db i (st_owner s) result) db mid"
    if "covered (account_locks (locked_rows ks db)) db mid"
      and "result = Some PAID \<and> ks = [(st_owner s, RESERVED), (''system'', OMNIBUS)] \<or>
        result = Some UNPAID \<and> ks = [(st_owner s, RESERVED), (st_owner s, AVAILABLE)]" for ks mid
    using that by (auto simp: covered_def finalize_locks_def)
  consider "db' = db"
    | status x' mid where "settle s status x' mid = Inr (read, db')" "at_settlement x' = i"
        "mid = db \<or> consume ids s db = Inr mid \<and> result = Some PAID \<or> release ids s db = Inr mid \<and> result = Some UNPAID"
    using fin s x id
    by (auto simp: finalize_attempt_def bind_result_eq_Inr split: if_splits option.splits provider_result.splits)
  then show ?thesis
  proof cases
    case (2 status x' mid)
    have "covered (finalize_locks db i (st_owner s) result) db mid"
      using 2(3) more covered_post [OF _ ok] by (auto simp: consume_def release_def)
    then show ?thesis by (rule covered_settle [OF 2(1) id(1) 2(2) _ rows])
  qed simp
qed

text \<open>
  C19: every transaction of the service has locked what it overwrites: from a sound database, the
  settlements, attempts and accounts that differ afterwards, and the idempotency key that is taken,
  are among the locks that the transaction requests; if it fails, nothing differs.
\<close>

theorem transactions_lock_what_they_write:
  assumes "service_ok auth db"
  shows "(transact (submit ids i owner key fingerprint command q) db = (r1, db1) \<longrightarrow>
      covered (submit_locks db owner key) db db1) \<and>
    (transact (claim_reserved deadline i) db = (r2, db2) \<longrightarrow> covered (claim_locks i) db db2) \<and>
    (transact (claim_for_reconciliation respect now deadline i) db = (r3, db3) \<longrightarrow> covered (claim_locks i) db db3) \<and>
    (transact (claim_due_batch locked now lease limit) db = (r4, db4) \<longrightarrow>
      covered (batch_locks (map (st_id \<circ> fst) (due_rows locked now limit db))) db db4) \<and>
    (transact (finalize_attempt now ids i token result) db = (r5, db5) \<longrightarrow>
      (\<forall>s. find_settlement i db = Some s \<longrightarrow> covered (finalize_locks db i (st_owner s) result) db db5))"
proof (intro conjI impI allI)
  assume "transact (submit ids i owner key fingerprint command q) db = (r1, db1)"
  then show "covered (submit_locks db owner key) db db1" by (rule covered_transact) (rule submit_covered [OF assms])
next
  assume "transact (claim_reserved deadline i) db = (r2, db2)"
  then show "covered (claim_locks i) db db2" by (rule covered_transact) (rule claim_reserved_covered [OF assms])
next
  assume "transact (claim_for_reconciliation respect now deadline i) db = (r3, db3)"
  then show "covered (claim_locks i) db db3" by (rule covered_transact) (rule reclaim_covered [OF assms])
next
  assume t: "transact (claim_due_batch locked now lease limit) db = (r4, db4)"
  show "covered (batch_locks (map (st_id \<circ> fst) (due_rows locked now limit db))) db db4"
  proof (cases r4)
    case (Inl e)
    then have "db4 = db" using transact_Inl [of "claim_due_batch locked now lease limit" db e] t by simp
    then show ?thesis by simp
  qed (use t batch_covered [OF assms] in simp)
next
  fix s assume t: "transact (finalize_attempt now ids i token result) db = (r5, db5)" and s: "find_settlement i db = Some s"
  from t show "covered (finalize_locks db i (st_owner s) result) db db5"
    by (rule covered_transact) (rule finalize_covered [OF assms _ s])
qed

theorem transactions_lock_what_they_write_witness:
  "\<exists>s db'. transact (finalize_attempt 500 (demo_entry 300) 7 1 (Some PAID)) claimed_db = (Inr s, db') \<and>
     overwrites claimed_db db' (Settlement_Row 7) \<and>
     (\<exists>s. find_settlement 7 claimed_db = Some s \<and>
        covered (finalize_locks claimed_db 7 (st_owner s) (Some PAID)) claimed_db db')"
proof -
  let ?t = "finalize_attempt 500 (demo_entry 300) 7 1 (Some PAID)"
  obtain read db' where t: "transact ?t claimed_db = (Inr read, db')" using succeeds_eq [OF demo_paid] by blast
  have "map_option st_status (find_settlement 7 claimed_db) = Some PAYOUT_IN_PROGRESS"
    and "map_option st_status (find_settlement 7 (snd (transact ?t claimed_db))) = Some SUCCESS"
    unfolding demo_dbs by code_simp+
  then obtain s where s: "find_settlement 7 claimed_db = Some s" "find_settlement 7 db' \<noteq> Some s"
    using t by fastforce
  note ok = reachable_parts(8) [OF random_config_ok called_reachable]
  have "covered (finalize_locks claimed_db 7 (st_owner s) (Some PAID)) claimed_db db'"
    using conjunct2 [OF conjunct2 [OF conjunct2 [OF conjunct2 [OF transactions_lock_what_they_write [OF ok]]]]] t s(1)
    by blast
  with t s show ?thesis by auto
qed

end
