(* ===== verification/Statement_Steps.thy ===== *)
theory Statement_Steps
  imports Locked_Writes Service_Properties
begin

text \<open>
  The transactions of the service statement by statement, with other transactions committing in
  between: since those cannot overwrite what is locked, each transaction acts as if all of it
  happened in one database, which is how \<open>Service\<close> models it.
\<close>

section \<open>What other transactions may commit meanwhile\<close>

definition keeps :: "resource set \<Rightarrow> db \<Rightarrow> db \<Rightarrow> bool" where
  "keeps held db db' \<longleftrightarrow> (\<forall>r \<in> held. \<not> overwrites db db' r)"

text \<open>A transaction that has locked what it overwrites, and none of the rows that are held.\<close>

definition other_commit :: "resource set \<Rightarrow> db \<Rightarrow> db \<Rightarrow> bool" where
  "other_commit held db db' \<longleftrightarrow> schema_ok db' \<and> (\<exists>qs. covered qs db db' \<and> held \<inter> wanted ` set qs = {})"

lemma keeps_refl: "keeps held db db"
proof -
  have "\<not> overwrites db db r" for r by (cases r) auto
  then show ?thesis by (simp add: keeps_def)
qed

lemma keeps_trans: "keeps held a b \<Longrightarrow> keeps held b c \<Longrightarrow> keeps held a c"
proof -
  have "\<not> overwrites a c r" if "\<not> overwrites a b r" "\<not> overwrites b c r" for r
    using that by (cases r) auto
  then show "keeps held a b \<Longrightarrow> keeps held b c \<Longrightarrow> keeps held a c" by (simp add: keeps_def)
qed

lemma keeps_less: "keeps held a b \<Longrightarrow> held' \<subseteq> held \<Longrightarrow> keeps held' a b"
  by (auto simp: keeps_def)

lemma other_commits_keep:
  assumes "(other_commit held)\<^sup>*\<^sup>* db db'" and "schema_ok db"
  shows "keeps held db db' \<and> schema_ok db'"
  using assms
proof (induction rule: rtranclp_induct)
  case base
  then show ?case by (simp add: keeps_refl)
next
  case (step mid db')
  then have "keeps held mid db'" by (auto simp: other_commit_def covered_def keeps_def)
  with step show ?case using keeps_trans by (auto simp: other_commit_def)
qed

lemma keeps_settlement:
  "keeps held db db' \<Longrightarrow> Settlement_Row i \<in> held \<Longrightarrow> find_settlement i db = Some s \<Longrightarrow> find_settlement i db' = Some s"
  by (force simp: keeps_def)

lemma keeps_attempt: "keeps held db db' \<Longrightarrow> Attempt_Row i \<in> held \<Longrightarrow> find_attempt i db' = find_attempt i db"
  by (force simp: keeps_def)

text \<open>The selected accounts of a movement are still the selected ones, with the same balances.\<close>

lemma keeps_accounts:
  assumes keeps: "keeps held db db'" and ok: "accounts_ok db" "accounts_ok db'"
    and held: "(Account_Row \<circ> a_id) ` set (locked_rows keys db) \<subseteq> held"
    and k: "k \<in> set keys" and a: "usd_account db k = Some a"
  shows "usd_account db' k = Some a"
proof -
  have row: "a \<in> set (db_accounts db)" "a_currency a = USD" "purpose_key a = k"
    using a usd_account_Some [OF ok(1)] by simp_all
  then have "Account_Row (a_id a) \<in> held" using held k by (auto simp: locked_rows_def)
  then have "a \<in> set (db_accounts db')" using keeps row(1) by (force simp: keeps_def)
  then show ?thesis using usd_account_Some [OF ok(2)] row by simp
qed

section \<open>Statement by statement\<close>

text \<open>
  \<open>env k\<close> is the committed database when the \<open>k\<close>-th statement runs (\<open>READ COMMITTED\<close>).  The last
  one is the database to which the transaction adds its own writes, which no other transaction sees
  before the commit.  First, \<open>_post\<close>: the accounts are locked and read in one database, the entry
  is written in the next.
\<close>

definition post_steps ::
  "post_ids \<Rightarrow> settlement \<Rightarrow> journal_event \<Rightarrow> purpose_key \<Rightarrow> purpose_key \<Rightarrow> db \<Rightarrow> statement" where
  "post_steps ids s event debit_key credit_key locked_in db =
     bind_result (locked_accounts [debit_key, credit_key] locked_in) (\<lambda>accounts.
       (case (map_of accounts debit_key, map_of accounts credit_key) of
          (Some debit, Some credit) \<Rightarrow>
            if a_balance debit < st_amount s then Inl InsufficientFunds
            else post_entry ids (Some (st_id s)) event debit credit (st_amount s) db
        | _ \<Rightarrow> Inl LookupError))"

text \<open>\<open>create\<close>: the insert, the lock of the accounts, the entry.\<close>

definition submit_steps ::
  "post_ids \<Rightarrow> nat \<Rightarrow> string \<Rightarrow> string \<Rightarrow> string \<Rightarrow> settlement_create \<Rightarrow> route_quote \<Rightarrow>
     (nat \<Rightarrow> db) \<Rightarrow> app_error + unit \<times> db" where
  "submit_steps ids i owner key fingerprint command q env =
     bind_result (new_settlement i owner key fingerprint command q) (\<lambda>s.
     bind_result (insert_settlement s (env 0)) (\<lambda>_.
     bind_result (post_steps ids s RESERVE (st_owner s, AVAILABLE) (st_owner s, RESERVED) (env 1)
         ((env 2)\<lparr>db_settlements := db_settlements (env 2) @ [s]\<rparr>)) (\<lambda>db. Inr ((), db))))"

text \<open>\<open>_claim_for_reconciliation\<close>: the lock of the settlement, the lock of the attempt, the write.\<close>

definition reclaim_steps ::
  "bool \<Rightarrow> int \<Rightarrow> int \<Rightarrow> nat \<Rightarrow> (nat \<Rightarrow> db) \<Rightarrow> app_error + payout_claim option \<times> db" where
  "reclaim_steps respect_schedule now deadline i env =
     (case find_settlement i (env 0) of
        None \<Rightarrow> Inl SettlementNotFound
      | Some s \<Rightarrow>
          if \<not> reconcilable (st_status s) then Inr (None, env 2)
          else (case find_attempt i (env 1) of
            None \<Rightarrow>
              bind_result (from_orm_settlement s) (\<lambda>read.
              bind_result
                (insert_attempt
                  \<lparr>at_settlement = st_id s, at_operation = st_operation s, at_state = CLAIMED,
                   at_token = 1, at_lease = deadline, at_outcome = None, at_reference = None\<rparr> (env 2)) (\<lambda>db'.
              Inr (Some \<lparr>cl_settlement = read, cl_token = 1\<rparr>, db')))
          | Some x \<Rightarrow>
              if at_state x = CLAIMED \<and> now < at_lease x then Inr (None, env 2)
              else if respect_schedule \<and> now < at_lease x then Inr (None, env 2)
              else bind_result (from_orm_settlement s) (\<lambda>read.
                bind_result
                  (update_attempt
                    (x\<lparr>at_token := at_token x + 1, at_state := CLAIMED, at_lease := deadline\<rparr>) (env 2)) (\<lambda>db'.
                Inr (Some \<lparr>cl_settlement = read, cl_token = at_token x + 1\<rparr>, db')))))"

text \<open>\<open>_finalize_attempt\<close>: settlement, attempt, accounts, and then the writes.\<close>

definition finalize_steps ::
  "int \<Rightarrow> post_ids \<Rightarrow> nat \<Rightarrow> int \<Rightarrow> provider_result option \<Rightarrow> (nat \<Rightarrow> db) \<Rightarrow> app_error + settlement_read \<times> db" where
  "finalize_steps now ids i token result env =
     (case find_settlement i (env 0) of
        None \<Rightarrow> Inl SettlementNotFound
      | Some s \<Rightarrow>
          (case find_attempt i (env 1) of
             None \<Rightarrow> Inl SettlementNotFound
           | Some x \<Rightarrow>
               if at_token x \<noteq> token then Inl StaleAttemptToken
               else if st_status s = SUCCESS \<or> st_status s = FAILED
               then bind_result (from_orm_settlement s) (\<lambda>read. Inr (read, env 3))
               else (case result of
                 Some PAID \<Rightarrow>
                   bind_result (post_steps ids s CONSUME (st_owner s, RESERVED) (''system'', OMNIBUS) (env 2) (env 3))
                     (settle s SUCCESS (x\<lparr>at_state := COMPLETED, at_outcome := Some OutcomePaid\<rparr>))
               | Some UNPAID \<Rightarrow>
                   bind_result (post_steps ids s RELEASE (st_owner s, RESERVED) (st_owner s, AVAILABLE) (env 2) (env 3))
                     (settle s FAILED (x\<lparr>at_state := COMPLETED, at_outcome := Some OutcomeUnpaid\<rparr>))
               | _ \<Rightarrow>
                   settle s PENDING_RECONCILIATION
                     (x\<lparr>at_state := RECONCILING,
                        at_outcome := Some (if result = Some AMBIGUOUS then OutcomeAmbiguous else OutcomeUnknown),
                        at_lease := now\<rparr>) (env 3))))"

section \<open>At once\<close>

text \<open>
  The outcome is that of the whole transaction in the database of its commit; an exception, which
  rolls everything back, is that of the transaction in one of the databases it has seen.
\<close>

definition at_once :: "app_error + 'a \<times> db \<Rightarrow> 'a transaction \<Rightarrow> (nat \<Rightarrow> db) \<Rightarrow> nat \<Rightarrow> bool" where
  "at_once outcome body env n \<longleftrightarrow>
     (case outcome of Inr v \<Rightarrow> body (env n) = Inr v | Inl e \<Rightarrow> \<exists>k \<le> n. body (env k) = Inl e)"

lemma at_onceI: "outcome = body (env k) \<Longrightarrow> k \<le> n \<Longrightarrow> (\<And>v. outcome = Inr v \<Longrightarrow> body (env n) = Inr v) \<Longrightarrow>
  at_once outcome body env n"
  by (cases "body (env k)") (auto simp: at_once_def)

lemma at_once_end: "outcome = body (env n) \<Longrightarrow> at_once outcome body env n"
  by (auto intro: at_onceI)

lemma post_steps_eq:
  assumes ok: "accounts_ok locked_in"
  shows "post_steps ids s event dk ck locked_in db =
    (case (usd_account locked_in dk, usd_account locked_in ck) of
       (Some debit, Some credit) \<Rightarrow>
         if a_balance debit < st_amount s then Inl InsufficientFunds
         else post_entry ids (Some (st_id s)) event debit credit (st_amount s) db
     | _ \<Rightarrow> Inl LookupError)"
proof (cases "locked_accounts [dk, ck] locked_in")
  case (Inl e)
  then have "\<not> (\<forall>k \<in> set [dk, ck]. usd_account locked_in k \<noteq> None)"
    using locked_accounts_Inr [OF ok, of "[dk, ck]"] by simp
  moreover have "e = LookupError" using Inl by (simp add: locked_accounts_def Let_def split: if_splits)
  ultimately show ?thesis using Inl by (auto simp: post_steps_def split: option.split)
next
  case (Inr accounts)
  then show ?thesis
    using locked_accounts_get [OF ok Inr] by (simp add: post_steps_def split: option.split)
qed

text \<open>A movement fails in the database in which it locks, or does what it does in that of the write.\<close>

lemma post_steps_cases:
  assumes ok: "accounts_ok a" "accounts_ok b" and keeps: "keeps held a b"
    and held: "(Account_Row \<circ> a_id) ` set (locked_rows [dk, ck] a) \<subseteq> held"
    and same: "db_accounts b' = db_accounts b" "db_accounts a' = db_accounts a"
  shows "post_steps ids s event dk ck a b' = post ids s event dk ck b' \<or>
    (\<exists>e. post_steps ids s event dk ck a b' = Inl e \<and> post ids s event dk ck a' = Inl e)"
proof -
  have ok': "accounts_ok a'" "accounts_ok b'" using ok same by (simp_all add: accounts_ok_def)
  have get: "usd_account a' = usd_account a" "usd_account b' = usd_account b"
    by (simp_all add: fun_eq_iff usd_account_def same)
  note eqs = post_steps_eq [OF ok(1)] post_eq [OF ok'(1)] post_eq [OF ok'(2)] get
  show ?thesis
  proof (cases "\<exists>d c. usd_account a dk = Some d \<and> usd_account a ck = Some c")
    case True
    then obtain d c where rows: "usd_account a dk = Some d" "usd_account a ck = Some c" by blast
    then have "usd_account b dk = Some d" "usd_account b ck = Some c"
      using keeps_accounts [OF keeps ok held] by auto
    with rows show ?thesis by (simp add: eqs)
  next
    case False
    then show ?thesis by (auto simp: eqs split: option.splits)
  qed
qed

lemma finalize_at_once:
  assumes ok: "\<And>k. k \<le> 3 \<Longrightarrow> schema_ok (env k)"
    and keep: "keeps {Settlement_Row i} (env 0) (env 1)" "keeps {Settlement_Row i, Attempt_Row i} (env 1) (env 2)"
      "\<And>s. find_settlement i (env 0) = Some s \<Longrightarrow>
        keeps (wanted ` set (finalize_locks (env 2) i (st_owner s) result)) (env 2) (env 3)"
  shows "at_once (finalize_steps now ids i token result env) (finalize_attempt now ids i token result) env 3"
proof (cases "find_settlement i (env 0)")
  case None
  then show ?thesis by (intro at_onceI [of _ _ _ 0]) (simp_all add: finalize_steps_def finalize_attempt_def)
next
  case (Some s)
  let ?L = "finalize_locks (env 2) i (st_owner s) result"
  have acc: "accounts_ok (env 2)" "accounts_ok (env 3)" using ok [of 2] ok [of 3] by (simp_all add: schema_ok_def)
  have rows: "Settlement_Row i \<in> wanted ` set ?L" "Attempt_Row i \<in> wanted ` set ?L" by (simp_all add: finalize_locks_def)
  have s1: "find_settlement i (env 1) = Some s" using keeps_settlement [OF keep(1) _ Some] by simp
  have s2: "find_settlement i (env 2) = Some s" using keeps_settlement [OF keep(2) _ s1] by simp
  have s3: "find_settlement i (env 3) = Some s" using keeps_settlement [OF keep(3) [OF Some] rows(1) s2] .
  have x2: "find_attempt i (env 2) = find_attempt i (env 1)" using keeps_attempt [OF keep(2)] by simp
  have x3: "find_attempt i (env 3) = find_attempt i (env 1)" using keeps_attempt [OF keep(3) [OF Some] rows(2)] x2 by simp
  note defs = finalize_steps_def finalize_attempt_def Some s1 s2 s3 x2 x3 consume_def release_def
  have moved: "at_once (bind_result (post_steps ids s event dk ck (env 2) (env 3)) f) body env 3"
    if "\<And>db. db = env 2 \<or> db = env 3 \<Longrightarrow> body db = bind_result (post ids s event dk ck db) f"
      and held: "(Account_Row \<circ> a_id) ` set (locked_rows [dk, ck] (env 2)) \<subseteq> wanted ` set ?L" for event dk ck f body
    using post_steps_cases [OF acc keep(3) [OF Some] held refl refl, of ids s event] that(1) [of "env 2"] that(1) [of "env 3"]
    by (auto intro: at_once_end at_onceI [of _ _ _ 2])
  show ?thesis
  proof (cases "find_attempt i (env 1)")
    case None
    then show ?thesis by (intro at_onceI [of _ _ _ 1]) (simp_all add: defs del: One_nat_def)
  next
    case (Some x)
    show ?thesis
    proof (cases "at_token x = token \<and> st_status s \<noteq> SUCCESS \<and> st_status s \<noteq> FAILED")
      case False
      with Some show ?thesis by (intro at_once_end) (auto simp: defs simp del: One_nat_def)
    next
      case True
      note defs = defs Some True
      consider "result = Some PAID" | "result = Some UNPAID" | "result \<noteq> Some PAID" "result \<noteq> Some UNPAID" by blast
      then show ?thesis
      proof cases
        case 1
        have "finalize_steps now ids i token result env =
            bind_result (post_steps ids s CONSUME (st_owner s, RESERVED) (''system'', OMNIBUS) (env 2) (env 3))
              (settle s SUCCESS (x\<lparr>at_state := COMPLETED, at_outcome := Some OutcomePaid\<rparr>))"
          by (simp add: defs 1 del: One_nat_def)
        then show ?thesis by (simp only:) (rule moved; auto simp: defs 1 finalize_locks_def simp del: One_nat_def)
      next
        case 2
        have "finalize_steps now ids i token result env =
            bind_result (post_steps ids s RELEASE (st_owner s, RESERVED) (st_owner s, AVAILABLE) (env 2) (env 3))
              (settle s FAILED (x\<lparr>at_state := COMPLETED, at_outcome := Some OutcomeUnpaid\<rparr>))"
          by (simp add: defs 2 del: One_nat_def)
        then show ?thesis by (simp only:) (rule moved; auto simp: defs 2 finalize_locks_def simp del: One_nat_def)
      next
        case 3
        then show ?thesis
          by (intro at_once_end) (auto simp: defs simp del: One_nat_def split: option.split provider_result.split)
      qed
    qed
  qed
qed

lemma reclaim_at_once:
  assumes "keeps {Settlement_Row i} (env 0) (env 1)" and "keeps {Settlement_Row i, Attempt_Row i} (env 1) (env 2)"
  shows "at_once (reclaim_steps respect now deadline i env) (claim_for_reconciliation respect now deadline i) env 2"
proof (cases "find_settlement i (env 0)")
  case None
  then show ?thesis by (intro at_onceI [of _ _ _ 0]) (simp_all add: reclaim_steps_def claim_for_reconciliation_def)
next
  case (Some s)
  have "find_settlement i (env 2) = Some s"
    using keeps_settlement [OF assms(2)] keeps_settlement [OF assms(1) _ Some] by simp
  moreover have "find_attempt i (env 2) = find_attempt i (env 1)" using keeps_attempt [OF assms(2)] by simp
  ultimately show ?thesis
    by (intro at_once_end) (simp add: reclaim_steps_def claim_for_reconciliation_def Some)
qed

lemma keeps_key:
  assumes "keeps held a b" and "Idempotency_Key owner key \<in> held" and "(owner, key) \<notin> settlement_keys a"
  shows "(owner, key) \<notin> settlement_keys b"
proof -
  have "overwrites a b (Idempotency_Key owner key) \<longleftrightarrow> (owner, key) \<in> settlement_keys b \<and> (owner, key) \<notin> settlement_keys a"
    by (simp add: settlement_keys_iff)
  with assms show ?thesis unfolding keeps_def by blast
qed

lemma submit_at_once:
  assumes ok: "\<And>k. k \<le> 2 \<Longrightarrow> schema_ok (env k)" and new: "\<And>k. k \<le> 2 \<Longrightarrow> find_settlement i (env k) = None"
    and keep: "keeps {Idempotency_Key owner key} (env 0) (env 1)"
      "keeps (wanted ` set (submit_locks (env 1) owner key)) (env 1) (env 2)"
  shows "at_once (submit_steps ids i owner key fingerprint command q env)
    (submit ids i owner key fingerprint command q) env 2"
proof (cases "new_settlement i owner key fingerprint command q")
  case (Inl e)
  then show ?thesis by (intro at_once_end) (simp add: submit_steps_def submit_def)
next
  case (Inr s)
  then have fields: "st_id s = i" "st_owner s = owner" "st_key s = key"
    by (auto simp: new_settlement_def bind_result_eq_Inr)
  let ?put = "\<lambda>db. db\<lparr>db_settlements := db_settlements db @ [s]\<rparr>"
  have acc: "accounts_ok (env 1)" "accounts_ok (env 2)" using ok [of 1] ok [of 2] by (simp_all add: schema_ok_def)
  show ?thesis
  proof (cases "insert_settlement s (env 0)")
    case (Inl e)
    with Inr show ?thesis by (intro at_onceI [of _ _ _ 0]) (simp_all add: submit_steps_def submit_def)
  next
    case inserted: (Inr db)
    then have "(owner, key) \<notin> settlement_keys (env 0)" by (simp add: insert_settlement_Inr settlement_keys_def fields)
    then have 1: "(owner, key) \<notin> settlement_keys (env 1)" using keeps_key [OF keep(1)] by simp
    then have 2: "(owner, key) \<notin> settlement_keys (env 2)" using keeps_key [OF keep(2)] by (simp add: submit_locks_def)
    have put: "insert_settlement s (env k) = Inr (?put (env k))" if "k = 1 \<or> k = 2" for k
      using inserted 1 2 new [of k] that by (auto simp: insert_settlement_Inr settlement_keys_def fields)
    have "(Account_Row \<circ> a_id) ` set (locked_rows [(owner, AVAILABLE), (owner, RESERVED)] (env 1))
        \<subseteq> wanted ` set (submit_locks (env 1) owner key)"
      by (auto simp: submit_locks_def)
    from post_steps_cases [OF acc keep(2) this, of "?put (env 2)" "?put (env 1)" ids s RESERVE] show ?thesis
      using put [of 1] put [of 2] Inr inserted
      by (auto simp: submit_steps_def submit_def reserve_def fields intro: at_once_end at_onceI [of _ _ _ 1])
  qed
qed

text \<open>
  C20: the transactions of the service act at once, although other transactions commit between their
  statements: if each of these has locked what it overwrites and none of the rows that are held, then
  a submission, a claim and a finalization that run statement by statement commit exactly what the
  one-step transaction would commit in the database of the commit, and raise what it would raise in
  one of the databases they saw.
\<close>

theorem transactions_act_at_once:
  assumes "schema_ok (env 0)"
  shows "((\<forall>k \<le> 2. find_settlement i (env k) = None) \<and>
      (other_commit {Idempotency_Key owner key})\<^sup>*\<^sup>* (env 0) (env 1) \<and>
      (other_commit (wanted ` set (submit_locks (env 1) owner key)))\<^sup>*\<^sup>* (env 1) (env 2) \<longrightarrow>
      at_once (submit_steps ids i owner key fingerprint command q env)
        (submit ids i owner key fingerprint command q) env 2) \<and>
    ((other_commit {Settlement_Row i})\<^sup>*\<^sup>* (env 0) (env 1) \<and>
      (other_commit (wanted ` set (claim_locks i)))\<^sup>*\<^sup>* (env 1) (env 2) \<longrightarrow>
      at_once (reclaim_steps respect now deadline i env) (claim_for_reconciliation respect now deadline i) env 2 \<and>
      (\<forall>s. find_settlement i (env 0) = Some s \<longrightarrow>
        (other_commit (wanted ` set (finalize_locks (env 2) i (st_owner s) result)))\<^sup>*\<^sup>* (env 2) (env 3) \<longrightarrow>
        at_once (finalize_steps now ids i token result env) (finalize_attempt now ids i token result) env 3))"
proof (intro conjI impI allI; (elim conjE)?)
  assume new: "\<forall>k \<le> 2. find_settlement i (env k) = None"
    and run: "(other_commit {Idempotency_Key owner key})\<^sup>*\<^sup>* (env 0) (env 1)"
      "(other_commit (wanted ` set (submit_locks (env 1) owner key)))\<^sup>*\<^sup>* (env 1) (env 2)"
  have 1: "keeps {Idempotency_Key owner key} (env 0) (env 1)" "schema_ok (env 1)"
    using other_commits_keep [OF run(1) assms] by simp_all
  have 2: "keeps (wanted ` set (submit_locks (env 1) owner key)) (env 1) (env 2)" "schema_ok (env 2)"
    using other_commits_keep [OF run(2) 1(2)] by simp_all
  have "schema_ok (env k)" if "k \<le> 2" for k
    using that assms 1(2) 2(2) by (auto simp: le_Suc_eq numeral_2_eq_2)
  with new 1(1) 2(1) show "at_once (submit_steps ids i owner key fingerprint command q env)
      (submit ids i owner key fingerprint command q) env 2"
    by (intro submit_at_once) auto
next
  assume run: "(other_commit {Settlement_Row i})\<^sup>*\<^sup>* (env 0) (env 1)"
    "(other_commit (wanted ` set (claim_locks i)))\<^sup>*\<^sup>* (env 1) (env 2)"
  have 1: "keeps {Settlement_Row i} (env 0) (env 1)" "schema_ok (env 1)"
    using other_commits_keep [OF run(1) assms] by simp_all
  have 2: "keeps {Settlement_Row i, Attempt_Row i} (env 1) (env 2)" "schema_ok (env 2)"
    using other_commits_keep [OF run(2) 1(2)] by (simp_all add: claim_locks_def)
  show "at_once (reclaim_steps respect now deadline i env) (claim_for_reconciliation respect now deadline i) env 2"
    by (rule reclaim_at_once [OF 1(1) 2(1)])
  fix s assume s: "find_settlement i (env 0) = Some s"
    and run3: "(other_commit (wanted ` set (finalize_locks (env 2) i (st_owner s) result)))\<^sup>*\<^sup>* (env 2) (env 3)"
  have 3: "keeps (wanted ` set (finalize_locks (env 2) i (st_owner s) result)) (env 2) (env 3)" "schema_ok (env 3)"
    using other_commits_keep [OF run3 2(2)] by simp_all
  have "schema_ok (env k)" if "k \<le> 3" for k
    using that assms 1(2) 2(2) 3(2) by (auto simp: le_Suc_eq numeral_3_eq_3 numeral_2_eq_2)
  with 1(1) 2(1) 3(1) s show "at_once (finalize_steps now ids i token result env)
      (finalize_attempt now ids i token result) env 3"
    by (intro finalize_at_once) auto
qed

text \<open>Another customer's account is opened after a finalization has locked its settlement.\<close>

definition busy_account :: account where
  "busy_account = \<lparr>a_id = 999, a_owner = ''other'', a_currency = USD, a_class = LIABILITY, a_purpose = AVAILABLE, a_balance = 0\<rparr>"

definition busy_db :: db where
  "busy_db = claimed_db\<lparr>db_accounts := db_accounts claimed_db @ [busy_account]\<rparr>"

definition busy_env :: "nat \<Rightarrow> db" where
  "busy_env k = (if k = 0 then claimed_db else busy_db)"

theorem transactions_act_at_once_witness:
  "\<exists>v. finalize_steps 500 (demo_entry 300) 7 1 (Some PAID) busy_env = Inr v \<and>
     finalize_attempt 500 (demo_entry 300) 7 1 (Some PAID) busy_db = Inr v"
proof -
  let ?steps = "finalize_steps 500 (demo_entry 300) 7 1 (Some PAID) busy_env"
  have sch: "schema_ok claimed_db"
    using service_schema [OF reachable_parts(8) [OF random_config_ok called_reachable]] .
  have "insert_account busy_account claimed_db = Inr busy_db"
    unfolding busy_db_def busy_account_def demo_dbs by code_simp
  then have "schema_ok busy_db" by (rule schema_insert_account [OF sch])
  moreover have "covered [] claimed_db busy_db"
  proof -
    have "\<not> overwrites claimed_db busy_db r" for r
      by (cases r) (auto simp: busy_db_def find_settlement_def find_attempt_def)
    then show ?thesis by (simp add: covered_def)
  qed
  ultimately have other: "other_commit held claimed_db busy_db" for held by (force simp: other_commit_def)
  have "case ?steps of Inr v \<Rightarrow> True | Inl e \<Rightarrow> False"
    unfolding busy_env_def busy_db_def busy_account_def demo_dbs by code_simp
  then obtain v where v: "?steps = Inr v" by (auto split: sum.splits)
  obtain s where s: "find_settlement 7 (busy_env 0) = Some s" using claimed_row by (auto simp: busy_env_def)
  have "(other_commit {Settlement_Row 7})\<^sup>*\<^sup>* (busy_env 0) (busy_env 1)"
    using other by (simp add: busy_env_def r_into_rtranclp)
  moreover have "(other_commit held)\<^sup>*\<^sup>* (busy_env 1) (busy_env 2)" "(other_commit held)\<^sup>*\<^sup>* (busy_env 2) (busy_env 3)" for held
    by (simp_all add: busy_env_def)
  moreover have "schema_ok (busy_env 0)" using sch by (simp add: busy_env_def)
  ultimately have "at_once ?steps (finalize_attempt 500 (demo_entry 300) 7 1 (Some PAID)) busy_env 3"
    using conjunct2 [OF transactions_act_at_once [where env = busy_env and i = 7]] s by blast
  then show ?thesis using v by (simp add: at_once_def busy_env_def)
qed

end
