(* ===== verification/Divergences.thy ===== *)
theory Divergences
  imports Api_Properties
begin

text \<open>
  Where the numbers and answers of the program differ from what its documents say: the rate that is
  stored, the precision of the quoted amount, and the answer to a customer without accounts.
\<close>

section \<open>Stored quotes\<close>

text \<open>The rate of the first published quote for PHP; \<open>generate_edges\<close> does not round its rates.\<close>

definition long_quote :: route_quote where
  "long_quote = \<lparr>q_version = 1, q_target = PHP, q_rate = DFin 54961486797359471894378875775155031006 (-36),
     q_hops = [\<lparr>h_source = USD, h_target = PHP, h_lp = ''LP_A'',
       h_rate = DFin 54961486797359471894378875775155031006 (-36)\<rparr>]\<rparr>"

lemma million_quoted:
  "dec_mul DEFAULT_CONTEXT (DFin 1000000 0) (DFin 54961486797359471894378875775155031006 (-36)) = DFin 5496148679735947189437887578 (-20)"
proof -
  have "ndigits 54961486797359471894378875775155031006000000 = 44" "ndigits 5496148679735947189437887578 = 28"
    by (simp_all add: ndigits.simps)
  moreover have "div_half_even 54961486797359471894378875775155031006000000 10000000000000000 = 5496148679735947189437887578"
    by (simp add: div_half_even_def)
  ultimately show ?thesis by (simp add: dec_fix_def DEFAULT_CONTEXT_def)
qed

lemma large_quoted:
  "dec_mul DEFAULT_CONTEXT (DFin 9999999999999842 0) (DFin 54961486797359471894378875775155031006 (-36)) = DFin 5496148679735860350288747750 (-10)"
proof -
  have "ndigits 549614867973586035028874774954990998197627525505101052 = 54" "ndigits 5496148679735860350288747750 = 28"
    by (simp_all add: ndigits.simps)
  moreover have "div_half_even 549614867973586035028874774954990998197627525505101052 100000000000000000000000000 = 5496148679735860350288747750"
    by (simp add: div_half_even_def)
  ultimately show ?thesis by (simp add: dec_fix_def DEFAULT_CONTEXT_def)
qed

lemma large_exact:
  "dec_mul ROUTING_CONTEXT (DFin 9999999999999842 0) (DFin 54961486797359471894378875775155031006 (-36)) = DFin 54961486797358603502887477495499099820 (-20)"
proof -
  have "ndigits 549614867973586035028874774954990998197627525505101052 = 54" "ndigits 54961486797358603502887477495499099820 = 38"
    by (simp_all add: ndigits.simps)
  moreover have "div_half_even 549614867973586035028874774954990998197627525505101052 10000000000000000 = 54961486797358603502887477495499099820"
    by (simp add: div_half_even_def)
  ultimately show ?thesis by (simp add: dec_fix_def ROUTING_CONTEXT_def)
qed

text \<open>
  The column of the rate keeps 8 decimals, while the quoted amount is computed from all digits: for
  a million USD the stored amount is not the stored rate times the amount.
\<close>

lemma stored_rate_is_rounded:
  "\<exists>s. new_settlement 7 ''demo-customer'' ''k1'' ''f1'' \<lparr>sc_amount = DFin 1000000 0, sc_target = PHP\<rparr> long_quote = Inr s \<and>
     st_rate s = 5496148680 \<and> st_quoted s = 5496148679735947 \<and> st_quoted s \<noteq> 1000000 * st_rate s"
proof -
  let ?new = "new_settlement 7 ''demo-customer'' ''k1'' ''f1'' \<lparr>sc_amount = DFin 1000000 0, sc_target = PHP\<rparr> long_quote"
  have "case ?new of Inr s \<Rightarrow> st_rate s = 5496148680 \<and> st_quoted s = 5496148679735947 | Inl e \<Rightarrow> False"
    by (simp_all add: new_settlement_def long_quote_def million_quoted large_quoted large_exact round_scale_def numeric_fits_def del: dec_mul.simps)
  then show ?thesis by (auto split: sum.splits)
qed

text \<open>
  The quoted amount is multiplied with 28 digits and then rounded to 8 decimals: it can exceed the
  amount that the routing context of 38 digits gives.
\<close>

lemma quoted_amount_rounded_twice:
  "\<exists>s exact. new_settlement 7 ''demo-customer'' ''k1'' ''f1'' \<lparr>sc_amount = DFin 9999999999999842 0, sc_target = PHP\<rparr> long_quote = Inr s \<and>
     to_numeric 32 8 (dec_mul ROUTING_CONTEXT (DFin 9999999999999842 0) (q_rate long_quote)) = Inr exact \<and>
     st_quoted s = exact + 1"
proof -
  let ?new = "new_settlement 7 ''demo-customer'' ''k1'' ''f1'' \<lparr>sc_amount = DFin 9999999999999842 0, sc_target = PHP\<rparr> long_quote"
  have "case ?new of Inr s \<Rightarrow> st_quoted s = 54961486797358603502887478 | Inl e \<Rightarrow> False"
    and "to_numeric 32 8 (dec_mul ROUTING_CONTEXT (DFin 9999999999999842 0) (q_rate long_quote)) = Inr 54961486797358603502887477"
    by (simp_all add: new_settlement_def long_quote_def million_quoted large_quoted large_exact round_scale_def numeric_fits_def del: dec_mul.simps)
  then show ?thesis by (auto split: sum.splits)
qed

section \<open>A customer without accounts\<close>

text \<open>
  A request for an owner who has no accounts is answered with 500: no handler maps the
  \<open>LookupError\<close> of \<open>_locked_accounts\<close>.  Nothing is stored.
\<close>

lemma unknown_owner_server_error:
  assumes "schema_ok (fst w)" and "undisturbed sv"
    and "parse_command json = Some command" and "owner \<noteq> []" and "key \<noteq> []"
    and "find_by_key owner key (fst w) = None" and "quote rates (sc_target command) = Inr q"
    and new: "new_settlement (sv_new_id sv) owner key (request_fingerprint owner command) command q = Inr s"
    and ins: "insert_settlement s (fst w) = Inr mid"
    and none: "\<forall>a \<in> set (db_accounts (fst w)). a_owner a \<noteq> owner"
  shows "create_settlement sv rates json (Some key) (Some owner) w =
    (respond 500 (Detail ''Internal Server Error''), w)"
proof -
  have quiet: "await sv k v = v" for k v using assms(2) unfolding undisturbed_def by blast
  have "schema_ok mid" using schema_insert_settlement [OF assms(1) ins] .
  then have acc: "accounts_ok mid" by (simp add: schema_ok_def)
  have "db_accounts mid = db_accounts (fst w)" using ins by (simp add: insert_settlement_Inr)
  then have "usd_account mid (owner, p) = None" for p
    using none by (auto simp: usd_account_None purpose_key_def)
  then have "reserve (sv_uuid sv 0) s mid = Inl LookupError"
    using new_settlement_fields [OF new] by (simp add: reserve_def post_eq [OF acc])
  then have "transact (submit (sv_uuid sv 0) (sv_new_id sv) owner key (request_fingerprint owner command) command q) (fst w)
      = (Inl LookupError, fst w)"
    using new ins by (simp add: transact_def submit_def)
  then have "create sv rates owner key command w = (Inl LookupError, w)"
    using assms(6,7) by (simp add: create_def quiet in_session_def is_idempotency_violation_def)
  with assms(3-5) show ?thesis
    by (simp add: create_settlement_def header_accepted_def exception_response_def)
qed

end
