(* ===== verification/Spec2Isabelle.thy ===== *)
theory Spec2Isabelle
  imports Prelude Decimal_Policy Decimal_Rounding Decimal_Division Routing Route_Optimality
    Route_Quotes Rate_Feed Rate_Feed_Safety Models Schema Journal_Guards All_Tables Ledger
    Ledger_Correctness Seed Ledger_Properties Sha256 Provider Provider_Contract Schemas Schema_Text
    Service Handlers Service_Invariant Settlement_System Settlement_World Handler_Runs
    Settlement_Progress Handler_Outcomes Settlement_Demo Settlement_Properties Service_Properties
    Provider_Stores Worker Worker_Pass Worker_Loop Pass_Tasks Api Api_Properties Migrations
    Catalog Catalog_Properties Row_Locks Locked_Writes Statement_Steps Divergences
begin

text \<open>
  Verification of the settlement router (\<open>app/\<close> and \<open>alembic/versions/\<close>): a service that quotes
  exchange routes, reserves a customer's USD in a double-entry ledger, asks a payout provider to
  pay, and finishes the settlement with what the provider says.

  \<^bold>\<open>The program.\<close> A rate publisher computes from the offered edges the best route from USD to
  every currency and publishes it as an immutable snapshot (\<open>routing.py\<close>, decimal arithmetic of
  \<open>decimal_policy.py\<close>).  A request under an idempotency key (\<open>main.py\<close>, \<open>schemas.py\<close>) becomes, in
  one transaction, a settlement row and a reservation (\<open>service.py\<close>, \<open>ledger.py\<close>, \<open>models.py\<close>);
  it is claimed with an attempt token, paid through \<open>provider.py\<close> outside of any transaction, and
  closed in a last transaction, unless the answer is not definite.  Then a worker, or an explicit
  request, claims it anew, looks the payout up and closes it.  Database constraints and triggers
  (\<open>alembic/versions\<close>) guard the tables; \<open>seed.py\<close> opens the demo accounts.

  \<^bold>\<open>How it is modelled.\<close> A table is a list of records in insertion order; the database \<open>db\<close> is the
  record of the tables and of the journals that a deferred check still has to look at.  A
  statement maps a database to an error or a database, a transaction to an error or a value with a
  database (\<open>transact\<close> rolls back on an error of the body or of a deferred check).  Every exception
  that the modelled code raises or handles is a value of \<open>app_error\<close>.  \<open>NUMERIC(p, 8)\<close> columns are integers in units of
  \<open>10 ^ -8\<close> with the declared range checked by every statement that writes them; \<open>decimal.Decimal\<close> is written out with
  its signs, exponents, contexts and rounding; identifiers are naturals, 128-bit UUIDs printed as
  Python prints them.  A world is a database with the state of the provider.  A handler is a
  function on worlds; what other tasks and processes do at its \<open>k\<close>-th \<open>await\<close> is the function
  \<open>sv_others k\<close> of its environment, which the theorems let be any sequence of steps of the
  world.  A transaction is one step of the world; Row_Locks and Locked_Writes show that it has locked
  all it overwrites and that no two transactions ever wait for each other, and Statement_Steps that
  it may be read that way: statement by statement, with other commits in between, it does what it
  does at once.  Clock readings and new
  UUIDs are arguments.

  \<^bold>\<open>Theories, in the order of the code.\<close>

  \<^item> Prelude: results, tables, reachable states, the locale \<open>invariant_system\<close> of a system whose
    steps keep an invariant.
  \<^item> Decimal_Policy (\<open>decimal_policy.py\<close>; the operations of \<open>decimal.Decimal\<close> that the code uses),
    Decimal_Rounding (the value of a decimal, monotone rounding, error of one rounding, the locale
    \<open>monotone_context\<close> interpreted on the two contexts), Decimal_Division.
  \<^item> Routing (\<open>_hop_key\<close> to \<open>compute_routes\<close>), Route_Optimality, Route_Quotes: soundness,
    optimality, absence of arbitrage, when a graph is rejected, independence of the edge order.
  \<^item> Rate_Feed (\<open>generate_edges\<close>, \<open>RateBook\<close>), Rate_Feed_Safety: every simulated snapshot can be
    published; the book as a state machine.
  \<^item> Models (the tables, the constraints, the triggers, commit), Schema (when statements succeed,
    the predicate \<open>schema_ok\<close>), Journal_Guards (what the triggers promise against any script),
    All_Tables (any script over the six tables, that of the provider's operations included, keeps
    every constraint, the ranges of the numbers and the length of references),
    Migrations (the data migration of \<open>0002\<close> and its downgrade), Catalog (the data definition
    statements of both migrations, the declared tables of \<open>models.py\<close>, and \<open>alembic/env.py\<close>: the
    choice of the database, the offline and the online run of the scripts that are due, and the revisions with their links),
    Catalog_Properties: upgrading to the head builds the declared schema, and at every later start
    it changes nothing.
  \<^item> Ledger (\<open>ledger.py\<close>), Seed (\<open>seed.py\<close>), Ledger_Correctness (\<open>post\<close> refines the abstract movement
    \<open>entry_db\<close>; movements keep \<open>ledger_ok\<close> and the sums), Ledger_Properties.
  \<^item> Sha256 and Provider (\<open>provider.py\<close>, both stores of the mock), Provider_Contract: the locale
    \<open>payout_provider\<close> says what the service relies on (an authority is given once and kept,
    definite answers and lookups agree with it); it is interpreted on both stores.  Provider_Stores
    extends it by \<open>deciding_provider\<close> (a default configuration, where every accepted request is
    decided) and shows that both stores answer alike.
  \<^item> Schemas (\<open>schemas.py\<close>: accepted amounts, fingerprints, stored routes), Schema_Text: round trips.
  \<^item> Service (the transactions of \<open>service.py\<close>), Handlers (\<open>create\<close>, \<open>reconcile\<close>, the worker's pass and
    loop).  Service_Invariant holds \<open>service_ok\<close>: the reserved balance of an owner is the sum of the
    unfinished settlements, journals and attempts match the status, final statuses match the
    provider's authority.  Settlement_System is the abstract machine (submit, advance, finish) that
    every transaction refines; Settlement_World adds the provider and lets every \<open>payout_provider\<close>
    be an \<open>invariant_system\<close>; Handler_Runs shows that every handler is a run of the world.
    Settlement_Progress shows that the transactions succeed, Handler_Outcomes what the handlers
    answer, Worker and Worker_Pass what the worker claims and closes in one pass, Worker_Loop that its
    passes close the whole backlog, Pass_Tasks that the tasks of a pass may be interleaved in any
    order: there \<open>_reconcile_claim\<close> is a coroutine (\<open>step_task\<close>) and \<open>asyncio.gather\<close> the relation
    \<open>gather_step\<close>.  Settlement_Demo has the concrete worlds that the theorems are applied to; Settlement_Properties and
    Service_Properties state the results for the durable provider.
  \<^item> Row_Locks (what \<open>with_for_update\<close>, \<open>skip_locked\<close>, \<open>order_by\<close>, unique keys and the advisory lock make
    each transaction request, a lock manager, the locale \<open>lock_discipline\<close> of transactions that lock
    in order, interpreted on those of the program), Locked_Writes (what is written is locked),
    Statement_Steps: \<open>post_steps\<close>, \<open>submit_steps\<close>, \<open>reclaim_steps\<close> and \<open>finalize_steps\<close> are the same code
    with \<open>env k\<close>, the committed database that the \<open>k\<close>-th statement finds; other transactions change
    there all but the rows that are locked.
  \<^item> Api (\<open>main.py\<close> and \<open>check_database\<close> of \<open>db.py\<close>), Api_Properties.
  \<^item> Divergences: the theorems where the code differs from what its documents say of it and that no
    other theory holds.

  \<^bold>\<open>What is shown.\<close> In every world that any interleaving can reach the ledger balances, reserved
  money is exactly what open settlements need, every settlement has the journals of its status,
  and a closed one agrees with the provider; statuses only move forward, superseded tokens change
  nothing, a key stands for one settlement.  Undisturbed requests, reconciliations and worker
  passes end with the documented outcome, with the documented balances, and the worker closes its
  backlog.  The transactions cannot deadlock.  The migrations build the tables that the classes
  declare, and upgrading again changes nothing.  Quotes are real, optimal and free of arbitrage.  The database guards make posted
  journals immutable, with the exception that a theorem exhibits: \<open>UPDATE\<close> statements can move all postings of any
  posted journal away.  Other divergences from the
  documentation that are theorems here: the worker never resumes a settlement that was abandoned
  before its request, replays use up ordinals of the provider, a rejected snapshot silently ends
  the publisher, a stored rate is rounded to the column's scale, a large quoted amount is rounded
  twice, and a request of an owner without account rows is answered with a server error.

  \<^bold>\<open>Bounds and fuel.\<close> Nothing here stops early for lack of fuel.  Loops over data are structural.
  The relaxation has the code's own four rounds, and the proofs show what the last
  round decides.  \<open>reconciliation_loop\<close> takes the number of passes it gets to run
  before its stop event, and the theorems hold for every number; one turn of the publisher's
  endless loop is one step of a relation.  A task of a pass takes at most five steps between its
  awaits, and two undisturbed passes for every waiting settlement are enough for the worker.  The digits of a decimal,
  the blocks and rounds of SHA-256 and the integer roots that give its constants are recursions on given numbers.

  \<^bold>\<open>Not modelled.\<close> Parsing and printing of HTTP and JSON (the framework; a parsed body is an argument,
  a response a status with its content), sleeping and the timers, engines, session pools and
  the dependency of \<open>db.py\<close>, of \<open>alembic/env.py\<close> the connection and how the migration tool chooses the scripts
  that are due (an argument; the theorem assumes only that it follows the links between the
  revisions), the values of
  the columns \<open>created_at\<close> and \<open>updated_at\<close> (no code reads them), and failures of the database itself.
\<close>

end
